(* ===== verification/Prelude.thy ===== *)
theory Prelude
  imports Main "HOL-Library.AList" "HOL-Library.Word" "HOL-Library.Sublist"
begin

text \<open>
  Shared vocabulary of the development: the proof-automation collections, insertion-ordered
  Python dictionaries, Python list operations (\<open>index\<close>, slices, \<open>insert\<close>), UUIDs as 128-bit
  words, and the one contract several components share, a rendering with a parser that
  reads it back.
\<close>

section \<open>Collections of facts\<close>

named_theorems dict_simps \<open>equations of the dictionary operations over their lookup\<close>
named_theorems list_simps \<open>equations of list splices, slices and positions\<close>

section \<open>Insertion-ordered dictionaries\<close>

text \<open>
  A Python \<open>dict\<close> keeps its insertion order, which iteration observes. Assignment to a key
  that is present keeps its place, assignment to a new key appends, and deletion keeps the
  order of the others: these are the association lists of the library.
\<close>

type_synonym ('k, 'v) pydict = "('k \<times> 'v) list"

abbreviation dict_get :: "('k, 'v) pydict \<Rightarrow> 'k \<Rightarrow> 'v option" where
  "dict_get d k \<equiv> map_of d k"

abbreviation dict_set :: "'k \<Rightarrow> 'v \<Rightarrow> ('k, 'v) pydict \<Rightarrow> ('k, 'v) pydict" where
  "dict_set k v d \<equiv> AList.update k v d"

abbreviation dict_del :: "'k \<Rightarrow> ('k, 'v) pydict \<Rightarrow> ('k, 'v) pydict" where
  "dict_del k d \<equiv> AList.delete k d"

abbreviation dict_keys :: "('k, 'v) pydict \<Rightarrow> 'k list" where
  "dict_keys d \<equiv> map fst d"

abbreviation dict_has :: "('k, 'v) pydict \<Rightarrow> 'k \<Rightarrow> bool" where
  "dict_has d k \<equiv> map_of d k \<noteq> None"

definition dict_wf :: "('k, 'v) pydict \<Rightarrow> bool" where
  "dict_wf d \<longleftrightarrow> distinct (map fst d)"

lemma dict_get_set [dict_simps]:
  "dict_get (dict_set k v d) k' = (if k' = k then Some v else dict_get d k')"
  by (simp add: update_conv')

lemma dict_get_del [dict_simps]:
  "dict_get (dict_del k d) k' = (if k' = k then None else dict_get d k')"
  by (simp add: delete_conv')

lemma dict_wf_Nil [simp, intro]: "dict_wf []"
  by (simp add: dict_wf_def)

lemma dict_wf_set [simp, intro]: "dict_wf d \<Longrightarrow> dict_wf (dict_set k v d)"
  by (simp add: dict_wf_def distinct_update)

lemma dict_wf_del [simp, intro]: "dict_wf d \<Longrightarrow> dict_wf (dict_del k d)"
  by (simp add: dict_wf_def distinct_delete)

lemma dict_mem_get: "dict_wf d \<Longrightarrow> (k, v) \<in> set d \<longleftrightarrow> dict_get d k = Some v"
  by (simp add: dict_wf_def)

lemma dict_set_new: "dict_get d k = None \<Longrightarrow> dict_set k v d = d @ [(k, v)]"
  by (induction d) (auto split: if_splits)

lemma dict_del_set_new: "dict_get d k = None \<Longrightarrow> dict_del k (dict_set k v d) = d"
  by (induction d) (auto split: if_splits)

text \<open>Building a dictionary by assignments, one per element of a list.\<close>

lemma dict_build_append:
  "distinct (map fst (d @ xs)) \<Longrightarrow> fold (\<lambda>(k, v). dict_set k v) xs d = d @ xs"
proof (induction xs arbitrary: d)
  case (Cons x xs)
  obtain k v where x: "x = (k, v)" by (cases x)
  have "dict_set k v d = d @ [(k, v)]"
    using Cons.prems x by (intro dict_set_new) (auto simp: map_of_eq_None_iff)
  with Cons x show ?case by simp
qed simp

lemma dict_build: "dict_wf xs \<Longrightarrow> fold (\<lambda>(k, v). dict_set k v) xs [] = xs"
  using dict_build_append [of "[]" xs] by (simp add: dict_wf_def)

lemma dict_get_build:
  "dict_get (fold (\<lambda>(k, v). dict_set k v) xs d) k =
     (case dict_get (rev xs) k of None \<Rightarrow> dict_get d k | Some v \<Rightarrow> Some v)"
  by (induction xs arbitrary: d)
    (auto simp: dict_simps map_add_def split: option.splits prod.splits)

section \<open>Python lists\<close>

text \<open>\<open>xs.index(x)\<close>: the position of the first occurrence, \<open>None\<close> for \<open>ValueError\<close>.\<close>

fun list_index :: "'a \<Rightarrow> 'a list \<Rightarrow> nat option" where
  "list_index x [] = None"
| "list_index x (y # ys) = (if y = x then Some 0 else map_option Suc (list_index x ys))"

text \<open>\<open>xs[i:j]\<close> for non-negative bounds, \<open>xs[i:j] = ys\<close>, and \<open>xs.insert(i, x)\<close>.\<close>

definition list_slice :: "nat \<Rightarrow> nat \<Rightarrow> 'a list \<Rightarrow> 'a list" where
  "list_slice i j xs = take (j - i) (drop i xs)"

definition list_splice :: "nat \<Rightarrow> nat \<Rightarrow> 'a list \<Rightarrow> 'a list \<Rightarrow> 'a list" where
  "list_splice i j ys xs = take i xs @ ys @ drop j xs"

definition list_insert :: "nat \<Rightarrow> 'a \<Rightarrow> 'a list \<Rightarrow> 'a list" where
  "list_insert i x xs = take i xs @ x # drop i xs"

lemma list_index_None [simp]: "list_index x xs = None \<longleftrightarrow> x \<notin> set xs"
  by (induction xs) auto

lemma list_index_SomeD:
  "list_index x xs = Some i \<Longrightarrow> i < length xs \<and> xs ! i = x \<and> x \<notin> set (take i xs)"
  by (induction xs arbitrary: i) (auto split: if_splits)

lemma list_index_Some_ex: "x \<in> set xs \<Longrightarrow> \<exists>i. list_index x xs = Some i"
  by (metis list_index_None not_Some_eq)

lemma list_index_distinct:
  "distinct xs \<Longrightarrow> i < length xs \<Longrightarrow> list_index (xs ! i) xs = Some i"
  by (induction xs arbitrary: i) (auto simp: nth_Cons split: nat.splits)

lemma length_list_slice [list_simps]: "length (list_slice i j xs) = min (j - i) (length xs - i)"
  by (simp add: list_slice_def)

lemma list_slice_full [simp]: "list_slice 0 (length xs) xs = xs"
  by (simp add: list_slice_def)

lemma list_slice_empty [simp]: "list_slice i i xs = []"
  by (simp add: list_slice_def)

lemma list_slice_append_left: "j \<le> length xs \<Longrightarrow> list_slice i j (xs @ ys) = list_slice i j xs"
  by (simp add: list_slice_def)

lemma list_slice_append_right:
  "length xs \<le> i \<Longrightarrow> list_slice i j (xs @ ys) = list_slice (i - length xs) (j - length xs) ys"
  by (simp add: list_slice_def)

lemma length_list_splice [list_simps]:
  "i \<le> j \<Longrightarrow> j \<le> length xs \<Longrightarrow> length (list_splice i j ys xs) = length xs - (j - i) + length ys"
  by (simp add: list_splice_def)

lemma splice_insert: "list_insert i x xs = list_splice i i [x] xs"
  by (simp add: list_insert_def list_splice_def)

lemma set_list_insert [simp]: "set (list_insert i x xs) = insert x (set xs)"
proof -
  have "set xs = set (take i xs) \<union> set (drop i xs)"
    by (metis append_take_drop_id set_append)
  then show ?thesis by (auto simp: list_insert_def)
qed

lemma map_list_insert: "map f (list_insert i x xs) = list_insert i (f x) (map f xs)"
  by (simp add: list_insert_def take_map drop_map)

lemma map_list_splice: "map f (list_splice i j ys xs) = list_splice i j (map f ys) (map f xs)"
  by (simp add: list_splice_def take_map drop_map)

section \<open>UUIDs\<close>

text \<open>
  A \<open>uuid.UUID\<close> is its 128-bit integer. Its \<open>version\<close> is bits 76 to 79, and is \<open>None\<close>
  unless the variant bits (63 and 62) are the RFC 4122 ones, \<open>10\<close>.
\<close>

type_synonym uuid = "128 word"

definition uuid_version :: "uuid \<Rightarrow> nat option" where
  "uuid_version u =
     (if bit u 63 \<and> \<not> bit u 62 then Some (unat (take_bit 4 (drop_bit 76 u))) else None)"

definition is_uuid4 :: "uuid \<Rightarrow> bool" where
  "is_uuid4 u \<longleftrightarrow> uuid_version u = Some 4"

section \<open>A rendering and the parser that reads it back\<close>

text \<open>
  Short ids, node addresses and JSON pointers each have a textual form with a printer and a
  parser. What their callers rely on is the same: on the values the printer accepts, parsing
  gives the value back. It follows that the printer loses nothing.
\<close>

locale render_parse =
  fixes ok :: "'a \<Rightarrow> bool"
    and render :: "'a \<Rightarrow> 'e + string"
    and parse :: "string \<Rightarrow> 'f + 'a"
  assumes render_ok: "ok x \<Longrightarrow> \<exists>s. render x = Inr s"
    and parse_render: "ok x \<Longrightarrow> render x = Inr s \<Longrightarrow> parse s = Inr x"
begin

lemma render_inj:
  assumes "ok x" and "ok y" and "render x = render y"
  shows "x = y"
proof -
  obtain s where x: "render x = Inr s" using render_ok assms(1) by blast
  with assms(3) have y: "render y = Inr s" by simp
  have "Inr x = (Inr y :: 'f + 'a)"
    using parse_render [OF assms(1) x] parse_render [OF assms(2) y] by simp
  then show ?thesis by simp
qed

lemma rendered_accepted: "ok x \<Longrightarrow> \<exists>s. render x = Inr s \<and> parse s = Inr x"
  using render_ok parse_render by blast

end

end
