(* ===== verification/Buffer.thy ===== *)
theory Buffer
  imports Prelude
begin

text \<open>
  \<open>tree_engine/core/buffer.py\<close>: the document's bytes as a piece table over the original source
  and an append-only buffer of added bytes. One edit scans the pieces for those that overlap
  its range, cuts the two boundary pieces, and splices at most three pieces in their place.
  Edits are announced to the registered listeners in registration order.
\<close>

section \<open>State\<close>

type_synonym byte = "8 word"
type_synonym node_path = "string list"

datatype piece_origin = Original | Added

record piece =
  origin :: piece_origin
  p_start :: nat
  p_length :: nat

record edit_notification =
  byte_range :: "nat \<times> nat"
  replacement :: "byte list"
  n_path :: node_path

text \<open>A listener is known by the identity of the object that was registered.\<close>

type_synonym listener = nat

record source_buffer =
  source :: "byte list"
  added :: "byte list"
  pieces :: "piece list"
  buf_length :: nat
  listeners :: "listener list"

definition new_source_buffer :: "byte list \<Rightarrow> source_buffer" where
  "new_source_buffer src =
     \<lparr>source = src, added = [],
      pieces = (if 0 < length src then [\<lparr>origin = Original, p_start = 0, p_length = length src\<rparr>] else []),
      buf_length = length src, listeners = []\<rparr>"

definition add_listener :: "listener \<Rightarrow> source_buffer \<Rightarrow> source_buffer" where
  "add_listener l b = b\<lparr>listeners := listeners b @ [l]\<rparr>"

text \<open>\<open>list.remove\<close> drops the first occurrence; its \<open>ValueError\<close> is swallowed.\<close>

definition remove_listener :: "listener \<Rightarrow> source_buffer \<Rightarrow> source_buffer" where
  "remove_listener l b = b\<lparr>listeners := remove1 l (listeners b)\<rparr>"

section \<open>One edit\<close>

text \<open>The local variables of the scan.\<close>

record scan =
  sc_i :: nat
  sc_offset :: nat
  sc_lo :: "nat option"
  sc_hi :: "nat option"
  sc_left :: "piece option"
  sc_right :: "piece option"

fun scan_pieces :: "nat \<Rightarrow> nat \<Rightarrow> piece list \<Rightarrow> scan \<Rightarrow> scan" where
  "scan_pieces s e [] st = st"
| "scan_pieces s e (p # ps) st =
     (let piece_start = sc_offset st; piece_end = sc_offset st + p_length p
      in if piece_end \<le> s then
           scan_pieces s e ps (st\<lparr>sc_offset := piece_end, sc_i := sc_i st + 1\<rparr>)
         else if piece_start \<ge> e then st
         else scan_pieces s e ps
           (st\<lparr>sc_lo := (case sc_lo st of None \<Rightarrow> Some (sc_i st) | Some l \<Rightarrow> Some l),
               sc_hi := Some (sc_i st + 1),
               sc_left := (if piece_start < s
                           then Some (p\<lparr>p_length := s - piece_start\<rparr>) else sc_left st),
               sc_right := (if piece_end > e
                            then Some (p\<lparr>p_start := p_start p + (e - piece_start),
                                         p_length := piece_end - e\<rparr>) else sc_right st),
               sc_offset := piece_end,
               sc_i := sc_i st + 1\<rparr>))"

definition scan_start :: scan where
  "scan_start = \<lparr>sc_i = 0, sc_offset = 0, sc_lo = None, sc_hi = None,
                 sc_left = None, sc_right = None\<rparr>"

abbreviation opt_list :: "'a option \<Rightarrow> 'a list" where
  "opt_list x \<equiv> (case x of None \<Rightarrow> [] | Some y \<Rightarrow> [y])"

datatype buffer_error = InvalidEditRange int int nat

text \<open>
  The outcome of an edit: the notification, the calls made to the listeners in order, and the
  buffer. A range outside \<open>0 \<le> start \<le> end \<le> len\<close> raises before anything is written.
\<close>

definition apply_edit ::
  "int \<Rightarrow> int \<Rightarrow> byte list \<Rightarrow> node_path \<Rightarrow> source_buffer \<Rightarrow>
   buffer_error + (edit_notification \<times> (listener \<times> edit_notification) list \<times> source_buffer)" where
  "apply_edit s e repl path b =
     (if \<not> (0 \<le> s \<and> s \<le> e \<and> e \<le> int (buf_length b)) then Inl (InvalidEditRange s e (buf_length b))
      else
        (let start = nat s; stop = nat e;
             st = scan_pieces start stop (pieces b) scan_start;
             lo = (case sc_lo st of None \<Rightarrow> sc_i st | Some l \<Rightarrow> l);
             hi = (case sc_lo st of None \<Rightarrow> sc_i st | Some _ \<Rightarrow> the (sc_hi st));
             new_piece = (if repl \<noteq> []
                          then [\<lparr>origin = Added, p_start = length (added b), p_length = length repl\<rparr>]
                          else []);
             new_pieces = opt_list (sc_left st) @ new_piece @ opt_list (sc_right st);
             notification = \<lparr>byte_range = (start, stop), replacement = repl, n_path = path\<rparr>
         in Inr (notification,
                 map (\<lambda>l. (l, notification)) (listeners b),
                 b\<lparr>pieces := list_splice lo hi new_pieces (pieces b),
                   added := added b @ repl,
                   buf_length := buf_length b - (stop - start) + length repl\<rparr>)))"

section \<open>Serialization\<close>

definition piece_bytes :: "source_buffer \<Rightarrow> piece \<Rightarrow> byte list" where
  "piece_bytes b p =
     (case origin p of
        Original \<Rightarrow> list_slice (p_start p) (p_start p + p_length p) (source b)
      | Added \<Rightarrow> list_slice (p_start p) (p_start p + p_length p) (added b))"

definition iter_regions :: "source_buffer \<Rightarrow> (bool \<times> byte list) list" where
  "iter_regions b = map (\<lambda>p. (origin p = Original, piece_bytes b p)) (pieces b)"

definition serialize :: "source_buffer \<Rightarrow> byte list" where
  "serialize b = concat (map snd (iter_regions b))"

section \<open>The invariant\<close>

definition piece_ok :: "source_buffer \<Rightarrow> piece \<Rightarrow> bool" where
  "piece_ok b p \<longleftrightarrow> 0 < p_length p \<and>
     p_start p + p_length p \<le> length (case origin p of Original \<Rightarrow> source b | Added \<Rightarrow> added b)"

definition buf_inv :: "source_buffer \<Rightarrow> bool" where
  "buf_inv b \<longleftrightarrow> list_all (piece_ok b) (pieces b) \<and> buf_length b = sum_list (map p_length (pieces b))"

lemma serialize_pieces: "serialize b = concat (map (piece_bytes b) (pieces b))"
  by (simp add: serialize_def iter_regions_def comp_def)

lemma length_piece_bytes: "piece_ok b p \<Longrightarrow> length (piece_bytes b p) = p_length p"
  by (auto simp: piece_ok_def piece_bytes_def list_simps split: piece_origin.splits)

lemma length_serialize: "buf_inv b \<Longrightarrow> length (serialize b) = buf_length b"
  by (simp add: buf_inv_def serialize_pieces length_concat comp_def list_all_iff
      length_piece_bytes cong: map_cong)

lemma new_source_buffer_inv [simp]: "buf_inv (new_source_buffer src)"
  by (simp add: buf_inv_def new_source_buffer_def piece_ok_def)

lemma serialize_new [simp]: "serialize (new_source_buffer src) = src"
  by (simp add: serialize_pieces new_source_buffer_def piece_bytes_def)

text \<open>Cutting a piece cuts its bytes.\<close>

lemma piece_bytes_left: "n \<le> p_length p \<Longrightarrow> piece_bytes b (p\<lparr>p_length := n\<rparr>) = take n (piece_bytes b p)"
  by (simp add: piece_bytes_def list_slice_def min_absorb1 split: piece_origin.split)

lemma piece_bytes_right:
  "k \<le> p_length p \<Longrightarrow>
   piece_bytes b (p\<lparr>p_start := p_start p + k, p_length := p_length p - k\<rparr>) = drop k (piece_bytes b p)"
  by (simp add: piece_bytes_def list_slice_def drop_take add.commute split: piece_origin.split)

lemma piece_ok_left: "piece_ok b p \<Longrightarrow> 0 < n \<Longrightarrow> n \<le> p_length p \<Longrightarrow> piece_ok b (p\<lparr>p_length := n\<rparr>)"
  by (auto simp: piece_ok_def split: piece_origin.splits)

lemma piece_ok_right:
  "piece_ok b p \<Longrightarrow> k < p_length p \<Longrightarrow>
   piece_ok b (p\<lparr>p_start := p_start p + k, p_length := p_length p - k\<rparr>)"
  by (auto simp: piece_ok_def split: piece_origin.splits)

section \<open>The scan\<close>

text \<open>
  Once an overlapping piece has been met, the scan only moves \<open>hi\<close> along, and what is left to
  the right of \<open>hi\<close>, behind the right remainder, is the text from the end of the edit on.
\<close>

abbreviation bytes_of :: "source_buffer \<Rightarrow> piece list \<Rightarrow> byte list" where
  "bytes_of b ps \<equiv> concat (map (piece_bytes b) ps)"

lemma scan_overlap:
  assumes "list_all (piece_ok b) ps" and "s < sc_offset st" and "sc_hi st = Some (sc_i st)"
    and "sc_lo st = Some l" and "sc_offset st \<le> e" and "sc_right st = None"
  shows "\<exists>k. sc_hi (scan_pieces s e ps st) = Some (sc_i st + k) \<and> k \<le> length ps
    \<and> sc_lo (scan_pieces s e ps st) = Some l \<and> sc_left (scan_pieces s e ps st) = sc_left st
    \<and> list_all (piece_ok b) (opt_list (sc_right (scan_pieces s e ps st)))
    \<and> (e \<le> sc_offset st + length (bytes_of b ps) \<longrightarrow>
        bytes_of b (opt_list (sc_right (scan_pieces s e ps st)) @ drop k ps)
          = drop (e - sc_offset st) (bytes_of b ps))"
  using assms
proof (induction ps arbitrary: st)
  case Nil
  then show ?case by simp
next
  case (Cons p ps)
  let ?o = "sc_offset st" and ?n = "p_length p"
  have pok: "piece_ok b p" and ok: "list_all (piece_ok b) ps" using Cons.prems(1) by simp_all
  have len: "length (piece_bytes b p) = ?n" and pos: "0 < ?n"
    using pok by (simp add: length_piece_bytes, simp add: piece_ok_def)
  show ?case
  proof (cases "e = ?o")
    case True
    then have "scan_pieces s e (p # ps) st = st" using Cons.prems pos by simp
    then show ?thesis using True Cons.prems by (intro exI [of _ 0]) simp
  next
    case False
    then have lt: "?o < e" using Cons.prems(5) by simp
    define st' where "st' = st\<lparr>sc_hi := Some (sc_i st + 1),
        sc_right := (if ?o + ?n > e then Some (p\<lparr>p_start := p_start p + (e - ?o),
             p_length := ?o + ?n - e\<rparr>) else None), sc_offset := ?o + ?n, sc_i := sc_i st + 1\<rparr>"
    have step: "scan_pieces s e (p # ps) st = scan_pieces s e ps st'"
      using Cons.prems lt by (cases st) (simp add: Let_def st'_def)
    show ?thesis
    proof (cases "?o + ?n > e")
      case True
      define r where "r = p\<lparr>p_start := p_start p + (e - ?o), p_length := ?o + ?n - e\<rparr>"
      have r: "r = p\<lparr>p_start := p_start p + (e - ?o), p_length := ?n - (e - ?o)\<rparr>"
        using lt by (simp add: r_def)
      have f: "sc_hi st' = Some (sc_i st + 1)" "sc_lo st' = Some l" "sc_left st' = sc_left st"
        "sc_right st' = Some r"
        using True Cons.prems(4) by (simp_all add: st'_def r_def)
      have stop: "scan_pieces s e ps st' = st'"
        using True Cons.prems(2) by (cases ps) (auto simp: st'_def Let_def)
      have "piece_bytes b r = drop (e - ?o) (piece_bytes b p)"
        unfolding r using True lt by (intro piece_bytes_right) simp
      moreover have "piece_ok b r"
        unfolding r using pok True lt by (intro piece_ok_right) simp_all
      ultimately show ?thesis
        unfolding step stop using f len True lt by (intro exI [of _ 1]) simp
    next
      case False
      then have st': "s < sc_offset st'" "sc_hi st' = Some (sc_i st')" "sc_lo st' = Some l"
        "sc_offset st' \<le> e" "sc_right st' = None"
        using Cons.prems by (simp_all add: st'_def)
      obtain k where k: "sc_hi (scan_pieces s e ps st') = Some (sc_i st' + k)" "k \<le> length ps"
        "sc_lo (scan_pieces s e ps st') = Some l"
        "sc_left (scan_pieces s e ps st') = sc_left st'"
        "list_all (piece_ok b) (opt_list (sc_right (scan_pieces s e ps st')))"
        "e \<le> sc_offset st' + length (bytes_of b ps) \<longrightarrow>
          bytes_of b (opt_list (sc_right (scan_pieces s e ps st')) @ drop k ps)
            = drop (e - sc_offset st') (bytes_of b ps)"
        using Cons.IH [OF ok st'] by blast
      have "drop (e - ?o) (bytes_of b (p # ps)) = drop (e - sc_offset st') (bytes_of b ps)"
        using False len lt by (simp add: st'_def)
      then show ?thesis
        using k step len by (intro exI [of _ "Suc k"]) (simp add: st'_def add.assoc)
    qed
  qed
qed

text \<open>
  The whole scan: the pieces before \<open>lo\<close> with the left remainder spell the text before the
  edit, and the right remainder with the pieces from \<open>hi\<close> on spell the text behind it.
\<close>

definition scan_lo :: "scan \<Rightarrow> nat" where
  "scan_lo st = (case sc_lo st of None \<Rightarrow> sc_i st | Some l \<Rightarrow> l)"

definition scan_hi :: "scan \<Rightarrow> nat" where
  "scan_hi st = (case sc_lo st of None \<Rightarrow> sc_i st | Some _ \<Rightarrow> the (sc_hi st))"

lemma scan_first_overlap:
  assumes "piece_ok b p" and "list_all (piece_ok b) ps"
    and "sc_offset st \<le> s" and "s < sc_offset st + p_length p" and "sc_offset st < e" and "s \<le> e"
    and "sc_lo st = None" and "sc_left st = None" and "sc_right st = None"
    and "e \<le> sc_offset st + length (bytes_of b (p # ps))"
  defines "r \<equiv> scan_pieces s e (p # ps) st"
  shows "\<exists>k. sc_lo r = Some (sc_i st) \<and> sc_hi r = Some (sc_i st + k) \<and> 1 \<le> k \<and> k \<le> Suc (length ps)
    \<and> list_all (piece_ok b) (opt_list (sc_left r) @ opt_list (sc_right r))
    \<and> bytes_of b (opt_list (sc_left r)) = take (s - sc_offset st) (bytes_of b (p # ps))
    \<and> bytes_of b (opt_list (sc_right r) @ drop k (p # ps))
        = drop (e - sc_offset st) (bytes_of b (p # ps))"
proof -
  let ?o = "sc_offset st" and ?n = "p_length p"
  have len: "length (piece_bytes b p) = ?n" using assms(1) by (rule length_piece_bytes)
  define st' where "st' = st\<lparr>sc_lo := Some (sc_i st), sc_hi := Some (sc_i st + 1),
      sc_left := (if ?o < s then Some (p\<lparr>p_length := s - ?o\<rparr>) else None),
      sc_right := (if ?o + ?n > e then Some (p\<lparr>p_start := p_start p + (e - ?o),
           p_length := ?o + ?n - e\<rparr>) else None), sc_offset := ?o + ?n, sc_i := sc_i st + 1\<rparr>"
  have step: "r = scan_pieces s e ps st'"
    using assms by (simp add: Let_def st'_def)
  have left_ok: "list_all (piece_ok b) (opt_list (sc_left st'))"
    using assms by (auto simp: st'_def intro!: piece_ok_left)
  have left: "bytes_of b (opt_list (sc_left st')) = take (s - ?o) (bytes_of b (p # ps))"
    using assms(3,4) len by (auto simp: st'_def piece_bytes_left)
  show ?thesis
  proof (cases "?o + ?n > e")
    case True
    have cut: "?o + ?n - e = ?n - (e - ?o)" using assms(5) by simp
    have "scan_pieces s e ps st' = st'"
      using True assms by (cases ps) (auto simp: st'_def Let_def)
    then show ?thesis
      using step left left_ok True assms(1,5) len piece_bytes_right [of "e - ?o" p b]
        piece_ok_right [of b p "e - ?o"]
      by (intro exI [of _ 1]) (simp add: st'_def cut)
  next
    case False
    then have st': "s < sc_offset st'" "sc_hi st' = Some (sc_i st')" "sc_lo st' = Some (sc_i st)"
      "sc_offset st' \<le> e" "sc_right st' = None"
      using assms by (simp_all add: st'_def)
    obtain k where k: "sc_hi r = Some (sc_i st' + k)" "k \<le> length ps" "sc_lo r = Some (sc_i st)"
      "sc_left r = sc_left st'" "list_all (piece_ok b) (opt_list (sc_right r))"
      "e \<le> sc_offset st' + length (bytes_of b ps) \<longrightarrow>
        bytes_of b (opt_list (sc_right r) @ drop k ps) = drop (e - sc_offset st') (bytes_of b ps)"
      using scan_overlap [OF assms(2) st'] step by auto
    have "drop (e - ?o) (bytes_of b (p # ps)) = drop (e - sc_offset st') (bytes_of b ps)"
      using False len assms(5) by (simp add: st'_def)
    then show ?thesis
      using k left left_ok assms(10) len
      by (intro exI [of _ "Suc k"]) (simp add: st'_def add.assoc)
  qed
qed

lemma scan_splits:
  assumes "list_all (piece_ok b) ps" and "sc_offset st \<le> s" and "s \<le> e"
    and "sc_lo st = None" and "sc_left st = None" and "sc_right st = None"
    and "e \<le> sc_offset st + length (bytes_of b ps)"
  shows "\<exists>j k. scan_lo (scan_pieces s e ps st) = sc_i st + j
    \<and> scan_hi (scan_pieces s e ps st) = sc_i st + k \<and> j \<le> k \<and> k \<le> length ps
    \<and> (j = k \<longrightarrow> sc_left (scan_pieces s e ps st) = None \<and> sc_right (scan_pieces s e ps st) = None)
    \<and> list_all (piece_ok b) (opt_list (sc_left (scan_pieces s e ps st))
         @ opt_list (sc_right (scan_pieces s e ps st)))
    \<and> bytes_of b (take j ps @ opt_list (sc_left (scan_pieces s e ps st)))
        = take (s - sc_offset st) (bytes_of b ps)
    \<and> bytes_of b (opt_list (sc_right (scan_pieces s e ps st)) @ drop k ps)
        = drop (e - sc_offset st) (bytes_of b ps)"
  using assms
proof (induction ps arbitrary: st)
  case Nil
  then show ?case by (simp add: scan_lo_def scan_hi_def)
next
  case (Cons p ps)
  let ?o = "sc_offset st" and ?n = "p_length p"
  have pok: "piece_ok b p" and ok: "list_all (piece_ok b) ps" using Cons.prems(1) by simp_all
  have len: "length (piece_bytes b p) = ?n" using pok by (rule length_piece_bytes)
  consider (before) "?o + ?n \<le> s" | (after) "s < ?o + ?n" "e \<le> ?o" | (overlap) "s < ?o + ?n" "?o < e"
    by linarith
  then show ?case
  proof cases
    case before
    let ?st = "st\<lparr>sc_offset := ?o + ?n, sc_i := sc_i st + 1\<rparr>"
    have step: "scan_pieces s e (p # ps) st = scan_pieces s e ps ?st"
      using before by (simp add: Let_def)
    obtain j k where "scan_lo (scan_pieces s e ps ?st) = sc_i ?st + j"
      "scan_hi (scan_pieces s e ps ?st) = sc_i ?st + k" "j \<le> k" "k \<le> length ps"
      "j = k \<longrightarrow> sc_left (scan_pieces s e ps ?st) = None \<and> sc_right (scan_pieces s e ps ?st) = None"
      "list_all (piece_ok b) (opt_list (sc_left (scan_pieces s e ps ?st))
         @ opt_list (sc_right (scan_pieces s e ps ?st)))"
      "bytes_of b (take j ps @ opt_list (sc_left (scan_pieces s e ps ?st)))
        = take (s - sc_offset ?st) (bytes_of b ps)"
      "bytes_of b (opt_list (sc_right (scan_pieces s e ps ?st)) @ drop k ps)
        = drop (e - sc_offset ?st) (bytes_of b ps)"
      using Cons.IH [OF ok, of ?st] before Cons.prems len by auto
    then show ?thesis
      using step before Cons.prems(3) len
      by (intro exI [of _ "Suc j"] exI [of _ "Suc k"]) simp
  next
    case after
    then have "scan_pieces s e (p # ps) st = st" by simp
    then show ?thesis
      using after Cons.prems by (intro exI [of _ 0] exI [of _ 0]) (simp add: scan_lo_def scan_hi_def)
  next
    case overlap
    obtain k where "sc_lo (scan_pieces s e (p # ps) st) = Some (sc_i st)"
      "sc_hi (scan_pieces s e (p # ps) st) = Some (sc_i st + k)" "1 \<le> k" "k \<le> Suc (length ps)"
      "list_all (piece_ok b) (opt_list (sc_left (scan_pieces s e (p # ps) st))
         @ opt_list (sc_right (scan_pieces s e (p # ps) st)))"
      "bytes_of b (opt_list (sc_left (scan_pieces s e (p # ps) st)))
        = take (s - ?o) (bytes_of b (p # ps))"
      "bytes_of b (opt_list (sc_right (scan_pieces s e (p # ps) st)) @ drop k (p # ps))
        = drop (e - ?o) (bytes_of b (p # ps))"
      using scan_first_overlap [OF pok ok Cons.prems(2) overlap Cons.prems(3-7)] by blast
    then show ?thesis
      by (intro exI [of _ 0] exI [of _ k]) (simp add: scan_lo_def scan_hi_def)
  qed
qed

section \<open>What an edit does\<close>

lemma piece_ok_grow: "piece_ok b p \<Longrightarrow> piece_ok (b\<lparr>pieces := ps, added := added b @ xs, buf_length := n\<rparr>) p"
  by (auto simp: piece_ok_def split: piece_origin.splits)

lemma piece_bytes_grow:
  "piece_ok b p \<Longrightarrow>
   piece_bytes (b\<lparr>pieces := ps, added := added b @ xs, buf_length := n\<rparr>) p = piece_bytes b p"
  by (auto simp: piece_ok_def piece_bytes_def list_slice_append_left split: piece_origin.splits)

lemma bytes_of_grow:
  "list_all (piece_ok b) qs \<Longrightarrow>
   bytes_of (b\<lparr>pieces := ps, added := added b @ xs, buf_length := n\<rparr>) qs = bytes_of b qs"
  by (induction qs) (simp_all add: piece_bytes_grow)

lemma sum_lengths_bytes: "list_all (piece_ok b) qs \<Longrightarrow> sum_list (map p_length qs) = length (bytes_of b qs)"
  by (induction qs) (simp_all add: length_piece_bytes)

lemma list_all_take_drop: "list_all P xs \<Longrightarrow> list_all P (take i xs) \<and> list_all P (drop i xs)"
  by (auto simp: list_all_iff dest: in_set_takeD in_set_dropD)

lemma apply_edit_in_range:
  "0 \<le> s \<Longrightarrow> s \<le> e \<Longrightarrow> e \<le> int (buf_length b) \<Longrightarrow>
   \<exists>n calls b'. apply_edit s e repl path b = Inr (n, calls, b')"
  by (simp add: apply_edit_def Let_def)

text \<open>The successful edit, as a splice of the piece list.\<close>

lemma apply_edit_splice:
  assumes "buf_inv b" and "i \<le> j" and "j \<le> buf_length b"
  obtains lo hi new b' where "apply_edit (int i) (int j) repl path b =
      Inr (\<lparr>byte_range = (i, j), replacement = repl, n_path = path\<rparr>,
        map (\<lambda>l. (l, \<lparr>byte_range = (i, j), replacement = repl, n_path = path\<rparr>)) (listeners b), b')"
    and "pieces b' = take lo (pieces b) @ new @ drop hi (pieces b)" and "lo \<le> hi"
    and "hi \<le> length (pieces b)" and "length new \<le> 3" and "lo = hi \<longrightarrow> length new \<le> 1"
    and "source b' = source b" and "added b' = added b @ repl" and "listeners b' = listeners b"
    and "buf_inv b'" and "serialize b' = list_splice i j repl (serialize b)"
proof -
  let ?st = "scan_pieces i j (pieces b) scan_start" and ?ps = "pieces b"
  let ?new = "if repl \<noteq> []
      then [\<lparr>origin = Added, p_start = length (added b), p_length = length repl\<rparr>] else []"
  let ?l = "opt_list (sc_left ?st)" and ?r = "opt_list (sc_right ?st)"
  let ?lo = "scan_lo ?st" and ?hi = "scan_hi ?st"
  define qs where "qs = take ?lo ?ps @ (?l @ ?new @ ?r) @ drop ?hi ?ps"
  define b' where "b' = b\<lparr>pieces := qs, added := added b @ repl,
      buf_length := buf_length b - (j - i) + length repl\<rparr>"
  have ok: "list_all (piece_ok b) ?ps" using assms(1) by (simp add: buf_inv_def)
  have "j \<le> length (bytes_of b ?ps)"
    using assms length_serialize by (simp add: serialize_pieces)
  then obtain lo hi where lo: "?lo = lo" "?hi = hi" "lo \<le> hi" "hi \<le> length ?ps"
    "lo = hi \<longrightarrow> sc_left ?st = None \<and> sc_right ?st = None"
    "list_all (piece_ok b) (?l @ ?r)"
    "bytes_of b (take lo ?ps @ ?l) = take i (bytes_of b ?ps)"
    "bytes_of b (?r @ drop hi ?ps) = drop j (bytes_of b ?ps)"
    using scan_splits [OF ok, of scan_start i j] assms(2) by (auto simp: scan_start_def)
  have edit: "apply_edit (int i) (int j) repl path b =
      Inr (\<lparr>byte_range = (i, j), replacement = repl, n_path = path\<rparr>,
        map (\<lambda>l. (l, \<lparr>byte_range = (i, j), replacement = repl, n_path = path\<rparr>)) (listeners b), b')"
    using assms(2,3)
    by (simp add: apply_edit_def Let_def scan_lo_def [symmetric] scan_hi_def [symmetric]
        list_splice_def b'_def qs_def)
  have new_ok: "list_all (piece_ok b') ?new" and new_bytes: "bytes_of b' ?new = repl"
    by (auto simp: piece_ok_def piece_bytes_def b'_def list_slice_def)
  have old_ok: "list_all (piece_ok b) (take lo ?ps @ ?l)" "list_all (piece_ok b) (?r @ drop hi ?ps)"
    using ok lo(6) list_all_take_drop [OF ok] by simp_all
  have old_bytes: "bytes_of b' (take lo ?ps @ ?l) = take i (bytes_of b ?ps)"
    "bytes_of b' (?r @ drop hi ?ps) = drop j (bytes_of b ?ps)"
    unfolding b'_def using bytes_of_grow [OF old_ok(1)] bytes_of_grow [OF old_ok(2)] lo(7,8)
    by simp_all
  have split: "qs = (take lo ?ps @ ?l) @ ?new @ (?r @ drop hi ?ps)"
    using lo by (simp add: qs_def)
  have content: "bytes_of b' qs = take i (bytes_of b ?ps) @ repl @ drop j (bytes_of b ?ps)"
  proof -
    have "bytes_of b' qs = bytes_of b' (take lo ?ps @ ?l) @ bytes_of b' ?new @ bytes_of b' (?r @ drop hi ?ps)"
      by (simp only: split map_append concat_append append_assoc)
    then show ?thesis by (simp only: old_bytes new_bytes)
  qed
  have all_ok: "list_all (piece_ok b') qs"
  proof -
    have "list_all (piece_ok b') xs" if "list_all (piece_ok b) xs" for xs
      using that piece_ok_grow unfolding b'_def by (auto simp: list_all_iff)
    then show ?thesis unfolding split using old_ok new_ok by simp
  qed
  have "buf_inv b'"
    using all_ok sum_lengths_bytes [OF all_ok] content assms length_serialize [OF assms(1)]
    by (simp add: buf_inv_def b'_def [symmetric] serialize_pieces) (simp add: b'_def)
  moreover have "serialize b' = list_splice i j repl (serialize b)"
    using content by (simp add: serialize_pieces list_splice_def) (simp add: b'_def)
  ultimately show ?thesis
    using that [OF edit, of lo "?l @ ?new @ ?r" hi] lo
    by (simp add: b'_def qs_def split: option.splits)
qed

section \<open>Interface: an editable sequence of bytes\<close>

text \<open>
  What the position index and any editor of the text rely on: an edit replaces the range it
  names in the content and nothing else.
\<close>

locale byte_buffer =
  fixes inv :: "'b \<Rightarrow> bool"
    and content :: "'b \<Rightarrow> 'a list"
    and edit :: "nat \<Rightarrow> nat \<Rightarrow> 'a list \<Rightarrow> 'b \<Rightarrow> 'b"
  assumes edit_inv: "inv b \<Longrightarrow> i \<le> j \<Longrightarrow> j \<le> length (content b) \<Longrightarrow> inv (edit i j xs b)"
    and edit_content: "inv b \<Longrightarrow> i \<le> j \<Longrightarrow> j \<le> length (content b) \<Longrightarrow>
      content (edit i j xs b) = list_splice i j xs (content b)"
begin

fun edits_fit :: "(nat \<times> nat \<times> 'a list) list \<Rightarrow> 'a list \<Rightarrow> bool" where
  "edits_fit [] c = True"
| "edits_fit ((i, j, xs) # es) c = (i \<le> j \<and> j \<le> length c \<and> edits_fit es (list_splice i j xs c))"

abbreviation edit_all :: "(nat \<times> nat \<times> 'a list) list \<Rightarrow> 'b \<Rightarrow> 'b" where
  "edit_all es b \<equiv> fold (\<lambda>(i, j, xs). edit i j xs) es b"

lemma edit_all_content:
  "inv b \<Longrightarrow> edits_fit es (content b) \<Longrightarrow>
   inv (edit_all es b) \<and> content (edit_all es b) = fold (\<lambda>(i, j, xs). list_splice i j xs) es (content b)"
  by (induction es arbitrary: b) (auto simp: edit_inv edit_content)

lemma edit_before_shifts:
  assumes "inv b" and "i \<le> j" and "j \<le> s" and "s + n \<le> length (content b)"
  shows "list_slice (s + length xs - (j - i)) (s + length xs - (j - i) + n) (content (edit i j xs b))
      = list_slice s (s + n) (content b)"
proof -
  have c: "content (edit i j xs b) = take i (content b) @ xs @ drop j (content b)"
    using assms edit_content by (simp add: list_splice_def)
  have "drop (s + length xs - (j - i)) (content (edit i j xs b)) = drop s (content b)"
    using assms by (simp add: c)
  then show ?thesis by (simp add: list_slice_def)
qed

lemma edit_after_keeps:
  assumes "inv b" and "i \<le> j" and "s + n \<le> i" and "j \<le> length (content b)"
  shows "list_slice s (s + n) (content (edit i j xs b)) = list_slice s (s + n) (content b)"
proof -
  have c: "content (edit i j xs b) = take i (content b) @ xs @ drop j (content b)"
    using assms edit_content by (simp add: list_splice_def)
  have "take n (drop s (content b)) = take n (drop s (take i (content b)))"
    using assms(3) by (simp add: drop_take min_absorb1)
  then show ?thesis
    using assms by (simp add: c list_slice_def)
qed

lemma edit_inside_edits:
  assumes "inv b" and "s \<le> i" and "i \<le> j" and "j \<le> s + n" and "s + n \<le> length (content b)"
  shows "list_slice s (s + (n + length xs - (j - i))) (content (edit i j xs b))
      = list_splice (i - s) (j - s) xs (list_slice s (s + n) (content b))"
proof -
  have c: "content (edit i j xs b) = take i (content b) @ xs @ drop j (content b)"
    using assms edit_content by (simp add: list_splice_def)
  have left: "drop s (take i (content b)) = take (i - s) (take n (drop s (content b)))"
    using assms by (simp add: drop_take min_absorb1)
  have right: "take (n - (j - s)) (drop j (content b)) = drop (j - s) (take n (drop s (content b)))"
    using assms by (simp add: drop_take)
  have "n + length xs - (j - i) = (i - s) + (length xs + (n - (j - s)))"
    using assms by simp
  then show ?thesis
    using assms left right by (simp add: c list_slice_def list_splice_def)
qed

end

definition edited :: "nat \<Rightarrow> nat \<Rightarrow> byte list \<Rightarrow> source_buffer \<Rightarrow> source_buffer" where
  "edited i j xs b = (case apply_edit (int i) (int j) xs [] b of
      Inl _ \<Rightarrow> b | Inr (_, _, b') \<Rightarrow> b')"

interpretation sbuf: byte_buffer buf_inv serialize edited
proof unfold_locales
  fix b i j xs
  assume *: "buf_inv b" "i \<le> j" "j \<le> length (serialize b)"
  then have j: "j \<le> buf_length b" by (simp add: length_serialize)
  show "buf_inv (edited i j xs b)"
    by (rule apply_edit_splice [OF *(1,2) j, of xs "[]"]) (simp add: edited_def)
  show "serialize (edited i j xs b) = list_splice i j xs (serialize b)"
    by (rule apply_edit_splice [OF *(1,2) j, of xs "[]"]) (simp add: edited_def)
qed

text \<open>
  C18. The piece table refines a byte string: \<open>apply_edit\<close> succeeds exactly for ranges within
  the buffer, and then the serialized text is the old text with the range replaced, the
  length is the length of the text, the invariant is kept, the original bytes are untouched,
  and every listener is called once, in order, with the range and replacement; otherwise it
  raises and there is no new buffer.
\<close>

theorem apply_edit_refines_splice:
  assumes "buf_inv b"
  shows "case apply_edit s e repl path b of
      Inl err \<Rightarrow> \<not> (0 \<le> s \<and> s \<le> e \<and> e \<le> int (length (serialize b)))
    | Inr (n, calls, b') \<Rightarrow> 0 \<le> s \<and> s \<le> e \<and> e \<le> int (length (serialize b))
        \<and> serialize b' = list_splice (nat s) (nat e) repl (serialize b)
        \<and> buf_inv b' \<and> buf_length b' = length (serialize b')
        \<and> source b' = source b \<and> added b' = added b @ repl
        \<and> byte_range n = (nat s, nat e) \<and> replacement n = repl \<and> n_path n = path
        \<and> calls = map (\<lambda>l. (l, n)) (listeners b) \<and> listeners b' = listeners b"
proof (cases "0 \<le> s \<and> s \<le> e \<and> e \<le> int (buf_length b)")
  case False
  then have "apply_edit s e repl path b = Inl (InvalidEditRange s e (buf_length b))"
    by (simp add: apply_edit_def)
  then show ?thesis using False length_serialize [OF assms] by simp
next
  case True
  then have ij: "nat s \<le> nat e" "nat e \<le> buf_length b" "int (nat s) = s" "int (nat e) = e" by auto
  obtain b' where b': "apply_edit s e repl path b =
      Inr (\<lparr>byte_range = (nat s, nat e), replacement = repl, n_path = path\<rparr>,
        map (\<lambda>l. (l, \<lparr>byte_range = (nat s, nat e), replacement = repl, n_path = path\<rparr>)) (listeners b), b')"
    "source b' = source b" "added b' = added b @ repl" "listeners b' = listeners b" "buf_inv b'"
    "serialize b' = list_splice (nat s) (nat e) repl (serialize b)"
    by (rule apply_edit_splice [OF assms ij(1,2), of repl path, unfolded ij(3,4)])
  then show ?thesis
    using True length_serialize [OF assms] length_serialize [OF b'(5)] by simp
qed

theorem apply_edit_refines_splice_witness:
  "case apply_edit 1 3 [9] [] (new_source_buffer [10, 20, 30, 40]) of
      Inl err \<Rightarrow> False
    | Inr (n, calls, b') \<Rightarrow> serialize b' = [10, 9, 40] \<and> length (pieces b') = 3"
  using apply_edit_refines_splice [OF new_source_buffer_inv [of "[10, 20, 30, 40]"],
      where s = 1 and e = 3 and repl = "[9]" and path = "[]"]
  by (simp add: new_source_buffer_def apply_edit_def Let_def scan_start_def list_splice_def
      serialize_pieces piece_bytes_def list_slice_def)



end
