(* ===== verification/Positions.thy ===== *)
theory Positions
  imports Buffer
begin

text \<open>
  \<open>tree_engine/core/positions.py\<close>: stable positions over the piece table. An edit appends one
  record to a log; a position is brought up to date only when it is resolved, by replaying
  the records it has not seen. Beside it, the per-path byte totals that an edit adjusts along
  one chain of ancestors, and the index that couples the two to the buffer's notifications.
\<close>

section \<open>Fragments\<close>

record stable_position =
  token :: nat
  sp_path :: node_path

datatype fragment_error = InvalidFragmentRange int int nat

text \<open>
  \<open>_slice_buffer\<close>: the loop over the regions, with the running offset; \<open>acc\<close> is the list
  of chunks joined so far.
\<close>

fun slice_regions :: "int \<Rightarrow> int \<Rightarrow> int \<Rightarrow> byte list \<Rightarrow> (bool \<times> byte list) list \<Rightarrow> byte list" where
  "slice_regions s e offset acc [] = acc"
| "slice_regions s e offset acc ((orig, chunk) # rs) =
     (let chunk_start = offset; chunk_end = offset + int (length chunk)
      in if chunk_end \<le> s then slice_regions s e chunk_end acc rs
         else if chunk_start \<ge> e then acc
         else slice_regions s e chunk_end
           (acc @ list_slice (nat (max s chunk_start - chunk_start))
                             (nat (min e chunk_end - chunk_start)) chunk) rs)"

definition slice_buffer :: "source_buffer \<Rightarrow> int \<Rightarrow> int \<Rightarrow> fragment_error + byte list" where
  "slice_buffer b s e =
     (if s < 0 \<or> e < s \<or> e > int (buf_length b) then Inl (InvalidFragmentRange s e (buf_length b))
      else if s = e then Inr []
      else Inr (slice_regions s e 0 [] (iter_regions b)))"

record local_fragment =
  f_start :: int
  f_end :: int
  f_exact :: bool

definition fragment_length :: "local_fragment \<Rightarrow> int" where
  "fragment_length f = f_end f - f_start f"

definition fragment_bytes :: "source_buffer \<Rightarrow> local_fragment \<Rightarrow> fragment_error + byte list" where
  "fragment_bytes b f = slice_buffer b (f_start f) (f_end f)"

section \<open>The lazy offset index\<close>

record edit_record =
  er_start :: int
  er_end :: int
  er_delta :: int

record position_entry =
  pe_position :: stable_position
  pe_start :: int
  pe_length :: int
  pe_exact :: bool
  cached_seq :: nat

type_synonym span = "int \<times> int \<times> bool"

fun apply_edit_to_span :: "span \<Rightarrow> edit_record \<Rightarrow> span" where
  "apply_edit_to_span (start, len, exact) rec =
     (let stop = start + len
      in if er_end rec \<le> start then (start + er_delta rec, len, exact)
         else if er_start rec \<ge> stop then (start, len, exact)
         else if er_start rec \<ge> start \<and> er_end rec \<le> stop then (start, len + er_delta rec, exact)
         else (if er_start rec \<ge> start then er_start rec else start + er_delta rec,
               max (len + er_delta rec) 0, False))"

record offset_index =
  next_token :: nat
  pos_entries :: "(nat, position_entry) pydict"
  edit_log :: "edit_record list"

definition new_offset_index :: offset_index where
  "new_offset_index = \<lparr>next_token = 1, pos_entries = [], edit_log = []\<rparr>"

definition edit_count :: "offset_index \<Rightarrow> nat" where
  "edit_count ix = length (edit_log ix)"

definition position_count :: "offset_index \<Rightarrow> nat" where
  "position_count ix = length (pos_entries ix)"

definition create_position ::
  "int \<Rightarrow> int \<Rightarrow> node_path \<Rightarrow> offset_index \<Rightarrow> stable_position \<times> offset_index" where
  "create_position start len path ix =
     (let position = \<lparr>token = next_token ix, sp_path = path\<rparr>
      in (position,
          ix\<lparr>next_token := next_token ix + 1,
             pos_entries := dict_set (next_token ix)
               \<lparr>pe_position = position, pe_start = start, pe_length = len, pe_exact = True,
                cached_seq = length (edit_log ix)\<rparr> (pos_entries ix)\<rparr>))"

text \<open>\<open>None\<close> is the \<open>KeyError\<close> of an unknown or forgotten position.\<close>

definition entry_of :: "offset_index \<Rightarrow> stable_position \<Rightarrow> position_entry option" where
  "entry_of ix p = dict_get (pos_entries ix) (token p)"

definition is_stale :: "offset_index \<Rightarrow> stable_position \<Rightarrow> bool option" where
  "is_stale ix p = map_option (\<lambda>e. cached_seq e \<noteq> length (edit_log ix)) (entry_of ix p)"

definition record_edit :: "int \<Rightarrow> int \<Rightarrow> int \<Rightarrow> offset_index \<Rightarrow> offset_index" where
  "record_edit s e replacement_length ix =
     ix\<lparr>edit_log := edit_log ix @ [\<lparr>er_start = s, er_end = e, er_delta = replacement_length - (e - s)\<rparr>]\<rparr>"

definition entry_span :: "position_entry \<Rightarrow> span" where
  "entry_span e = (pe_start e, pe_length e, pe_exact e)"

text \<open>\<open>resolve\<close>: replay what is pending, store the result in the entry, return it.\<close>

definition resolve :: "stable_position \<Rightarrow> offset_index \<Rightarrow> (span \<times> offset_index) option" where
  "resolve p ix =
     (case entry_of ix p of
        None \<Rightarrow> None
      | Some e \<Rightarrow>
          (let pending = drop (cached_seq e) (edit_log ix)
           in if pending \<noteq> [] then
                (let (start, len, exact) = foldl apply_edit_to_span (entry_span e) pending;
                     e' = e\<lparr>pe_start := start, pe_length := len, pe_exact := exact,
                            cached_seq := length (edit_log ix)\<rparr>
                 in Some (entry_span e', ix\<lparr>pos_entries := dict_set (token p) e' (pos_entries ix)\<rparr>))
              else Some (entry_span e, ix)))"

definition forget :: "stable_position \<Rightarrow> offset_index \<Rightarrow> offset_index" where
  "forget p ix = ix\<lparr>pos_entries := dict_del (token p) (pos_entries ix)\<rparr>"

text \<open>\<open>full_resync\<close> resolves every entry, clears the log and resets every sequence number.\<close>

fun resolve_all :: "position_entry list \<Rightarrow> offset_index \<Rightarrow> offset_index option" where
  "resolve_all [] ix = Some ix"
| "resolve_all (e # es) ix =
     (case resolve (pe_position e) ix of None \<Rightarrow> None | Some (_, ix') \<Rightarrow> resolve_all es ix')"

definition full_resync :: "offset_index \<Rightarrow> (nat \<times> offset_index) option" where
  "full_resync ix =
     map_option (\<lambda>ix'.
       (length (edit_log ix'),
        ix'\<lparr>edit_log := [],
            pos_entries := map (\<lambda>(t, e). (t, e\<lparr>cached_seq := 0\<rparr>)) (pos_entries ix')\<rparr>))
     (resolve_all (map snd (pos_entries ix)) ix)"

section \<open>Byte totals per path\<close>

type_synonym bytes_aggregate = "(node_path, int) pydict"

definition agg_initialize :: "node_path \<Rightarrow> int \<Rightarrow> bytes_aggregate \<Rightarrow> bytes_aggregate" where
  "agg_initialize path n totals = dict_set path n totals"

definition agg_get :: "bytes_aggregate \<Rightarrow> node_path \<Rightarrow> int option" where
  "agg_get totals path = dict_get totals path"

definition agg_invalidate :: "node_path \<Rightarrow> bytes_aggregate \<Rightarrow> bytes_aggregate" where
  "agg_invalidate path totals = dict_del path totals"

text \<open>\<open>apply_delta\<close> visits the prefixes from the path itself down to the empty root path.\<close>

fun apply_delta_loop ::
  "nat list \<Rightarrow> node_path \<Rightarrow> int \<Rightarrow> node_path list \<Rightarrow> bytes_aggregate \<Rightarrow>
   node_path list \<times> bytes_aggregate" where
  "apply_delta_loop [] path delta touched totals = (touched, totals)"
| "apply_delta_loop (i # is) path delta touched totals =
     (let prefix = take i path
      in (case dict_get totals prefix of
            None \<Rightarrow> apply_delta_loop is path delta touched totals
          | Some current \<Rightarrow>
              apply_delta_loop is path delta (touched @ [prefix])
                (dict_set prefix (current + delta) totals)))"

definition apply_delta ::
  "node_path \<Rightarrow> int \<Rightarrow> bytes_aggregate \<Rightarrow> node_path list \<times> bytes_aggregate" where
  "apply_delta path delta totals =
     (if delta = 0 then ([], totals)
      else apply_delta_loop (rev [0..<Suc (length path)]) path delta [] totals)"

section \<open>The position index\<close>

datatype full_reindex_reason =
    INITIAL_LOAD | EXPLICIT_FULL_CHECK | EXTERNAL_MODIFICATION_RECOVERY | BATCH_CONTROL_CHECK

record position_index =
  offsets :: offset_index
  subtree_bytes :: bytes_aggregate

definition new_position_index :: position_index where
  "new_position_index = \<lparr>offsets = new_offset_index, subtree_bytes = []\<rparr>"

definition on_edit_applied ::
  "nat \<times> nat \<Rightarrow> byte list \<Rightarrow> node_path \<Rightarrow> position_index \<Rightarrow> position_index" where
  "on_edit_applied edit_range replacement_fragment path pix =
     (let (s, e) = edit_range;
          delta = int (length replacement_fragment) - (int e - int s)
      in pix\<lparr>offsets := record_edit (int s) (int e) (int (length replacement_fragment)) (offsets pix),
             subtree_bytes := snd (apply_delta path delta (subtree_bytes pix))\<rparr>)"

definition on_buffer_edit :: "edit_notification \<Rightarrow> position_index \<Rightarrow> position_index" where
  "on_buffer_edit n pix = on_edit_applied (byte_range n) (replacement n) (n_path n) pix"

definition resolve_fragment ::
  "stable_position \<Rightarrow> position_index \<Rightarrow> (local_fragment \<times> position_index) option" where
  "resolve_fragment p pix =
     map_option (\<lambda>((start, len, exact), ix).
       (\<lparr>f_start = start, f_end = start + len, f_exact = exact\<rparr>, pix\<lparr>offsets := ix\<rparr>))
     (resolve p (offsets pix))"

definition full_reindex :: "full_reindex_reason \<Rightarrow> position_index \<Rightarrow> position_index option" where
  "full_reindex reason pix =
     map_option (\<lambda>(_, ix). pix\<lparr>offsets := ix\<rparr>) (full_resync (offsets pix))"

text \<open>
  The buffer with its listeners: an edit delivers its calls, in order, to the position
  indexes registered under the listeners' identities.
\<close>

definition deliver ::
  "(listener \<times> edit_notification) list \<Rightarrow> (listener \<Rightarrow> position_index) \<Rightarrow> listener \<Rightarrow> position_index" where
  "deliver calls ixs = fold (\<lambda>(l, n) f. f(l := on_buffer_edit n (f l))) calls ixs"

section \<open>Slicing the buffer\<close>

lemma slice_regions_bytes:
  "s < e \<Longrightarrow> slice_regions s e offset acc rs =
     acc @ take (nat (e - max s offset)) (drop (nat (s - offset)) (concat (map snd rs)))"
proof (induction rs arbitrary: offset acc)
  case Nil
  then show ?case by simp
next
  case (Cons r rs)
  obtain orig c where r: "r = (orig, c)" by (cases r)
  let ?n = "int (length c)" and ?rest = "concat (map snd rs)"
  consider (before) "offset + ?n \<le> s" | (after) "s < offset + ?n" "e \<le> offset"
    | (overlap) "s < offset + ?n" "offset < e" by linarith
  then show ?case
  proof cases
    case before
    have "nat (s - (offset + ?n)) = nat (s - offset) - length c"
      and "length c \<le> nat (s - offset)" using before by arith+
    then have "drop (nat (s - offset)) (c @ ?rest) = drop (nat (s - (offset + ?n))) ?rest"
      by simp
    moreover have "max s offset = s" and "max s (offset + ?n) = s" using before by linarith+
    ultimately show ?thesis using before Cons by (simp add: r Let_def)
  next
    case after
    then show ?thesis using Cons.prems by (simp add: r Let_def)
  next
    case overlap
    define d where "d = nat (s - offset)"
    define k where "k = nat (e - max s offset)"
    have d: "d < length c \<or> d = 0 \<and> c = []"
    proof (cases "c = []")
      case True
      then show ?thesis using overlap by (simp add: d_def)
    next
      case False
      then have "0 < length c" by simp
      then show ?thesis using overlap unfolding d_def by arith
    qed
    have cut: "nat (max s offset - offset) = d" by (simp add: d_def max_def)
    have here: "list_slice d (nat (min e (offset + ?n) - offset)) c = take k (drop d c)"
      by (cases "e \<le> offset + ?n")
        (use overlap Cons.prems in \<open>auto simp: list_slice_def d_def k_def max_def min_def
          intro!: arg_cong [where f = "\<lambda>m. take m _"]\<close>)
    have there: "nat (e - max s (offset + ?n)) = k - (length c - d)"
      using overlap by (auto simp: d_def k_def max_def)
    have "take k (drop d (c @ ?rest)) = take k (drop d c) @ take (k - (length c - d)) ?rest"
      using d by auto
    moreover have "nat (s - (offset + ?n)) = 0" using overlap by simp
    ultimately show ?thesis
      using overlap Cons here there cut
      by (simp add: r Let_def d_def [symmetric] k_def [symmetric])
  qed
qed

lemma slice_buffer_serialize:
  assumes "buf_inv b" and "i \<le> j" and "j \<le> length (serialize b)"
  shows "slice_buffer b (int i) (int j) = Inr (list_slice i j (serialize b))"
proof -
  have "nat (int j - int i) = j - i" by simp
  then show ?thesis
    using assms length_serialize [OF assms(1)] slice_regions_bytes [of "int i" "int j" 0 "[]"]
    by (auto simp: slice_buffer_def serialize_def list_slice_def)
qed

section \<open>Lazy resolution is eager replay\<close>

definition index_inv :: "offset_index \<Rightarrow> bool" where
  "index_inv ix \<longleftrightarrow> dict_wf (pos_entries ix)
     \<and> list_all (\<lambda>(t, e). token (pe_position e) = t \<and> t < next_token ix
          \<and> cached_seq e \<le> length (edit_log ix)) (pos_entries ix)"

text \<open>What a position resolves to, were it brought up to date now.\<close>

definition current_span :: "offset_index \<Rightarrow> nat \<Rightarrow> span option" where
  "current_span ix t = map_option (\<lambda>e. foldl apply_edit_to_span (entry_span e)
     (drop (cached_seq e) (edit_log ix))) (dict_get (pos_entries ix) t)"

lemma index_invD:
  assumes "index_inv ix" and "dict_get (pos_entries ix) t = Some e"
  shows "token (pe_position e) = t" and "t < next_token ix" and "cached_seq e \<le> length (edit_log ix)"
  using assms map_of_SomeD [OF assms(2)] by (auto simp: index_inv_def list_all_iff)

lemma index_inv_wf: "index_inv ix \<Longrightarrow> dict_wf (pos_entries ix)"
  by (simp add: index_inv_def)

lemma index_invI:
  assumes "dict_wf (pos_entries ix)"
    and "\<And>t e. dict_get (pos_entries ix) t = Some e \<Longrightarrow>
      token (pe_position e) = t \<and> t < next_token ix \<and> cached_seq e \<le> length (edit_log ix)"
  shows "index_inv ix"
  using assms by (auto simp: index_inv_def list_all_iff dict_mem_get)

lemma resolve_result:
  assumes "index_inv ix" and "current_span ix (token p) = Some sp"
  obtains ix' where "resolve p ix = Some (sp, ix')" and "index_inv ix'"
    and "next_token ix' = next_token ix" and "edit_log ix' = edit_log ix"
    and "dict_keys (pos_entries ix') = dict_keys (pos_entries ix)"
    and "\<And>t. current_span ix' t = current_span ix t"
    and "\<And>e. dict_get (pos_entries ix') (token p) = Some e \<Longrightarrow> entry_span e = sp
           \<and> cached_seq e = length (edit_log ix)"
    and "\<And>t e. t \<noteq> token p \<Longrightarrow> dict_get (pos_entries ix') t = dict_get (pos_entries ix) t"
proof -
  obtain e where e: "dict_get (pos_entries ix) (token p) = Some e"
    and sp: "sp = foldl apply_edit_to_span (entry_span e) (drop (cached_seq e) (edit_log ix))"
    using assms(2) by (auto simp: current_span_def)
  note eD = index_invD [OF assms(1) e]
  show ?thesis
  proof (cases "cached_seq e = length (edit_log ix)")
    case True
    then show ?thesis
      by (intro that [of ix]) (use assms(1) e sp in \<open>simp_all add: resolve_def entry_of_def\<close>)
  next
    case False
    obtain s l x where slx: "sp = (s, l, x)" by (cases sp)
    let ?e = "e\<lparr>pe_start := s, pe_length := l, pe_exact := x, cached_seq := length (edit_log ix)\<rparr>"
    let ?ix = "ix\<lparr>pos_entries := dict_set (token p) ?e (pos_entries ix)\<rparr>"
    have res: "resolve p ix = Some (sp, ?ix)"
      using False eD(3) e sp [unfolded slx, symmetric] slx
      by (simp add: resolve_def entry_of_def Let_def entry_span_def)
    have inv: "index_inv ?ix"
      using assms(1) eD index_invD [OF assms(1)]
      by (intro index_invI) (auto simp: dict_simps index_inv_def split: if_splits)
    have cur: "current_span ?ix t = current_span ix t" for t
      using e sp slx by (simp add: current_span_def dict_simps entry_span_def)
    have keys: "dict_keys (pos_entries ?ix) = dict_keys (pos_entries ix)"
      using e by (auto simp: update_keys dest: map_of_SomeD intro: rev_image_eqI)
    show ?thesis
      by (rule that [OF res inv _ _ keys cur])
        (use slx in \<open>auto simp: dict_simps entry_span_def\<close>)
  qed
qed

lemma resolve_unknown: "current_span ix (token p) = None \<Longrightarrow> resolve p ix = None"
  by (simp add: current_span_def resolve_def entry_of_def)

text \<open>An entry is fresh when no recorded edit is pending for it.\<close>

definition entry_fresh :: "offset_index \<Rightarrow> nat \<Rightarrow> bool" where
  "entry_fresh ix t \<longleftrightarrow> (\<forall>e. dict_get (pos_entries ix) t = Some e \<longrightarrow> cached_seq e = length (edit_log ix))"

lemma resolve_all_result:
  assumes "index_inv ix" and "\<forall>e \<in> set es. current_span ix (token (pe_position e)) \<noteq> None"
  shows "\<exists>ix'. resolve_all es ix = Some ix' \<and> index_inv ix' \<and> next_token ix' = next_token ix
     \<and> edit_log ix' = edit_log ix \<and> (\<forall>t. current_span ix' t = current_span ix t)
     \<and> (\<forall>t. entry_fresh ix t \<longrightarrow> entry_fresh ix' t)
     \<and> (\<forall>e \<in> set es. entry_fresh ix' (token (pe_position e)))"
  using assms
proof (induction es arbitrary: ix)
  case (Cons e es)
  let ?p = "pe_position e"
  obtain sp where sp: "current_span ix (token ?p) = Some sp" using Cons.prems by auto
  obtain ix1 where ix1: "resolve ?p ix = Some (sp, ix1)" "index_inv ix1"
    "next_token ix1 = next_token ix" "edit_log ix1 = edit_log ix"
    "\<And>t. current_span ix1 t = current_span ix t"
    "\<And>e. dict_get (pos_entries ix1) (token ?p) = Some e \<Longrightarrow> cached_seq e = length (edit_log ix)"
    "\<And>t. t \<noteq> token ?p \<Longrightarrow> dict_get (pos_entries ix1) t = dict_get (pos_entries ix) t"
    using resolve_result [OF Cons.prems(1) sp] by metis
  have here: "entry_fresh ix1 (token ?p)"
    unfolding entry_fresh_def ix1(4) using ix1(6) by blast
  have fresh: "entry_fresh ix1 t" if "entry_fresh ix t" for t
  proof (cases "t = token ?p")
    case False
    then show ?thesis using that unfolding entry_fresh_def ix1(4) ix1(7) [OF False] by blast
  qed (simp add: here)
  obtain ix' where "resolve_all es ix1 = Some ix'" "index_inv ix'" "next_token ix' = next_token ix1"
    "edit_log ix' = edit_log ix1" "\<forall>t. current_span ix' t = current_span ix1 t"
    "\<forall>t. entry_fresh ix1 t \<longrightarrow> entry_fresh ix' t" "\<forall>e \<in> set es. entry_fresh ix' (token (pe_position e))"
    using Cons.IH [OF ix1(2)] Cons.prems(2) ix1(5) by auto
  moreover from this have "resolve_all (e # es) ix = Some ix'" using ix1(1) by simp
  moreover have "\<forall>t. entry_fresh ix t \<longrightarrow> entry_fresh ix' t" "entry_fresh ix' (token ?p)"
    using calculation(6) fresh here by blast+
  ultimately show ?case using ix1(3-5) by (intro exI [of _ ix']) simp
qed simp

lemma full_resync_result:
  assumes "index_inv ix"
  obtains ix' where "full_resync ix = Some (length (edit_log ix), ix')" and "index_inv ix'"
    and "next_token ix' = next_token ix" and "edit_log ix' = []"
    and "\<And>t. current_span ix' t = current_span ix t"
proof -
  let ?reset = "\<lambda>d. map (\<lambda>(t, e). (t, e\<lparr>cached_seq := 0\<rparr>)) d"
  have known: "current_span ix (token (pe_position e)) \<noteq> None" if mem: "e \<in> set (map snd (pos_entries ix))" for e
  proof -
    obtain t where "(t, e) \<in> set (pos_entries ix)"
      using mem by auto
    then have "dict_get (pos_entries ix) t = Some e" using assms by (simp add: index_inv_def dict_mem_get)
    then show ?thesis using index_invD(1) [OF assms] by (simp add: current_span_def)
  qed
  obtain ix1 where ix1: "resolve_all (map snd (pos_entries ix)) ix = Some ix1" "index_inv ix1"
    "next_token ix1 = next_token ix" "edit_log ix1 = edit_log ix"
    "\<And>t. current_span ix1 t = current_span ix t"
    "\<And>e. e \<in> set (map snd (pos_entries ix)) \<Longrightarrow> entry_fresh ix1 (token (pe_position e))"
    using resolve_all_result [OF assms, of "map snd (pos_entries ix)"] known by blast
  define ix' where "ix' = ix1\<lparr>edit_log := [], pos_entries := ?reset (pos_entries ix1)\<rparr>"
  have get: "dict_get (?reset d) t = map_option (\<lambda>e. e\<lparr>cached_seq := 0\<rparr>) (dict_get d t)" for d t
    by (induction d) auto
  have "entry_fresh ix1 t" for t
  proof (cases "dict_get (pos_entries ix) t")
    case None
    then have "current_span ix1 t = None" using ix1(5) by (simp add: current_span_def)
    then show ?thesis by (simp add: current_span_def entry_fresh_def)
  next
    case (Some e)
    then have "e \<in> set (map snd (pos_entries ix))" by (auto dest!: map_of_SomeD intro: rev_image_eqI)
    then show ?thesis using ix1(6) index_invD(1) [OF assms Some] by metis
  qed
  then have "current_span ix' t = current_span ix t" for t
    unfolding ix1(5) [symmetric]
    by (cases "dict_get (pos_entries ix1) t")
      (simp_all add: ix'_def get current_span_def entry_fresh_def entry_span_def)
  moreover have "dict_wf (?reset (pos_entries ix1))"
    using ix1(2) by (simp add: index_inv_def dict_wf_def comp_def case_prod_unfold)
  then have "index_inv ix'"
    using index_invD [OF ix1(2)] by (intro index_invI) (auto simp: ix'_def get)
  ultimately show ?thesis
    using that [of ix'] ix1(1,3,4) by (simp add: full_resync_def ix'_def)
qed

section \<open>Lazy resolution against eager renumbering\<close>

text \<open>The operations on an index, and the same operations on a table renumbered at every edit.\<close>

datatype index_op =
    OpCreate int int node_path | OpEdit int int int | OpResolve stable_position
  | OpForget stable_position | OpResync

fun index_step :: "index_op \<Rightarrow> offset_index \<Rightarrow> offset_index" where
  "index_step (OpCreate s n path) ix = snd (create_position s n path ix)"
| "index_step (OpEdit s e n) ix = record_edit s e n ix"
| "index_step (OpResolve p) ix = (case resolve p ix of None \<Rightarrow> ix | Some (_, ix') \<Rightarrow> ix')"
| "index_step (OpForget p) ix = forget p ix"
| "index_step OpResync ix = (case full_resync ix of None \<Rightarrow> ix | Some (_, ix') \<Rightarrow> ix')"

type_synonym eager_table = "nat \<times> (nat \<Rightarrow> span option)"

fun eager_step :: "index_op \<Rightarrow> eager_table \<Rightarrow> eager_table" where
  "eager_step (OpCreate s n path) (k, m) = (k + 1, m(k \<mapsto> (s, n, True)))"
| "eager_step (OpEdit s e n) (k, m) =
     (k, \<lambda>t. map_option (\<lambda>sp. apply_edit_to_span sp \<lparr>er_start = s, er_end = e, er_delta = n - (e - s)\<rparr>) (m t))"
| "eager_step (OpResolve p) (k, m) = (k, m)"
| "eager_step (OpForget p) (k, m) = (k, m(token p := None))"
| "eager_step OpResync (k, m) = (k, m)"

definition eager_view :: "offset_index \<Rightarrow> eager_table" where
  "eager_view ix = (next_token ix, current_span ix)"

lemma index_inv_new: "index_inv new_offset_index"
  by (simp add: index_inv_def new_offset_index_def)

lemma create_step:
  assumes "index_inv ix"
  shows "index_inv (index_step (OpCreate s n path) ix)"
    and "eager_view (index_step (OpCreate s n path) ix) = eager_step (OpCreate s n path) (eager_view ix)"
proof -
  note known = index_inv_wf [OF assms] index_invD [OF assms]
  show "index_inv (index_step (OpCreate s n path) ix)"
    by (rule index_invI) (use known in \<open>auto simp: create_position_def Let_def dict_simps less_SucI split: if_splits\<close>)
  show "eager_view (index_step (OpCreate s n path) ix) = eager_step (OpCreate s n path) (eager_view ix)"
    by (auto simp: create_position_def Let_def eager_view_def current_span_def dict_simps entry_span_def)
qed

lemma edit_step:
  assumes "index_inv ix"
  shows "index_inv (index_step (OpEdit s e n) ix)"
    and "eager_view (index_step (OpEdit s e n) ix) = eager_step (OpEdit s e n) (eager_view ix)"
proof -
  note known = index_inv_wf [OF assms] index_invD [OF assms]
  show "index_inv (index_step (OpEdit s e n) ix)"
    by (rule index_invI) (use known in \<open>auto simp: record_edit_def le_SucI\<close>)
  show "eager_view (index_step (OpEdit s e n) ix) = eager_step (OpEdit s e n) (eager_view ix)"
    using known(4)
    by (auto simp: record_edit_def eager_view_def current_span_def fun_eq_iff option.map_comp comp_def
        intro!: option.map_cong)
qed

lemma forget_step:
  assumes "index_inv ix"
  shows "index_inv (index_step (OpForget p) ix)"
    and "eager_view (index_step (OpForget p) ix) = eager_step (OpForget p) (eager_view ix)"
proof -
  note known = index_inv_wf [OF assms] index_invD [OF assms]
  show "index_inv (index_step (OpForget p) ix)"
    by (rule index_invI) (use known in \<open>auto simp: forget_def dict_simps split: if_splits\<close>)
  show "eager_view (index_step (OpForget p) ix) = eager_step (OpForget p) (eager_view ix)"
    by (auto simp: forget_def eager_view_def current_span_def dict_simps)
qed

lemma index_step_refines:
  assumes "index_inv ix"
  shows "index_inv (index_step f ix) \<and> eager_view (index_step f ix) = eager_step f (eager_view ix)"
proof (cases f)
  case (OpResolve p)
  show ?thesis
  proof (cases "current_span ix (token p)")
    case None
    then show ?thesis using assms OpResolve by (simp add: resolve_unknown eager_view_def)
  next
    case (Some sp)
    show ?thesis
      by (rule resolve_result [OF assms Some])
        (use OpResolve in \<open>simp add: eager_view_def fun_eq_iff\<close>)
  qed
next
  case OpResync
  show ?thesis
    by (rule full_resync_result [OF assms]) (use OpResync in \<open>simp add: eager_view_def fun_eq_iff\<close>)
qed (use create_step [OF assms] edit_step [OF assms] forget_step [OF assms] in auto)

lemma index_run_refines:
  "index_inv ix \<Longrightarrow> index_inv (fold index_step fs ix)
     \<and> eager_view (fold index_step fs ix) = fold eager_step fs (eager_view ix)"
  by (induction fs arbitrary: ix) (simp_all add: index_step_refines)

text \<open>
  C31. Lazy resolution is eager renumbering: after any run of the index's operations from the
  empty index, resolving a position gives exactly the span it would have if every recorded
  edit had renumbered every registered position at once, and raises \<open>KeyError\<close> exactly for
  the positions that were never created or were forgotten.
\<close>

theorem lazy_index_is_eager_table:
  "map_option fst (resolve p (fold index_step fs new_offset_index))
     = snd (fold eager_step fs (1, Map.empty)) (token p)"
proof -
  let ?ix = "fold index_step fs new_offset_index"
  have "eager_view new_offset_index = (1, Map.empty)"
    by (simp add: eager_view_def new_offset_index_def current_span_def fun_eq_iff)
  then have inv: "index_inv ?ix" and view: "current_span ?ix = snd (fold eager_step fs (1, Map.empty))"
    using index_run_refines [OF index_inv_new, of fs] by (simp_all add: eager_view_def prod_eq_iff)
  show ?thesis
  proof (cases "current_span ?ix (token p)")
    case None
    then show ?thesis unfolding view [symmetric] by (simp add: resolve_unknown)
  next
    case (Some sp)
    show ?thesis
      unfolding view [symmetric] by (rule resolve_result [OF inv Some]) (use Some in simp)
  qed
qed

section \<open>Positions and the text\<close>

text \<open>
  The text a position stands for, edited along with the buffer: an edit inside the span
  edits it, an edit outside leaves it.
\<close>

fun track :: "nat \<times> nat \<times> byte list \<Rightarrow> span \<times> byte list \<Rightarrow> span \<times> byte list" where
  "track (i, j, xs) ((s, n, x), t) =
     (apply_edit_to_span (s, n, x)
        \<lparr>er_start = int i, er_end = int j, er_delta = int (length xs) - (int j - int i)\<rparr>,
      if int j \<le> s \<or> s + n \<le> int i then t else list_splice (i - nat s) (j - nat s) xs t)"

definition span_shows :: "span \<Rightarrow> byte list \<Rightarrow> source_buffer \<Rightarrow> bool" where
  "span_shows sp t b = (case sp of (s, n, _) \<Rightarrow>
     0 \<le> s \<and> 0 \<le> n \<and> s + n \<le> int (length (serialize b))
     \<and> list_slice (nat s) (nat s + nat n) (serialize b) = t)"

lemma track_step:
  assumes "buf_inv b" and "i \<le> j" and "j \<le> length (serialize b)" and "span_shows sp t b"
    and "track (i, j, xs) (sp, t) = ((s', n', True), t')"
  shows "span_shows (s', n', True) t' (edited i j xs b) \<and> snd (snd sp)"
proof -
  obtain s n x where sp: "sp = (int s, int n, x)" and st: "s + n \<le> length (serialize b)"
    "list_slice s (s + n) (serialize b) = t"
  proof -
    obtain s n x where 1: "sp = (s, n, x)" by (cases sp)
    show thesis
      by (rule that [of "nat s" "nat n" x]) (use assms(4) 1 in \<open>auto simp: span_shows_def\<close>)
  qed
  have len: "length (serialize (edited i j xs b)) = length (serialize b) - (j - i) + length xs"
    using assms(1-3) by (simp add: sbuf.edit_content length_list_splice)
  consider (shift) "j \<le> s" | (later) "s < j" "s + n \<le> i" | (inside) "s < j" "i < s + n" "s \<le> i" "j \<le> s + n"
    | (partly) "s < j" "i < s + n" "\<not> (s \<le> i \<and> j \<le> s + n)" by linarith
  then show ?thesis
  proof cases
    case shift
    have "nat (int s + (int (length xs) - (int j - int i))) = s + length xs + i - j"
      and "s + length xs + i + n - j = s + length xs + i - j + n"
      using shift assms(2) by linarith+
    then show ?thesis
      using shift sp st assms len sbuf.edit_before_shifts [OF assms(1,2) shift st(1), of xs]
      by (auto simp: span_shows_def Let_def nat_add_distrib)
  next
    case later
    then show ?thesis
      using sp st assms len sbuf.edit_after_keeps [OF assms(1,2) later(2) assms(3), of xs]
      by (auto simp: span_shows_def Let_def)
  next
    case inside
    have "nat (int n + (int (length xs) - (int j - int i))) = n + length xs + i - j"
      and "s + (n + length xs + i) - j = s + (n + length xs + i - j)"
      using inside assms(2) by linarith+
    then show ?thesis
      using inside sp st assms len sbuf.edit_inside_edits [OF assms(1) inside(3) assms(2) inside(4) st(1), of xs]
      by (auto simp: span_shows_def Let_def)
  next
    case partly
    then show ?thesis using assms(5) sp by (auto simp: Let_def split: if_splits)
  qed
qed

lemma track_inexact: "fst (fold track es ((s, n, False), t)) = (s', n', x) \<Longrightarrow> x = False"
proof (induction es arbitrary: s n t)
  case (Cons e es)
  obtain i j xs where e: "e = (i, j, xs)" by (cases e)
  have "snd (snd (fst (track e ((s, n, False), t)))) = False"
    by (simp add: e Let_def)
  then obtain s1 n1 t1 where "track e ((s, n, False), t) = ((s1, n1, False), t1)"
    by (metis prod.collapse)
  then show ?case using Cons by simp
qed simp

lemma track_run:
  assumes "buf_inv b" and "sbuf.edits_fit es (serialize b)" and "span_shows sp t b"
    and "fold track es (sp, t) = ((s', n', True), t')"
  shows "span_shows (s', n', True) t' (sbuf.edit_all es b)"
  using assms
proof (induction es arbitrary: b sp t)
  case (Cons e es)
  obtain i j xs where e: "e = (i, j, xs)" by (cases e)
  have ij: "i \<le> j" "j \<le> length (serialize b)" using Cons.prems(2) by (simp_all add: e)
  obtain s1 n1 x1 t1 where step: "track e (sp, t) = ((s1, n1, x1), t1)"
    by (cases "track e (sp, t)") auto
  have x1: "x1"
    using Cons.prems(4) track_inexact [of es s1 n1 t1 s' n' True] step by (cases x1) auto
  have "span_shows (s1, n1, True) t1 (edited i j xs b)"
    using track_step [OF Cons.prems(1) ij Cons.prems(3)] step x1 by (simp add: e)
  moreover have "sbuf.edits_fit es (serialize (edited i j xs b))"
    using Cons.prems(1,2) ij by (simp add: e sbuf.edit_content)
  ultimately show ?case
    using Cons.IH [OF sbuf.edit_inv [OF Cons.prems(1) ij, of xs], of "(s1, n1, True)" t1]
      Cons.prems(4) step x1 by (simp add: e)
qed simp

text \<open>The index sees the same edits as the buffer.\<close>

definition log_edits :: "(nat \<times> nat \<times> byte list) list \<Rightarrow> offset_index \<Rightarrow> offset_index" where
  "log_edits es = fold (\<lambda>(i, j, xs). record_edit (int i) (int j) (int (length xs))) es"

lemma log_edits_inv: "index_inv ix \<Longrightarrow> index_inv (log_edits es ix)"
  unfolding log_edits_def
  by (induction es arbitrary: ix) (use edit_step(1) in auto)

lemma log_edits_span:
  assumes "index_inv ix" and "current_span ix t = Some sp"
  shows "current_span (log_edits es ix) t = Some (fst (fold track es (sp, u)))"
  using assms
proof (induction es arbitrary: ix sp u)
  case (Cons e es)
  obtain i j xs where e: "e = (i, j, xs)" by (cases e)
  obtain s n x where sp: "sp = (s, n, x)" by (cases sp)
  let ?ix = "record_edit (int i) (int j) (int (length xs)) ix"
  obtain sp1 t1 where step: "track e (sp, u) = (sp1, t1)" by (cases "track e (sp, u)")
  have "current_span ?ix t = Some sp1"
    using edit_step(2) [OF Cons.prems(1), of "int i" "int j" "int (length xs)"] Cons.prems(2) step
    by (simp add: eager_view_def e sp fun_eq_iff del: apply_edit_to_span.simps)
  moreover have "index_inv ?ix" using edit_step(1) [OF Cons.prems(1)] by simp
  ultimately have "current_span (log_edits es ?ix) t = Some (fst (fold track es (sp1, t1)))"
    using Cons.IH by blast
  then show ?case by (simp add: log_edits_def e step [unfolded e])
qed (simp add: log_edits_def)

text \<open>
  C22. An exact fragment shows its own text: for a position anchored on a range of the buffer,
  whatever edits the buffer and the index then see, if the position still resolves as exact,
  reading the resolved range yields precisely the anchored text with the edits that fell
  inside it applied and the others ignored.
\<close>

theorem exact_position_shows_its_text:
  assumes "buf_inv b" and "index_inv ix" and "s + n \<le> length (serialize b)"
    and "sbuf.edits_fit es (serialize b)"
    and "create_position (int s) (int n) path ix = (p, ix1)"
    and "resolve p (log_edits es ix1) = Some ((s', n', True), ix2)"
  shows "slice_buffer (sbuf.edit_all es b) s' (s' + n')
      = Inr (snd (fold track es ((int s, int n, True), list_slice s (s + n) (serialize b))))"
proof -
  let ?t = "list_slice s (s + n) (serialize b)"
  have ix1: "index_inv ix1" using create_step(1) [OF assms(2), of "int s" "int n" path] assms(5) by simp
  have cur: "current_span ix1 (token p) = Some (int s, int n, True)"
    using assms(5) by (auto simp: create_position_def Let_def current_span_def dict_simps entry_span_def)
  note now = log_edits_span [OF ix1 cur, of es ?t]
  have run: "fst (fold track es ((int s, int n, True), ?t)) = (s', n', True)"
    by (rule resolve_result [OF log_edits_inv [OF ix1, of es] now]) (use assms(6) in simp)
  have "span_shows (int s, int n, True) ?t b" using assms(3) by (simp add: span_shows_def)
  then have view: "span_shows (s', n', True) (snd (fold track es ((int s, int n, True), ?t))) (sbuf.edit_all es b)"
    using track_run [OF assms(1,4)] run by (metis prod.collapse)
  have inv: "buf_inv (sbuf.edit_all es b)" using sbuf.edit_all_content [OF assms(1,4)] by simp
  show ?thesis
    using slice_buffer_serialize [OF inv, of "nat s'" "nat (s' + n')"] view
    by (auto simp: span_shows_def nat_add_distrib)
qed

section \<open>Byte totals along one chain of ancestors\<close>

lemma prefixes_takes: "prefixes xs = map (\<lambda>i. take i xs) [0..<Suc (length xs)]"
  by (induction xs rule: rev_induct) auto

lemma apply_delta_loop_spec:
  assumes "distinct is" and "\<forall>i \<in> set is. i \<le> length path"
  shows "fst (apply_delta_loop is path d touched totals)
      = touched @ filter (\<lambda>q. dict_has totals q) (map (\<lambda>i. take i path) is)"
    and "dict_get (snd (apply_delta_loop is path d touched totals)) q
      = (if q \<in> (\<lambda>i. take i path) ` set is then map_option (\<lambda>n. n + d) (dict_get totals q)
         else dict_get totals q)"
proof -
  have "fst (apply_delta_loop is path d touched totals)
      = touched @ filter (\<lambda>q. dict_has totals q) (map (\<lambda>i. take i path) is)
    \<and> (\<forall>q. dict_get (snd (apply_delta_loop is path d touched totals)) q
      = (if q \<in> (\<lambda>i. take i path) ` set is then map_option (\<lambda>n. n + d) (dict_get totals q)
         else dict_get totals q))"
    using assms
  proof (induction "is" arbitrary: touched totals)
    case (Cons i js)
    have other: "take i path \<notin> (\<lambda>i. take i path) ` set js"
    proof
      assume "take i path \<in> (\<lambda>i. take i path) ` set js"
      then obtain k where "k \<in> set js" "take i path = take k path" by auto
      moreover from this have "i = k" using Cons.prems(2) by (metis length_take list.set_intros min.absorb2)
      ultimately show False using Cons.prems(1) by simp
    qed
    have image: "\<And>k. k \<in> set js \<Longrightarrow> take k path \<noteq> take i path" using other by (metis image_eqI)
    have keep: "filter (\<lambda>q. dict_has (dict_set (take i path) v totals) q) (map (\<lambda>i. take i path) js)
        = filter (\<lambda>q. dict_has totals q) (map (\<lambda>i. take i path) js)" for v
      using image by (intro filter_cong) (auto simp: dict_simps)
    show ?case
    proof (cases "dict_get totals (take i path)")
      case None
      then show ?thesis using Cons.IH Cons.prems by (auto simp: Let_def)
    next
      case (Some c)
      then show ?thesis using Cons.IH Cons.prems other keep by (auto simp: Let_def dict_simps)
    qed
  qed simp
  then show "fst (apply_delta_loop is path d touched totals)
      = touched @ filter (\<lambda>q. dict_has totals q) (map (\<lambda>i. take i path) is)"
    and "dict_get (snd (apply_delta_loop is path d touched totals)) q
      = (if q \<in> (\<lambda>i. take i path) ` set is then map_option (\<lambda>n. n + d) (dict_get totals q)
         else dict_get totals q)" by simp_all
qed

text \<open>
  \<open>apply_delta\<close> adjusts one chain of ancestors: exactly the known totals of the path's
  prefixes, the root included, grow by the change; an unknown total stays unknown and no
  other path is touched; and the prefixes it reports are those adjusted, longest first.
\<close>

theorem apply_delta_adjusts_ancestors:
  "(\<forall>q. dict_get (snd (apply_delta path d totals)) q
      = (if prefix q path then map_option (\<lambda>n. n + d) (dict_get totals q) else dict_get totals q))
   \<and> fst (apply_delta path d totals)
      = (if d = 0 then [] else filter (\<lambda>q. dict_has totals q) (rev (prefixes path)))"
proof (cases "d = 0")
  case False
  have "rev (prefixes path) = map (\<lambda>i. take i path) (rev [0..<Suc (length path)])"
    by (simp only: prefixes_takes rev_map)
  moreover have "q \<in> (\<lambda>i. take i path) ` set (rev [0..<Suc (length path)]) \<longleftrightarrow> prefix q path" for q
    by (auto simp: take_is_prefix less_Suc_eq_le elim!: prefixE intro!: rev_image_eqI [of "length q"])
  ultimately show ?thesis
    using False apply_delta_loop_spec [of "rev [0..<Suc (length path)]" path d "[]" totals]
    by (simp add: apply_delta_def del: upt_Suc)
qed (simp add: apply_delta_def option.map_ident)

theorem exact_position_shows_its_text_witness:
  "slice_buffer (sbuf.edit_all [(0, 1, [7, 7]), (3, 4, [])] (new_source_buffer [10, 20, 30, 40])) 2 4
     = Inr [20, 40]"
proof -
  let ?es = "[(0, 1, [7, 7]), (3, 4, [])]"
  let ?p = "\<lparr>token = 1, sp_path = []\<rparr>"
  let ?ix1 = "snd (create_position (int 1) (int 3) [] new_offset_index)"
  obtain ix2 where "resolve ?p (log_edits ?es ?ix1) = Some ((2, 2, True), ix2)"
    by (simp add: create_position_def new_offset_index_def log_edits_def record_edit_def resolve_def
        entry_of_def entry_span_def Let_def)
  moreover have "create_position (int 1) (int 3) [] new_offset_index = (?p, ?ix1)"
    by (simp add: create_position_def new_offset_index_def Let_def)
  moreover have "serialize (new_source_buffer [10, 20, 30, 40]) = [10, 20, 30, 40]"
    by (simp add: new_source_buffer_def serialize_pieces piece_bytes_def list_slice_def)
  moreover have "sbuf.edits_fit ?es [10, 20, 30, 40]"
    by (simp add: list_splice_def)
  ultimately show ?thesis
    using exact_position_shows_its_text [OF new_source_buffer_inv index_inv_new,
        of 1 3 "[10, 20, 30, 40]" ?es "[]" ?p ?ix1 2 2 ix2]
    by (simp add: list_slice_def list_splice_def)
qed

end
