(* ===== verification/Locking.thy ===== *)
theory Locking
  imports Prelude
begin

text \<open>
  \<open>tree_engine/core/locking.py\<close>: the coordinator that serializes the operations on a document
  and orders the locks of transactions over several documents. Every block under the private
  guard and every call on a document lock is one atomic step of one thread; the steps of the
  threads interleave freely. A thread may open a session inside the \<open>with\<close> block of another.
\<close>

section \<open>The coordinator\<close>

type_synonym tid = nat

text \<open>A registered lock is \<open>Some locked\<close>; \<open>None\<close> is a document whose lock was never created.\<close>

record coordinator =
  doc_locks :: "uuid \<Rightarrow> bool option"
  held :: "uuid set"
  lock_owner :: "uuid \<Rightarrow> tid option"

definition new_coordinator :: coordinator where
  "new_coordinator = \<lparr>doc_locks = Map.empty, held = {}, lock_owner = Map.empty\<rparr>"

definition lock_for :: "uuid \<Rightarrow> coordinator \<Rightarrow> coordinator" where
  "lock_for d c =
     (case doc_locks c d of None \<Rightarrow> c\<lparr>doc_locks := (doc_locks c)(d \<mapsto> False)\<rparr> | Some _ \<Rightarrow> c)"

definition is_locked :: "coordinator \<Rightarrow> uuid \<Rightarrow> bool" where
  "is_locked c d \<longleftrightarrow> d \<in> held c"

text \<open>\<open>lock.acquire()\<close>: \<open>None\<close> while the lock is taken, that is, the thread blocks.\<close>

definition lock_acquire :: "uuid \<Rightarrow> coordinator \<Rightarrow> coordinator option" where
  "lock_acquire d c =
     (if doc_locks c d = Some False then Some (c\<lparr>doc_locks := (doc_locks c)(d \<mapsto> True)\<rparr>) else None)"

definition mark_held :: "tid \<Rightarrow> uuid \<Rightarrow> coordinator \<Rightarrow> coordinator" where
  "mark_held t d c = c\<lparr>held := insert d (held c), lock_owner := (lock_owner c)(d \<mapsto> t)\<rparr>"

definition clear_held :: "uuid \<Rightarrow> coordinator \<Rightarrow> coordinator" where
  "clear_held d c = c\<lparr>held := held c - {d}, lock_owner := (lock_owner c)(d := None)\<rparr>"

definition lock_release :: "uuid \<Rightarrow> coordinator \<Rightarrow> coordinator" where
  "lock_release d c =
     (if doc_locks c d = Some True then c\<lparr>doc_locks := (doc_locks c)(d \<mapsto> False)\<rparr> else c)"

section \<open>Sessions\<close>

text \<open>
  Where a session of \<open>acquire_locks\<close> stands: at the head of its loop, past the owner check,
  blocking on a lock, holding it but not yet marked, in the caller's \<open>with\<close> block, at the head
  of the loop of \<open>release_locks\<close>, or between the guarded block and \<open>lock.release()\<close> there.
\<close>

datatype session_pc =
    Acquiring "uuid list" | Looking uuid "uuid list" | Blocking uuid "uuid list"
  | Marking uuid "uuid list" | InBody | Releasing "uuid list" | Unlocking uuid "uuid list"

record session =
  s_ordered :: "uuid list"
  s_acquired :: "uuid list"
  s_pc :: session_pc
  s_raised :: bool

definition lock_order :: "uuid list \<Rightarrow> uuid list" where
  "lock_order ids = sort (remdups ids)"

definition open_session :: "uuid list \<Rightarrow> session" where
  "open_session ids = \<lparr>s_ordered = lock_order ids, s_acquired = [],
     s_pc = Acquiring (lock_order ids), s_raised = False\<rparr>"

text \<open>
  The next step of a session of thread \<open>t\<close>: \<open>None\<close> when it blocks or waits for the caller's
  block to end, and no session left when it returns. \<open>s_raised\<close> records \<open>LockOrderError\<close>.
\<close>

definition session_go :: "tid \<Rightarrow> session \<Rightarrow> coordinator \<Rightarrow> (session option \<times> coordinator) option" where
  "session_go t s c =
     (case s_pc s of
        Acquiring [] \<Rightarrow> Some (Some (s\<lparr>s_pc := InBody\<rparr>), c)
      | Acquiring (d # ds) \<Rightarrow>
          if lock_owner c d = Some t
          then Some (Some (s\<lparr>s_pc := Releasing (s_acquired s), s_raised := True\<rparr>), c)
          else Some (Some (s\<lparr>s_pc := Looking d ds\<rparr>), c)
      | Looking d ds \<Rightarrow> Some (Some (s\<lparr>s_pc := Blocking d ds\<rparr>), lock_for d c)
      | Blocking d ds \<Rightarrow> map_option (\<lambda>c'. (Some (s\<lparr>s_pc := Marking d ds\<rparr>), c')) (lock_acquire d c)
      | Marking d ds \<Rightarrow>
          Some (Some (s\<lparr>s_pc := Acquiring ds, s_acquired := s_acquired s @ [d]\<rparr>), mark_held t d c)
      | InBody \<Rightarrow> None
      | Releasing [] \<Rightarrow> Some (None, c)
      | Releasing (d # ds) \<Rightarrow>
          if d \<notin> held c then Some (Some (s\<lparr>s_pc := Releasing ds\<rparr>), c)
          else Some (Some (s\<lparr>s_pc := Unlocking d ds\<rparr>), clear_held d c)
      | Unlocking d ds \<Rightarrow> Some (Some (s\<lparr>s_pc := Releasing ds\<rparr>), lock_release d c))"

text \<open>The caller's block ends, normally or by an exception: the \<open>finally\<close> clause runs.\<close>

definition session_exit :: "session \<Rightarrow> session option" where
  "session_exit s =
     (if s_pc s = InBody then Some (s\<lparr>s_pc := Releasing (s_acquired s)\<rparr>) else None)"

section \<open>Interleaved threads\<close>

text \<open>The sessions of a thread, the innermost first.\<close>

record world =
  coord :: coordinator
  sessions :: "tid \<Rightarrow> session list"

definition new_world :: world where
  "new_world = \<lparr>coord = new_coordinator, sessions = \<lambda>_. []\<rparr>"

datatype lock_action = Enter "uuid list" | Go | Exit

definition thread_step :: "tid \<Rightarrow> lock_action \<Rightarrow> world \<Rightarrow> world option" where
  "thread_step t a w =
     (case (a, sessions w t) of
        (Enter ids, []) \<Rightarrow> Some (w\<lparr>sessions := (sessions w)(t := [open_session ids])\<rparr>)
      | (Enter ids, s # rest) \<Rightarrow>
          if s_pc s = InBody
          then Some (w\<lparr>sessions := (sessions w)(t := open_session ids # s # rest)\<rparr>) else None
      | (Go, s # rest) \<Rightarrow>
          map_option (\<lambda>(s', c). \<lparr>coord = c, sessions =
              (sessions w)(t := (case s' of None \<Rightarrow> rest | Some s'' \<Rightarrow> s'' # rest))\<rparr>)
            (session_go t s (coord w))
      | (Exit, s # rest) \<Rightarrow>
          map_option (\<lambda>s'. w\<lparr>sessions := (sessions w)(t := s' # rest)\<rparr>) (session_exit s)
      | _ \<Rightarrow> None)"

inductive lock_reach :: "world \<Rightarrow> bool" where
  start: "lock_reach new_world"
| step: "lock_reach w \<Longrightarrow> thread_step t a w = Some w' \<Longrightarrow> lock_reach w'"

fun lock_run :: "(tid \<times> lock_action) list \<Rightarrow> world \<Rightarrow> world option" where
  "lock_run [] w = Some w"
| "lock_run ((t, a) # acts) w =
     (case thread_step t a w of None \<Rightarrow> None | Some w' \<Rightarrow> lock_run acts w')"

section \<open>What a thread holds\<close>

fun has_at :: "session_pc \<Rightarrow> uuid list \<Rightarrow> uuid list" where
  "has_at (Marking d _) acquired = acquired @ [d]"
| "has_at (Releasing ds) acquired = ds"
| "has_at (Unlocking d ds) acquired = d # ds"
| "has_at _ acquired = acquired"

fun marked_at :: "session_pc \<Rightarrow> uuid list \<Rightarrow> uuid list" where
  "marked_at (Releasing ds) acquired = ds"
| "marked_at (Unlocking d ds) acquired = ds"
| "marked_at _ acquired = acquired"

definition sess_has :: "session \<Rightarrow> uuid list" where
  "sess_has s = has_at (s_pc s) (s_acquired s)"

definition sess_marked :: "session \<Rightarrow> uuid list" where
  "sess_marked s = marked_at (s_pc s) (s_acquired s)"

definition thread_has :: "world \<Rightarrow> tid \<Rightarrow> uuid list" where
  "thread_has w t = concat (map sess_has (sessions w t))"

definition thread_marked :: "world \<Rightarrow> tid \<Rightarrow> uuid list" where
  "thread_marked w t = concat (map sess_marked (sessions w t))"

definition blocked_on :: "world \<Rightarrow> tid \<Rightarrow> uuid \<Rightarrow> bool" where
  "blocked_on w t d \<longleftrightarrow> (\<exists>s ds rest. sessions w t = s # rest \<and> s_pc s = Blocking d ds)
     \<and> doc_locks (coord w) d \<noteq> Some False"

definition waits_for :: "world \<Rightarrow> (tid \<times> tid) set" where
  "waits_for w = {(t, u). \<exists>d. blocked_on w t d \<and> d \<in> set (thread_has w u)}"

text \<open>The local shape of a session: ascending order, and what is acquired is a prefix of it.\<close>

definition sess_wf :: "session \<Rightarrow> bool" where
  "sess_wf s \<longleftrightarrow> sorted_wrt (<) (s_ordered s) \<and>
     (case s_pc s of
        Acquiring ds \<Rightarrow> s_acquired s @ ds = s_ordered s \<and> \<not> s_raised s
      | Looking d ds \<Rightarrow> s_acquired s @ d # ds = s_ordered s \<and> \<not> s_raised s
      | Blocking d ds \<Rightarrow> s_acquired s @ d # ds = s_ordered s \<and> \<not> s_raised s
      | Marking d ds \<Rightarrow> s_acquired s @ d # ds = s_ordered s \<and> \<not> s_raised s
      | InBody \<Rightarrow> s_acquired s = s_ordered s \<and> \<not> s_raised s
      | Releasing ds \<Rightarrow> set ds \<subseteq> set (s_ordered s)
      | Unlocking d ds \<Rightarrow> set (d # ds) \<subseteq> set (s_ordered s))"

definition thread_ok :: "world \<Rightarrow> tid \<Rightarrow> bool" where
  "thread_ok w t \<longleftrightarrow> distinct (thread_has w t) \<and> list_all sess_wf (sessions w t)
     \<and> list_all (\<lambda>s. s_pc s = InBody) (tl (sessions w t))
     \<and> (case sessions w t of [] \<Rightarrow> True | s # rest \<Rightarrow>
          (case s_pc s of
             Looking d _ \<Rightarrow> lock_owner (coord w) d \<noteq> Some t
           | Blocking d _ \<Rightarrow> lock_owner (coord w) d \<noteq> Some t \<and> doc_locks (coord w) d \<noteq> None
           | _ \<Rightarrow> True)
        \<and> (s_raised s \<longrightarrow> set (s_ordered s) \<inter> set (concat (map sess_marked rest)) \<noteq> {}))"

definition lock_inv :: "world \<Rightarrow> bool" where
  "lock_inv w \<longleftrightarrow> (\<forall>t. thread_ok w t)
     \<and> (\<forall>t u. t \<noteq> u \<longrightarrow> set (thread_has w t) \<inter> set (thread_has w u) = {})
     \<and> (\<forall>d. doc_locks (coord w) d = Some True \<longleftrightarrow> (\<exists>t. d \<in> set (thread_has w t)))
     \<and> (\<forall>d t. lock_owner (coord w) d = Some t \<longleftrightarrow> d \<in> set (thread_marked w t))
     \<and> held (coord w) = dom (lock_owner (coord w))"

lemma lock_invD:
  assumes "lock_inv w"
  shows "thread_ok w t" and "t \<noteq> u \<Longrightarrow> d \<in> set (thread_has w t) \<Longrightarrow> d \<notin> set (thread_has w u)"
    and "doc_locks (coord w) d = Some True \<longleftrightarrow> (\<exists>t. d \<in> set (thread_has w t))"
    and "lock_owner (coord w) d = Some t \<longleftrightarrow> d \<in> set (thread_marked w t)"
    and "held (coord w) = dom (lock_owner (coord w))"
  using assms by (auto simp: lock_inv_def disjoint_iff)

lemma marked_has: "set (sess_marked s) \<subseteq> set (sess_has s)"
  by (cases "s_pc s") (auto simp: sess_marked_def sess_has_def)

lemma thread_marked_has: "lock_inv w \<Longrightarrow> d \<in> set (thread_marked w t) \<Longrightarrow> d \<in> set (thread_has w t)"
  using marked_has lock_invD(1) [of w t]
  by (fastforce simp: thread_has_def thread_marked_def)

text \<open>A step of one thread keeps the invariant when it keeps its part of it.\<close>

lemma lock_inv_step:
  assumes "lock_inv w" and w': "w' = \<lparr>coord = c, sessions = (sessions w)(t := L)\<rparr>"
    and ok: "thread_ok w' t"
    and apart: "\<And>u d. u \<noteq> t \<Longrightarrow> d \<in> set (thread_has w u) \<Longrightarrow> d \<notin> set (thread_has w' t)"
    and locked: "\<And>d. doc_locks c d = Some True \<longleftrightarrow>
      d \<in> set (thread_has w' t) \<or> (\<exists>u. u \<noteq> t \<and> d \<in> set (thread_has w u))"
    and owner: "\<And>d. lock_owner c d = Some t \<longleftrightarrow> d \<in> set (thread_marked w' t)"
    and others: "\<And>d u. u \<noteq> t \<Longrightarrow> lock_owner c d = Some u \<longleftrightarrow> lock_owner (coord w) d = Some u"
    and held: "held c = dom (lock_owner c)"
    and mono: "\<And>d. doc_locks (coord w) d \<noteq> None \<Longrightarrow> doc_locks c d \<noteq> None"
  shows "lock_inv w'"
proof -
  have same: "thread_has w' u = thread_has w u" "thread_marked w' u = thread_marked w u"
    "sessions w' u = sessions w u" if "u \<noteq> t" for u
    using that by (simp_all add: w' thread_has_def thread_marked_def)
  have "thread_ok w' u" for u
  proof (cases "u = t")
    case False
    then have "thread_ok w u" using lock_invD(1) [OF assms(1)] by blast
    then show ?thesis
      using same [OF False] others [OF False] mono
      by (auto simp: thread_ok_def w' split: list.splits session_pc.splits)
  qed (simp add: ok)
  moreover have "set (thread_has w' u) \<inter> set (thread_has w' v) = {}" if "u \<noteq> v" for u v
  proof (cases "u = t \<or> v = t")
    case True
    then show ?thesis using that apart same(1) by (metis disjoint_iff)
  next
    case False
    then show ?thesis using that lock_invD(2) [OF assms(1)] same(1) by (metis disjoint_iff)
  qed
  moreover have "doc_locks c d = Some True \<longleftrightarrow> (\<exists>u. d \<in> set (thread_has w' u))" for d
    unfolding locked using same(1) by metis
  moreover have "lock_owner c d = Some u \<longleftrightarrow> d \<in> set (thread_marked w' u)" for d u
    using owner others same(2) lock_invD(4) [OF assms(1)] by (cases "u = t") simp_all
  ultimately show ?thesis using held by (simp add: lock_inv_def w')
qed

text \<open>A step that changes neither what is held nor the bookkeeping.\<close>

lemma lock_inv_quiet:
  assumes "lock_inv w" and w': "w' = \<lparr>coord = c, sessions = (sessions w)(t := L)\<rparr>"
    and "thread_ok w' t"
    and has: "set (thread_has w' t) = set (thread_has w t)"
    and marked: "set (thread_marked w' t) = set (thread_marked w t)"
    and c: "lock_owner c = lock_owner (coord w)" "held c = held (coord w)"
    and locks: "\<And>d. doc_locks c d = Some True \<longleftrightarrow> doc_locks (coord w) d = Some True"
    and mono: "\<And>d. doc_locks (coord w) d \<noteq> None \<Longrightarrow> doc_locks c d \<noteq> None"
  shows "lock_inv w'"
proof (rule lock_inv_step [OF assms(1) w' assms(3)])
  note inv = lock_invD [OF assms(1)]
  show "doc_locks c d = Some True \<longleftrightarrow>
      d \<in> set (thread_has w' t) \<or> (\<exists>u. u \<noteq> t \<and> d \<in> set (thread_has w u))" for d
    unfolding locks has inv(3) by metis
  show "d \<notin> set (thread_has w' t)" if "u \<noteq> t" "d \<in> set (thread_has w u)" for u d
    unfolding has using that inv(2) by metis
qed (simp_all add: c lock_invD [OF assms(1)] marked mono)

lemma lock_for_simps [simp]:
  "lock_owner (lock_for d c) = lock_owner c" "held (lock_for d c) = held c"
  "doc_locks (lock_for d c) e = Some True \<longleftrightarrow> doc_locks c e = Some True"
  "\<exists>b. doc_locks (lock_for d c) d = Some b" "doc_locks c e \<noteq> None \<Longrightarrow> \<exists>b. doc_locks (lock_for d c) e = Some b"
  by (auto simp: lock_for_def split: option.splits)

lemma lock_order_sorted: "sorted_wrt (<) (lock_order ids)"
  by (simp add: lock_order_def strict_sorted_iff)

lemma lock_order_set [simp]: "set (lock_order ids) = set ids"
  by (simp add: lock_order_def)

lemma rest_in_body:
  assumes "lock_inv w" and "sessions w t = s # rest"
  shows "list_all (\<lambda>s. s_pc s = InBody) rest" and "map sess_marked rest = map sess_has rest"
proof -
  show body: "list_all (\<lambda>s. s_pc s = InBody) rest"
    using lock_invD(1) [OF assms(1), of t] assms(2) by (simp add: thread_ok_def)
  show "map sess_marked rest = map sess_has rest"
    using body by (auto simp: list_all_iff sess_marked_def sess_has_def)
qed

lemma enter_inv:
  assumes "lock_inv w" and "thread_step t (Enter ids) w = Some w'"
  shows "lock_inv w'"
proof -
  let ?L = "open_session ids # sessions w t"
  have body: "list_all (\<lambda>s. s_pc s = InBody) (sessions w t)"
    using assms rest_in_body(1) [OF assms(1)]
    by (auto simp: thread_step_def split: list.splits if_splits)
  have w': "w' = \<lparr>coord = coord w, sessions = (sessions w)(t := ?L)\<rparr>"
    using assms(2) by (auto simp: thread_step_def split: list.splits if_splits)
  have new: "sess_has (open_session ids) = []" "sess_marked (open_session ids) = []"
    by (auto simp: open_session_def sess_has_def sess_marked_def)
  have "thread_ok w' t"
    using lock_invD(1) [OF assms(1), of t] body new lock_order_sorted
    by (auto simp: w' thread_ok_def thread_has_def open_session_def sess_wf_def split: list.splits)
  then show ?thesis
    by (rule lock_inv_quiet [OF assms(1) w']) (simp_all add: w' new thread_has_def thread_marked_def)
qed

lemma exit_inv:
  assumes "lock_inv w" and "thread_step t Exit w = Some w'"
  shows "lock_inv w'"
proof -
  obtain s rest where s: "sessions w t = s # rest" "s_pc s = InBody"
    and w': "w' = \<lparr>coord = coord w, sessions = (sessions w)(t := s\<lparr>s_pc := Releasing (s_acquired s)\<rparr> # rest)\<rparr>"
    using assms(2) by (auto simp: thread_step_def session_exit_def split: list.splits if_splits)
  have same: "sess_has (s\<lparr>s_pc := Releasing (s_acquired s)\<rparr>) = sess_has s"
    "sess_marked (s\<lparr>s_pc := Releasing (s_acquired s)\<rparr>) = sess_marked s"
    using s(2) by (simp_all add: sess_has_def sess_marked_def)
  have "thread_ok w' t"
    using lock_invD(1) [OF assms(1), of t] s same
    by (simp add: w' thread_ok_def thread_has_def sess_wf_def)
  then show ?thesis
    by (rule lock_inv_quiet [OF assms(1) w']) (simp_all add: w' s same thread_has_def thread_marked_def)
qed

lemma go_inv:
  assumes inv: "lock_inv w" and go: "thread_step t Go w = Some w'"
  shows "lock_inv w'"
proof -
  obtain s rest s' c where s: "sessions w t = s # rest" and g: "session_go t s (coord w) = Some (s', c)"
    and w': "w' = \<lparr>coord = c, sessions =
      (sessions w)(t := (case s' of None \<Rightarrow> rest | Some s'' \<Rightarrow> s'' # rest))\<rparr>"
    using go by (auto simp: thread_step_def split: list.splits if_splits)
  note ok = lock_invD(1) [OF inv, of t, unfolded thread_ok_def s, simplified]
  note hs = thread_has_def thread_marked_def sess_has_def sess_marked_def
  note has = lock_invD(3) [OF inv] and own = lock_invD(4) [OF inv] and held = lock_invD(5) [OF inv]
  have rest: "map sess_marked rest = map sess_has rest" by (rule rest_in_body(2) [OF inv s])
  show ?thesis
  proof (cases "s_pc s")
    case (Acquiring ds)
    have "thread_ok w' t"
    proof (cases ds)
      case Nil
      then have c: "s' = Some (s\<lparr>s_pc := InBody\<rparr>)" "c = coord w"
        using g Acquiring by (auto simp: session_go_def)
      show ?thesis
        using Acquiring Nil ok s by (auto simp add: w' c thread_ok_def sess_wf_def thread_has_def sess_has_def)
    next
      case (Cons d es)
      have fresh: "d \<notin> set (s_acquired s)" and mem: "d \<in> set (s_ordered s)"
      proof -
        have "s_ordered s = s_acquired s @ d # es" "sorted_wrt (<) (s_ordered s)"
          using ok Acquiring Cons by (simp_all add: sess_wf_def)
        then show "d \<notin> set (s_acquired s)" "d \<in> set (s_ordered s)" by (auto simp: sorted_wrt_append)
      qed
      show ?thesis
      proof (cases "lock_owner (coord w) d = Some t")
        case True
        then have "d \<in> set (concat (map sess_marked rest))"
          using own [of d t] fresh Acquiring by (auto simp: hs s)
        then have "set (s_ordered s) \<inter> set (concat (map sess_marked rest)) \<noteq> {}"
          using mem by blast
        moreover have "set (s_acquired s) \<subseteq> set (s_ordered s)"
        proof -
          have "s_ordered s = s_acquired s @ ds" using ok Acquiring by (simp add: sess_wf_def)
          then show ?thesis by simp
        qed
        moreover have "s' = Some (s\<lparr>s_pc := Releasing (s_acquired s), s_raised := True\<rparr>)" "c = coord w"
          using g Acquiring Cons True by (auto simp: session_go_def)
        ultimately show ?thesis
          using Acquiring ok s by (simp add: w' thread_ok_def sess_wf_def thread_has_def sess_has_def)
      next
        case False
        then have "s' = Some (s\<lparr>s_pc := Looking d es\<rparr>)" "c = coord w"
          using g Acquiring Cons by (auto simp: session_go_def)
        then show ?thesis
          using False Acquiring Cons ok s by (simp add: w' thread_ok_def sess_wf_def thread_has_def sess_has_def)
      qed
    qed
    then show ?thesis
      by (rule lock_inv_quiet [OF inv w'])
        (use Acquiring g in \<open>cases ds; auto simp: w' s hs session_go_def split: if_splits\<close>)+
  next
    case (Looking d ds)
    then have c: "s' = Some (s\<lparr>s_pc := Blocking d ds\<rparr>)" "c = lock_for d (coord w)"
      using g by (auto simp: session_go_def)
    have "thread_ok w' t"
      using ok Looking s
      by (simp add: w' c thread_ok_def sess_wf_def thread_has_def sess_has_def)
    then show ?thesis
      by (rule lock_inv_quiet [OF inv w'])
        (use Looking in \<open>auto simp: w' c s hs\<close>)
  next
    case (Blocking d ds)
    then have free: "doc_locks (coord w) d = Some False" and c: "s' = Some (s\<lparr>s_pc := Marking d ds\<rparr>)"
      "c = (coord w)\<lparr>doc_locks := (doc_locks (coord w))(d \<mapsto> True)\<rparr>"
      using g by (auto simp: session_go_def lock_acquire_def split: if_splits)
    have new: "d \<notin> set (thread_has w u)" for u
      using has [of d] free by auto
    have th: "set (thread_has w' t) = insert d (set (thread_has w t))"
      "thread_marked w' t = thread_marked w t"
      using Blocking by (auto simp: w' c s hs)
    have "thread_ok w' t"
      using ok Blocking new [of t] s by (simp add: w' c thread_ok_def sess_wf_def thread_has_def sess_has_def)
    then show ?thesis
    proof (rule lock_inv_step [OF inv w'])
      show "e \<notin> set (thread_has w' t)" if "u \<noteq> t" "e \<in> set (thread_has w u)" for u e
        using that new lock_invD(2) [OF inv that] th by auto
      show "doc_locks c e = Some True \<longleftrightarrow>
          e \<in> set (thread_has w' t) \<or> (\<exists>u. u \<noteq> t \<and> e \<in> set (thread_has w u))" for e
        using has [of e] th by (simp add: c; metis)
    qed (auto simp: c own held th)
  next
    case (Marking d ds)
    then have c: "s' = Some (s\<lparr>s_pc := Acquiring ds, s_acquired := s_acquired s @ [d]\<rparr>)"
      "c = mark_held t d (coord w)"
      using g by (auto simp: session_go_def)
    have th: "thread_has w' t = thread_has w t"
      "set (thread_marked w' t) = insert d (set (thread_marked w t))"
      using Marking by (auto simp: w' c s hs)
    have here: "d \<in> set (thread_has w t)" using Marking by (simp add: s hs)
    have "thread_ok w' t"
      using ok Marking s by (simp add: w' c thread_ok_def sess_wf_def thread_has_def sess_has_def mark_held_def)
    then show ?thesis
    proof (rule lock_inv_step [OF inv w'])
      show "e \<notin> set (thread_has w' t)" if "u \<noteq> t" "e \<in> set (thread_has w u)" for u e
        using lock_invD(2) [OF inv that] th by simp
      show "doc_locks c e = Some True \<longleftrightarrow>
          e \<in> set (thread_has w' t) \<or> (\<exists>u. u \<noteq> t \<and> e \<in> set (thread_has w u))" for e
        using has [of e] th by (auto simp: c mark_held_def; metis)
      show "lock_owner c e = Some u \<longleftrightarrow> lock_owner (coord w) e = Some u" if "u \<noteq> t" for e u
        using that here lock_invD(2) [OF inv that] thread_marked_has [OF inv] own
        by (auto simp: c mark_held_def)
    qed (auto simp: c own held th mark_held_def)
  next
    case InBody
    then show ?thesis using g by (simp add: session_go_def)
  next
    case (Releasing ds)
    show ?thesis
    proof (cases ds)
      case Nil
      then have c: "s' = None" "c = coord w" using g Releasing by (simp_all add: session_go_def)
      have "thread_ok w' t"
        using ok Releasing Nil rest_in_body(1) [OF inv s]
        by (cases rest) (auto simp: w' c thread_ok_def sess_wf_def hs s)
      then show ?thesis
        by (rule lock_inv_quiet [OF inv w']) (use Releasing Nil in \<open>simp_all add: w' c s hs\<close>)
    next
      case (Cons d es)
      have mem: "d \<in> set (thread_marked w t)" using Releasing Cons by (simp add: s hs)
      then have "d \<in> held (coord w)" using own [of d t] held by auto
      then have c: "s' = Some (s\<lparr>s_pc := Unlocking d es\<rparr>)" "c = clear_held d (coord w)"
        using g Releasing Cons by (auto simp: session_go_def)
      have th: "thread_has w' t = thread_has w t" using Releasing Cons by (simp add: w' c s hs)
      have dist: "distinct (thread_marked w t)"
        using ok Releasing Cons rest s by (simp add: hs) (metis rest map_map)
      have tm: "set (thread_marked w' t) = set (thread_marked w t) - {d}"
        using Releasing Cons dist by (auto simp: w' c s hs)
      have "thread_ok w' t"
        using ok Releasing Cons s by (simp add: w' c thread_ok_def sess_wf_def thread_has_def sess_has_def clear_held_def)
      then show ?thesis
      proof (rule lock_inv_step [OF inv w'])
        show "e \<notin> set (thread_has w' t)" if "u \<noteq> t" "e \<in> set (thread_has w u)" for u e
          using lock_invD(2) [OF inv that] th by simp
        show "doc_locks c e = Some True \<longleftrightarrow>
            e \<in> set (thread_has w' t) \<or> (\<exists>u. u \<noteq> t \<and> e \<in> set (thread_has w u))" for e
          using has [of e] th by (auto simp: c clear_held_def; metis)
        show "lock_owner c e = Some u \<longleftrightarrow> lock_owner (coord w) e = Some u" if "u \<noteq> t" for e u
          using that own [of d t] mem by (auto simp: c clear_held_def)
      qed (auto simp: c own held tm clear_held_def)
    qed
  next
    case (Unlocking d ds)
    have mem: "d \<in> set (thread_has w t)" using Unlocking by (simp add: s hs)
    then have "doc_locks (coord w) d = Some True" using has by auto
    then have c: "s' = Some (s\<lparr>s_pc := Releasing ds\<rparr>)"
      "c = (coord w)\<lparr>doc_locks := (doc_locks (coord w))(d \<mapsto> False)\<rparr>"
      using g Unlocking by (auto simp: session_go_def lock_release_def)
    have th: "set (thread_has w' t) = set (thread_has w t) - {d}" "thread_marked w' t = thread_marked w t"
      using Unlocking ok s by (auto simp: w' c hs)
    have "thread_ok w' t"
      using ok Unlocking s by (simp add: w' c thread_ok_def sess_wf_def thread_has_def sess_has_def)
    then show ?thesis
    proof (rule lock_inv_step [OF inv w'])
      show "e \<notin> set (thread_has w' t)" if "u \<noteq> t" "e \<in> set (thread_has w u)" for u e
        using lock_invD(2) [OF inv that] th by simp
      show "doc_locks c e = Some True \<longleftrightarrow>
          e \<in> set (thread_has w' t) \<or> (\<exists>u. u \<noteq> t \<and> e \<in> set (thread_has w u))" for e
        using has [of e] th mem lock_invD(2) [OF inv, of _ t d] by (auto simp: c; metis)
    qed (auto simp: c own held th)
  qed
qed

lemma lock_reach_inv: "lock_reach w \<Longrightarrow> lock_inv w"
proof (induction rule: lock_reach.induct)
  case start
  then show ?case
    by (simp add: lock_inv_def new_world_def new_coordinator_def thread_ok_def thread_has_def thread_marked_def)
next
  case (step w t a w')
  then show ?case using enter_inv exit_inv go_inv by (cases a) blast+
qed

lemma lock_run_reach: "lock_reach w \<Longrightarrow> lock_run acts w = Some w' \<Longrightarrow> lock_reach w'"
  by (induction acts w rule: lock_run.induct) (auto split: option.splits intro: lock_reach.step)

section \<open>Exclusion, order, release\<close>

lemma in_body_has:
  assumes "lock_inv w" and "s \<in> set (sessions w t)" and "s_pc s = InBody"
  shows "set (s_ordered s) \<subseteq> set (thread_has w t)" and "set (s_ordered s) \<subseteq> set (thread_marked w t)"
proof -
  have "sess_wf s" using lock_invD(1) [OF assms(1), of t] assms(2) by (auto simp: thread_ok_def list_all_iff)
  then have "s_acquired s = s_ordered s" using assms(3) by (simp add: sess_wf_def)
  then show "set (s_ordered s) \<subseteq> set (thread_has w t)" and "set (s_ordered s) \<subseteq> set (thread_marked w t)"
    using assms(2,3) by (force simp: thread_has_def thread_marked_def sess_has_def sess_marked_def)+
qed

text \<open>
  C24. Mutual exclusion: in every reachable state, whatever the interleaving, two threads that
  are inside their \<open>with\<close> blocks hold no document in common, and every document of such a
  block is reported as locked and owned by the thread of the block.
\<close>

theorem documents_are_exclusive:
  assumes "lock_reach w" and "s \<in> set (sessions w t)" and "s_pc s = InBody"
    and "s' \<in> set (sessions w u)" and "s_pc s' = InBody" and "t \<noteq> u"
  shows "set (s_ordered s) \<inter> set (s_ordered s') = {}
    \<and> (\<forall>d \<in> set (s_ordered s). is_locked (coord w) d \<and> lock_owner (coord w) d = Some t)"
proof -
  have inv: "lock_inv w" using assms(1) by (rule lock_reach_inv)
  have "set (s_ordered s) \<inter> set (s_ordered s') = {}"
    using in_body_has(1) [OF inv assms(2,3)] in_body_has(1) [OF inv assms(4,5)]
      lock_invD(2) [OF inv assms(6)] by blast
  moreover have "lock_owner (coord w) d = Some t" if "d \<in> set (s_ordered s)" for d
    using that in_body_has(2) [OF inv assms(2,3)] lock_invD(4) [OF inv] by blast
  ultimately show ?thesis using lock_invD(5) [OF inv] by (auto simp: is_locked_def)
qed

lemma blocked_ascends:
  assumes "lock_inv w" and "length (sessions w u) \<le> 1" and "d \<in> set (thread_has w u)" and "blocked_on w u e"
  shows "d < e"
proof -
  obtain s ds where s: "sessions w u = [s]" "s_pc s = Blocking e ds"
    using assms(2,4) by (auto simp: blocked_on_def)
  then have "s_ordered s = s_acquired s @ e # ds" "sorted_wrt (<) (s_ordered s)"
    using lock_invD(1) [OF assms(1), of u] by (simp_all add: thread_ok_def sess_wf_def)
  then show ?thesis using assms(3) s by (simp add: thread_has_def sess_has_def sorted_wrt_append)
qed

lemma blocked_waits:
  assumes "lock_inv w" and "blocked_on w t d"
  shows "\<exists>u. d \<in> set (thread_has w u) \<and> (t, u) \<in> waits_for w"
proof -
  obtain s ds rest where "sessions w t = s # rest" "s_pc s = Blocking d ds" "doc_locks (coord w) d \<noteq> Some False"
    using assms(2) by (auto simp: blocked_on_def)
  then have "doc_locks (coord w) d = Some True"
    using lock_invD(1) [OF assms(1), of t] by (auto simp: thread_ok_def)
  then show ?thesis using lock_invD(3) [OF assms(1), of d] assms(2) by (auto simp: waits_for_def)
qed

lemma wait_chain_ascends:
  assumes "lock_inv w" and "\<And>u. length (sessions w u) \<le> 1" and "(t, u) \<in> (waits_for w)\<^sup>+"
  shows "\<exists>d. blocked_on w t d \<and> (\<forall>e. blocked_on w u e \<longrightarrow> d < e)"
  using assms(3)
proof (induction rule: trancl_induct)
  case (base u)
  then show ?case using blocked_ascends [OF assms(1,2)] by (fastforce simp: waits_for_def)
next
  case (step u v)
  then obtain d e where "blocked_on w t d" "d < e" "e \<in> set (thread_has w v)"
    by (auto simp: waits_for_def)
  then show ?case using blocked_ascends [OF assms(1,2)] by (meson order.strict_trans)
qed

lemma unblocked_steps:
  assumes "lock_inv w" and "sessions w t \<noteq> []" and "\<And>d. \<not> blocked_on w t d"
  shows "\<exists>w'. thread_step t Go w = Some w' \<or> thread_step t Exit w = Some w'"
proof -
  obtain s rest where s: "sessions w t = s # rest" using assms(2) by (cases "sessions w t") auto
  show ?thesis
  proof (cases "s_pc s")
    case (Blocking d ds)
    then have "doc_locks (coord w) d = Some False" using assms(3) [of d] s by (auto simp: blocked_on_def)
    then show ?thesis
      using Blocking s by (intro exI disjI1) (simp add: thread_step_def session_go_def lock_acquire_def)
  qed (auto simp: s thread_step_def session_go_def session_exit_def split: list.splits)
qed

text \<open>
  C23. Deadlock freedom: as long as no thread opens a session inside another, whatever lists
  the callers pass, the threads never wait for each other in a circle, and every thread with
  an open session waits, through a finite chain of owners, for one that can take a step.
\<close>

theorem ordered_sessions_never_deadlock:
  assumes "lock_reach w" and "\<And>u. length (sessions w u) \<le> 1"
  shows "acyclic (waits_for w) \<and> (sessions w t \<noteq> [] \<longrightarrow>
    (\<exists>u w'. (t, u) \<in> (waits_for w)\<^sup>* \<and> (thread_step u Go w = Some w' \<or> thread_step u Exit w = Some w')))"
proof (intro conjI impI)
  have inv: "lock_inv w" using assms(1) by (rule lock_reach_inv)
  show "acyclic (waits_for w)"
    using wait_chain_ascends [OF inv assms(2)] by (metis acyclicI order.irrefl)
  have chain: "\<exists>v w'. (u, v) \<in> (waits_for w)\<^sup>* \<and> (thread_step v Go w = Some w' \<or> thread_step v Exit w = Some w')"
    if "sessions w u \<noteq> []" "\<And>d. blocked_on w u d \<Longrightarrow> 2 ^ 128 \<le> n + unat d" for u n
    using that
  proof (induction n arbitrary: u)
    case 0
    have "\<not> blocked_on w u d" for d using 0(2) [of d] unsigned_less [of d, where 'a = nat] by auto
    then show ?case using unblocked_steps [OF inv 0(1)] by blast
  next
    case (Suc n)
    show ?case
    proof (cases "\<exists>d. blocked_on w u d")
      case False
      then show ?thesis using unblocked_steps [OF inv Suc.prems(1)] by blast
    next
      case True
      then obtain d where d: "blocked_on w u d" by blast
      then obtain v where v: "d \<in> set (thread_has w v)" "(u, v) \<in> waits_for w"
        using blocked_waits [OF inv] by blast
      have "sessions w v \<noteq> []" using v(1) by (auto simp: thread_has_def)
      moreover have "2 ^ 128 \<le> n + unat e" if "blocked_on w v e" for e
        using blocked_ascends [OF inv assms(2) v(1) that] Suc.prems(2) [OF d]
        by (simp add: word_less_nat_alt)
      ultimately show ?thesis using Suc.IH [of v] v(2) by (meson converse_rtrancl_into_rtrancl)
    qed
  qed
  show "\<exists>u w'. (t, u) \<in> (waits_for w)\<^sup>* \<and> (thread_step u Go w = Some w' \<or> thread_step u Exit w = Some w')"
    if "sessions w t \<noteq> []"
    using chain [OF that, of "2 ^ 128"] by simp
qed

text \<open>
  C32. Nothing leaks: when every session has returned, through its body or by
  \<open>LockOrderError\<close>, no document is held or owned and every lock that exists is free.
\<close>

theorem finished_sessions_release_all:
  assumes "lock_reach w" and "\<And>t. sessions w t = []"
  shows "held (coord w) = {} \<and> lock_owner (coord w) = Map.empty \<and> doc_locks (coord w) d \<noteq> Some True"
proof -
  have inv: "lock_inv w" using assms(1) by (rule lock_reach_inv)
  have "lock_owner (coord w) d = None" for d
    using lock_invD(4) [OF inv, of d] assms(2) by (auto simp: thread_marked_def)
  then show ?thesis
    using lock_invD(3,5) [OF inv] assms(2) by (auto simp: thread_has_def)
qed

text \<open>
  Re-entry: a session raises \<open>LockOrderError\<close> only when an enclosing session of the same
  thread holds one of its documents, and no thread ever blocks on a document it holds itself.
\<close>

theorem lock_order_error_is_reentry:
  assumes "lock_reach w" and "sessions w t = s # rest"
  shows "(s_raised s \<longrightarrow> (\<exists>s' \<in> set rest. \<exists>d \<in> set (s_ordered s). d \<in> set (s_ordered s') \<and> lock_owner (coord w) d = Some t))
    \<and> (\<forall>d. blocked_on w t d \<longrightarrow> d \<notin> set (thread_has w t))"
proof (intro conjI impI allI)
  have inv: "lock_inv w" using assms(1) by (rule lock_reach_inv)
  note ok = lock_invD(1) [OF inv, of t, unfolded thread_ok_def assms(2), simplified]
  note body = rest_in_body [OF inv assms(2)]
  have marked: "set (sess_marked s') = set (s_ordered s')" if "s' \<in> set rest" for s'
    using that ok body(1) by (auto simp: list_all_iff sess_wf_def sess_marked_def)
  show "\<exists>s' \<in> set rest. \<exists>d \<in> set (s_ordered s). d \<in> set (s_ordered s') \<and> lock_owner (coord w) d = Some t"
    if raised: "s_raised s"
  proof -
    obtain s' d where d: "s' \<in> set rest" "d \<in> set (s_ordered s)" "d \<in> set (sess_marked s')"
      using raised ok by auto
    then have "lock_owner (coord w) d = Some t"
      using lock_invD(4) [OF inv, of d t] assms(2) by (auto simp: thread_marked_def)
    then show ?thesis using d marked by auto
  qed
  show "d \<notin> set (thread_has w t)" if "blocked_on w t d" for d
  proof
    assume "d \<in> set (thread_has w t)"
    moreover have "thread_marked w t = thread_has w t"
    proof -
      have "sess_marked s = sess_has s"
        using that assms(2) by (auto simp: blocked_on_def sess_has_def sess_marked_def)
      then show ?thesis using body(2) assms(2) by (simp add: thread_marked_def thread_has_def cong: map_cong)
    qed
    ultimately have "lock_owner (coord w) d = Some t" using lock_invD(4) [OF inv] by simp
    then show False using that ok assms(2) by (auto simp: blocked_on_def)
  qed
qed

text \<open>
  The order protects single sessions only: two threads that each open a second session
  inside their \<open>with\<close> block, on documents that are disjoint from their first, can reach a
  state in which each waits for the other and neither can take any step.
\<close>

theorem nested_sessions_can_deadlock:
  "\<exists>w. lock_reach w \<and> (0, 1) \<in> waits_for w \<and> (1, 0) \<in> waits_for w
     \<and> (\<forall>a. thread_step 0 a w = None \<and> thread_step 1 a w = None)"
proof -
  let ?into = "\<lambda>t ids. (t, Enter ids) # replicate 5 (t, Go)"
  let ?acts = "?into 0 [2] @ ?into 1 [1] @ [(0, Enter [1]), (0, Go), (0, Go), (1, Enter [2]), (1, Go), (1, Go)]"
  define w :: world where "w = \<lparr>coord = \<lparr>doc_locks = [2 \<mapsto> True, 1 \<mapsto> True], held = {1, 2}, lock_owner = [2 \<mapsto> 0, 1 \<mapsto> 1]\<rparr>,
    sessions = (\<lambda>_. [])
      (0 := [\<lparr>s_ordered = [1], s_acquired = [], s_pc = Blocking 1 [], s_raised = False\<rparr>,
             \<lparr>s_ordered = [2], s_acquired = [2], s_pc = InBody, s_raised = False\<rparr>],
       1 := [\<lparr>s_ordered = [2], s_acquired = [], s_pc = Blocking 2 [], s_raised = False\<rparr>,
             \<lparr>s_ordered = [1], s_acquired = [1], s_pc = InBody, s_raised = False\<rparr>])\<rparr>"
  have "lock_run ?acts new_world = Some w"
    by (simp add: numeral_eq_Suc thread_step_def new_world_def new_coordinator_def open_session_def lock_order_def
        session_go_def lock_for_def lock_acquire_def mark_held_def w_def fun_eq_iff)
  then have "lock_reach w" using lock_run_reach [OF lock_reach.start] by blast
  moreover have "(0, 1) \<in> waits_for w" "(1, 0) \<in> waits_for w"
    by (auto simp: waits_for_def blocked_on_def w_def thread_has_def sess_has_def)
  moreover have "thread_step 0 a w = None \<and> thread_step 1 a w = None" for a
    by (cases a) (simp_all add: w_def thread_step_def session_go_def session_exit_def lock_acquire_def)
  ultimately show ?thesis by blast
qed

section \<open>Example states\<close>

lemmas lock_run_simps = thread_step_def new_world_def new_coordinator_def open_session_def lock_order_def
  session_go_def session_exit_def lock_for_def lock_acquire_def lock_release_def mark_held_def clear_held_def

abbreviation enter_body :: "tid \<Rightarrow> uuid list \<Rightarrow> (tid \<times> lock_action) list" where
  "enter_body t ids \<equiv> (t, Enter ids) # replicate (1 + 4 * length ids) (t, Go)"

definition in_body :: "uuid list \<Rightarrow> session" where
  "in_body ds = \<lparr>s_ordered = ds, s_acquired = ds, s_pc = InBody, s_raised = False\<rparr>"

definition side_by_side :: world where
  "side_by_side = \<lparr>coord = \<lparr>doc_locks = [1 \<mapsto> True, 2 \<mapsto> True], held = {1, 2}, lock_owner = [1 \<mapsto> 0, 2 \<mapsto> 1]\<rparr>,
     sessions = (\<lambda>_. [])(0 := [in_body [1]], 1 := [in_body [2]])\<rparr>"

definition contended :: world where
  "contended = \<lparr>coord = \<lparr>doc_locks = [1 \<mapsto> True], held = {1}, lock_owner = [1 \<mapsto> 0]\<rparr>,
     sessions = (\<lambda>_. [])(0 := [in_body [1]],
       1 := [\<lparr>s_ordered = [1, 2], s_acquired = [], s_pc = Blocking 1 [2], s_raised = False\<rparr>])\<rparr>"

definition reentered :: world where
  "reentered = \<lparr>coord = \<lparr>doc_locks = [1 \<mapsto> True], held = {1}, lock_owner = [1 \<mapsto> 0]\<rparr>,
     sessions = (\<lambda>_. [])(0 := [\<lparr>s_ordered = [1], s_acquired = [], s_pc = Releasing [], s_raised = True\<rparr>,
       in_body [1]])\<rparr>"

lemma word_two: "\<not> (2 :: uuid) \<le> 1"
  by (simp add: word_le_nat_alt)

lemma side_by_side_reach: "lock_reach side_by_side"
  by (rule lock_run_reach [OF lock_reach.start, of "enter_body 0 [1] @ enter_body 1 [2]"])
    (simp add: numeral_eq_Suc lock_run_simps side_by_side_def in_body_def fun_eq_iff insert_commute)

lemma contended_reach: "lock_reach contended"
  by (rule lock_run_reach [OF lock_reach.start, of "enter_body 0 [1] @ [(1, Enter [2, 1]), (1, Go), (1, Go)]"])
    (use word_two in \<open>simp add: numeral_eq_Suc lock_run_simps contended_def in_body_def fun_eq_iff\<close>)

lemma reentered_reach: "lock_reach reentered"
  by (rule lock_run_reach [OF lock_reach.start, of "enter_body 0 [1] @ [(0, Enter [1]), (0, Go)]"])
    (simp add: numeral_eq_Suc lock_run_simps reentered_def in_body_def fun_eq_iff)

theorem documents_are_exclusive_witness:
  "is_locked (coord side_by_side) 1 \<and> lock_owner (coord side_by_side) 1 = Some 0"
  using documents_are_exclusive [OF side_by_side_reach, of "in_body [1]" 0 "in_body [2]" 1]
  by (simp add: side_by_side_def in_body_def)

theorem ordered_sessions_never_deadlock_witness:
  "acyclic (waits_for contended) \<and> (\<exists>u w'. (1, u) \<in> (waits_for contended)\<^sup>*
     \<and> (thread_step u Go contended = Some w' \<or> thread_step u Exit contended = Some w'))"
proof -
  have "length (sessions contended u) \<le> 1" "sessions contended 1 \<noteq> []" for u
    by (simp_all add: contended_def)
  then show ?thesis using ordered_sessions_never_deadlock [OF contended_reach, of 1] by simp
qed

theorem finished_sessions_release_all_witness:
  "\<exists>w. lock_run (enter_body 0 [1] @ (0, Exit) # replicate 3 (0, Go)) new_world = Some w
     \<and> doc_locks (coord w) 1 = Some False \<and> held (coord w) = {}"
proof -
  let ?acts = "enter_body 0 [1] @ (0, Exit) # replicate 3 (0, Go)"
  let ?w = "\<lparr>coord = \<lparr>doc_locks = [1 \<mapsto> False], held = {}, lock_owner = Map.empty\<rparr>, sessions = \<lambda>_. []\<rparr>"
  have run: "lock_run ?acts new_world = Some ?w"
    by (simp add: numeral_eq_Suc lock_run_simps fun_eq_iff)
  then show ?thesis
    using finished_sessions_release_all [OF lock_run_reach [OF lock_reach.start run]] by auto
qed

theorem lock_order_error_is_reentry_witness:
  "\<exists>s' \<in> set [in_body [1]]. \<exists>d \<in> set [1]. d \<in> set (s_ordered s') \<and> lock_owner (coord reentered) d = Some 0"
  using lock_order_error_is_reentry [OF reentered_reach, of 0
      "\<lparr>s_ordered = [1], s_acquired = [], s_pc = Releasing [], s_raised = True\<rparr>" "[in_body [1]]"]
  by (simp add: reentered_def)

end
