(* ===== verification/Python_Std.thy ===== *)
theory Python_Std
  imports Prelude
begin

text \<open>
  The parts of Python's standard library the engine's textual forms use: \<open>str.strip\<close>,
  \<open>str.replace\<close>, \<open>str.split\<close>, \<open>int(text, base)\<close> with its whitespace, sign, prefix and
  underscore rules, hexadecimal and decimal formatting, and \<open>uuid.UUID(text)\<close> with
  \<open>str(uuid)\<close>. Strings are lists of characters of code 0 to 255, one per code point.
\<close>

section \<open>Characters and strings\<close>

definition ccode :: "char \<Rightarrow> nat" where
  "ccode c = of_char c"

definition is_space :: "char \<Rightarrow> bool" where
  "is_space c \<longleftrightarrow> (let n = ccode c in
     9 \<le> n \<and> n \<le> 13 \<or> 28 \<le> n \<and> n \<le> 32 \<or> n = 133 \<or> n = 160)"

definition digit_value :: "char \<Rightarrow> nat option" where
  "digit_value c = (let n = ccode c in
     if 48 \<le> n \<and> n \<le> 57 then Some (n - 48)
     else if 97 \<le> n \<and> n \<le> 102 then Some (n - 87)
     else if 65 \<le> n \<and> n \<le> 70 then Some (n - 55)
     else None)"

definition py_strip :: "(char \<Rightarrow> bool) \<Rightarrow> string \<Rightarrow> string" where
  "py_strip p s = rev (dropWhile p (rev (dropWhile p s)))"

text \<open>\<open>s.replace(old, new)\<close> for a non-empty \<open>old\<close>: leftmost, non-overlapping.\<close>

function py_replace :: "string \<Rightarrow> string \<Rightarrow> string \<Rightarrow> string" where
  "py_replace old new s =
     (if s = [] \<or> old = [] then s
      else if take (length old) s = old then new @ py_replace old new (drop (length old) s)
      else hd s # py_replace old new (tl s))"
  by pat_completeness auto
termination
  by (relation "measure (\<lambda>(old, new, s). length s)") auto

declare py_replace.simps [simp del]

fun split_on :: "char \<Rightarrow> string \<Rightarrow> string list" where
  "split_on c [] = [[]]"
| "split_on c (x # xs) =
     (if x = c then [] # split_on c xs
      else (case split_on c xs of [] \<Rightarrow> [[x]] | y # ys \<Rightarrow> (x # y) # ys))"

lemma py_strip_none: "\<forall>c \<in> set s. \<not> p c \<Longrightarrow> py_strip p s = s"
proof -
  assume *: "\<forall>c \<in> set s. \<not> p c"
  have drop: "dropWhile p t = t" if "\<forall>c \<in> set t. \<not> p c" for t
    using that by (cases t) auto
  show ?thesis using * by (simp add: py_strip_def drop)
qed

lemma py_replace_absent:
  assumes "c \<in> set old" and "c \<notin> set s"
  shows "py_replace old new s = s"
  using assms(2)
proof (induction s)
  case Nil
  then show ?case by (subst py_replace.simps) simp
next
  case (Cons x xs)
  have "take (length old) (x # xs) \<noteq> old"
    using assms(1) Cons.prems by (metis in_set_takeD)
  then show ?case
    using Cons by (subst py_replace.simps) simp
qed

lemma split_on_nonempty [simp]: "split_on c s \<noteq> []"
  by (induction s) (auto split: list.splits)

lemma split_on_absent: "c \<notin> set s \<Longrightarrow> split_on c s = [s]"
  by (induction s) auto

lemma split_on_append:
  "c \<notin> set s \<Longrightarrow> split_on c (s @ c # t) = s # split_on c t"
  by (induction s) (auto split: list.splits)

lemma split_on_parts: "p \<in> set (split_on c s) \<Longrightarrow> c \<notin> set p"
  by (induction s arbitrary: p) (auto split: list.splits if_splits)

lemma filter_id_absent: "c \<notin> set s \<Longrightarrow> filter (\<lambda>x. x \<noteq> c) s = s"
  by (induction s) auto

section \<open>Integers as text\<close>

definition hex_char :: "nat \<Rightarrow> char" where
  "hex_char d = ''0123456789abcdef'' ! d"

fun hex_digits :: "nat \<Rightarrow> string" where
  "hex_digits n = (if n < 16 then [hex_char n] else hex_digits (n div 16) @ [hex_char (n mod 16)])"

fun hex_fixed :: "nat \<Rightarrow> nat \<Rightarrow> string" where
  "hex_fixed 0 n = []"
| "hex_fixed (Suc k) n = hex_fixed k (n div 16) @ [hex_char (n mod 16)]"

fun dec_digits :: "nat \<Rightarrow> string" where
  "dec_digits n = (if n < 10 then [hex_char n] else dec_digits (n div 10) @ [hex_char (n mod 10)])"

declare hex_digits.simps [simp del] dec_digits.simps [simp del]

definition py_str_int :: "int \<Rightarrow> string" where
  "py_str_int i = (if i < 0 then ''-'' @ dec_digits (nat (- i)) else dec_digits (nat i))"

text \<open>
  \<open>int(text, base)\<close>: surrounding whitespace and one sign are accepted, in base 16 a \<open>0x\<close>
  prefix (and one underscore after it), then digits with single underscores between them.
  \<open>None\<close> is \<open>ValueError\<close>.
\<close>

fun int_body :: "nat \<Rightarrow> nat \<Rightarrow> bool \<Rightarrow> string \<Rightarrow> nat option" where
  "int_body b acc prev [] = (if prev then Some acc else None)"
| "int_body b acc prev (c # cs) =
     (if c = CHR ''_'' then (if prev then int_body b acc False cs else None)
      else (case digit_value c of
              None \<Rightarrow> None
            | Some d \<Rightarrow> if d < b then int_body b (acc * b + d) True cs else None))"

definition int_sign :: "string \<Rightarrow> bool \<times> string" where
  "int_sign s = (case s of [] \<Rightarrow> (False, [])
     | c # cs \<Rightarrow> if c = CHR ''-'' then (True, cs)
                 else if c = CHR ''+'' then (False, cs) else (False, s))"

definition int_prefix :: "nat \<Rightarrow> string \<Rightarrow> string" where
  "int_prefix b s = (case s of
       z # x # cs \<Rightarrow>
         if b = 16 \<and> z = CHR ''0'' \<and> (x = CHR ''x'' \<or> x = CHR ''X'')
         then (case cs of c # cs' \<Rightarrow> if c = CHR ''_'' then cs' else cs | [] \<Rightarrow> [])
         else s
     | _ \<Rightarrow> s)"

text \<open>
  A decimal literal longer than the interpreter's limit (4300 digits unless reconfigured,
  which the engine never does) is a \<open>ValueError\<close> too.
\<close>

definition int_max_str_digits :: nat where
  "int_max_str_digits = 4300"

definition int_too_long :: "nat \<Rightarrow> string \<Rightarrow> bool" where
  "int_too_long b s \<longleftrightarrow> b = 10 \<and> int_max_str_digits < length (filter (\<lambda>c. c \<noteq> CHR ''_'') s)"

definition py_int :: "nat \<Rightarrow> string \<Rightarrow> int option" where
  "py_int b s =
     (let (neg, t) = int_sign (py_strip is_space s); digits = int_prefix b t
      in if int_too_long b digits then None
         else map_option (\<lambda>n. if neg then - int n else int n) (int_body b 0 False digits))"

section \<open>UUIDs as text\<close>

text \<open>
  \<open>UUID(text)\<close> drops \<open>urn:\<close> and \<open>uuid:\<close>, strips braces, removes hyphens, and asks for 32
  characters that \<open>int(_, 16)\<close> accepts. \<open>None\<close> is \<open>ValueError\<close>. \<open>str(uuid)\<close> is the
  canonical hyphenated lower-case form.
\<close>

definition uuid_of_string :: "string \<Rightarrow> uuid option" where
  "uuid_of_string s =
     (let h = py_replace ''uuid:'' [] (py_replace ''urn:'' [] s);
          h = filter (\<lambda>c. c \<noteq> CHR ''-'') (py_strip (\<lambda>c. c = CHR ''{'' \<or> c = CHR ''}'') h)
      in if length h \<noteq> 32 then None
         else (case py_int 16 h of
                 None \<Rightarrow> None
               | Some i \<Rightarrow> if 0 \<le> i \<and> i < 2 ^ 128 then Some (word_of_int i) else None))"

definition uuid_str :: "uuid \<Rightarrow> string" where
  "uuid_str u =
     (let h = hex_fixed 32 (unat u)
      in take 8 h @ ''-'' @ take 4 (drop 8 h) @ ''-'' @ take 4 (drop 12 h) @ ''-''
         @ take 4 (drop 16 h) @ ''-'' @ drop 20 h)"

section \<open>Printing and reading back\<close>

definition hex_chars :: "char set" where
  "hex_chars = set ''0123456789abcdef''"

lemma hex_char_in [simp]: "d < 16 \<Longrightarrow> hex_char d \<in> hex_chars"
  by (simp add: hex_char_def hex_chars_def nth_mem del: set_simps list.set)

lemma digit_value_hex_char: "d < 16 \<Longrightarrow> digit_value (hex_char d) = Some d"
proof -
  assume "d < 16"
  moreover have "\<forall>d \<in> set [0..<16]. digit_value (hex_char d) = Some d"
    by code_simp
  ultimately show ?thesis by simp
qed

lemma hex_chars_plain:
  assumes "c \<in> hex_chars"
  shows "\<not> is_space c" and "c \<noteq> CHR ''_''" and "c \<noteq> CHR ''-''" and "c \<noteq> CHR ''+''"
    and "c \<noteq> CHR ''x''" and "c \<noteq> CHR ''X''" and "c \<noteq> CHR ''{''" and "c \<noteq> CHR ''}''"
    and "c \<noteq> CHR '':''" and "c \<noteq> CHR ''u''" and "ccode c < 128"
  using assms by (auto simp: hex_chars_def is_space_def ccode_def)

lemma hex_fixed_chars: "set (hex_fixed k n) \<subseteq> hex_chars"
  by (induction k arbitrary: n) auto

lemma hex_digits_chars: "set (hex_digits n) \<subseteq> hex_chars"
  by (induction n rule: hex_digits.induct) (subst hex_digits.simps, auto)

lemma hex_digits_nonempty [simp]: "hex_digits n \<noteq> []"
  by (subst hex_digits.simps) simp

lemma length_hex_fixed [simp]: "length (hex_fixed k n) = k"
  by (induction k arbitrary: n) auto

lemma int_body_snoc:
  assumes "int_body b acc p s = Some m" and "d < b" and "digit_value c = Some d"
    and "c \<noteq> CHR ''_''"
  shows "int_body b acc p (s @ [c]) = Some (m * b + d)"
  using assms(1)
proof (induction s arbitrary: acc p)
  case Nil
  then show ?case using assms(2-4) by (auto split: if_splits)
next
  case (Cons x xs)
  then show ?case using assms(2-4)
    by (auto split: if_splits option.splits)
qed

lemma int_body_hex_fixed:
  "k > 0 \<Longrightarrow> int_body 16 0 False (hex_fixed k n) = Some (n mod 16 ^ k)"
proof (induction k arbitrary: n)
  case 0
  then show ?case by simp
next
  case (Suc k)
  have plain: "hex_char (n mod 16) \<noteq> CHR ''_''"
    by (rule hex_chars_plain) simp
  have eq: "n mod 16 ^ Suc k = (n div 16 mod 16 ^ k) * 16 + n mod 16"
    by (metis mod_mult2_eq mult.commute power_Suc)
  show ?case
  proof (cases "k = 0")
    case True
    then show ?thesis using plain by (simp add: digit_value_hex_char)
  next
    case False
    then have "hex_fixed k (n div 16) \<noteq> []"
      by (metis length_hex_fixed list.size(3))
    with False Suc.IH [of "n div 16"] plain show ?thesis
      by (simp add: int_body_snoc digit_value_hex_char eq del: power_Suc)
  qed
qed

lemma int_body_hex_digits: "int_body 16 0 False (hex_digits n) = Some n"
proof (induction n rule: hex_digits.induct)
  case (1 n)
  have plain: "hex_char (n mod 16) \<noteq> CHR ''_''"
    by (rule hex_chars_plain) simp
  show ?case
  proof (cases "n < 16")
    case True
    with plain show ?thesis
      by (subst hex_digits.simps) (simp add: digit_value_hex_char)
  next
    case False
    with int_body_snoc [OF 1 [OF False], of "n mod 16" "hex_char (n mod 16)"] plain
    show ?thesis
      by (subst hex_digits.simps) (simp add: digit_value_hex_char)
  qed
qed

lemma int_sign_hex: "s \<noteq> [] \<Longrightarrow> set s \<subseteq> hex_chars \<Longrightarrow> int_sign s = (False, s)"
  using hex_chars_plain by (cases s) (auto simp: int_sign_def)

lemma int_prefix_hex: "set s \<subseteq> hex_chars \<Longrightarrow> int_prefix b s = s"
proof -
  assume "set s \<subseteq> hex_chars"
  moreover have "CHR ''x'' \<notin> hex_chars" and "CHR ''X'' \<notin> hex_chars"
    by (simp_all add: hex_chars_def)
  ultimately show ?thesis
    by (cases s; cases "tl s") (auto simp: int_prefix_def)
qed

lemma strip_hex: "set s \<subseteq> hex_chars \<Longrightarrow> py_strip is_space s = s"
  using hex_chars_plain(1) by (intro py_strip_none) auto

lemma py_int_hex:
  "s \<noteq> [] \<Longrightarrow> set s \<subseteq> hex_chars \<Longrightarrow> py_int 16 s = map_option int (int_body 16 0 False s)"
  by (simp add: py_int_def strip_hex int_sign_hex int_prefix_hex int_too_long_def)

lemma py_int_hex_digits: "py_int 16 (hex_digits n) = Some (int n)"
  by (simp add: py_int_hex hex_digits_chars int_body_hex_digits)

lemma py_int_0x_hex_digits:
  assumes "x = CHR ''x'' \<or> x = CHR ''X''"
  shows "py_int 16 (CHR ''0'' # x # hex_digits n) = Some (int n)"
proof -
  have strip: "py_strip is_space (CHR ''0'' # x # hex_digits n) = CHR ''0'' # x # hex_digits n"
    using assms hex_digits_chars [of n] hex_chars_plain(1)
    by (intro py_strip_none) (auto simp: is_space_def ccode_def)
  have sign: "int_sign (CHR ''0'' # x # hex_digits n) = (False, CHR ''0'' # x # hex_digits n)"
    by (simp add: int_sign_def)
  have "hd (hex_digits n) \<noteq> CHR ''_''"
    using hex_digits_chars [of n] hex_chars_plain(2) by (simp add: subset_iff)
  then have "int_prefix 16 (CHR ''0'' # x # hex_digits n) = hex_digits n"
    using assms by (cases "hex_digits n") (auto simp: int_prefix_def)
  then show ?thesis
    by (simp add: py_int_def strip sign int_body_hex_digits int_too_long_def)
qed

text \<open>Decimal text, within the interpreter's limit.\<close>

definition decimal_bound :: nat where
  "decimal_bound = 10 ^ int_max_str_digits"

lemma dec_digits_chars: "set (dec_digits n) \<subseteq> hex_chars"
  by (induction n rule: dec_digits.induct) (subst dec_digits.simps, auto)

lemma dec_digits_nonempty [simp]: "dec_digits n \<noteq> []"
  by (subst dec_digits.simps) simp

lemma int_body_dec_digits: "int_body 10 0 False (dec_digits n) = Some n"
proof (induction n rule: dec_digits.induct)
  case (1 n)
  have plain: "hex_char (n mod 10) \<noteq> CHR ''_''"
    by (rule hex_chars_plain) simp
  show ?case
  proof (cases "n < 10")
    case True
    with plain show ?thesis
      by (subst dec_digits.simps) (simp add: digit_value_hex_char)
  next
    case False
    with int_body_snoc [OF 1 [OF False], of "n mod 10" "hex_char (n mod 10)"] plain
    show ?thesis
      by (subst dec_digits.simps) (simp add: digit_value_hex_char)
  qed
qed

lemma length_dec_digits: "n < 10 ^ Suc k \<Longrightarrow> length (dec_digits n) \<le> Suc k"
proof (induction k arbitrary: n)
  case 0
  then show ?case by (subst dec_digits.simps) simp
next
  case (Suc k)
  have "n div 10 < 10 ^ Suc k" if "\<not> n < 10"
    using Suc.prems by (simp add: less_mult_imp_div_less mult.commute)
  with Suc.IH [of "n div 10"] show ?case by (subst dec_digits.simps) auto
qed

lemma py_int_dec_digits: "n < decimal_bound \<Longrightarrow> py_int 10 (dec_digits n) = Some (int n)"
proof -
  assume "n < decimal_bound"
  moreover have "int_max_str_digits = Suc (int_max_str_digits - 1)"
    by (simp add: int_max_str_digits_def)
  ultimately have "length (dec_digits n) \<le> int_max_str_digits"
    using length_dec_digits [of n "int_max_str_digits - 1"] by (simp add: decimal_bound_def)
  then have short: "length (filter (\<lambda>c. c \<noteq> CHR ''_'') (dec_digits n)) \<le> int_max_str_digits"
    using length_filter_le order_trans by blast
  show ?thesis
    using short
    by (simp add: py_int_def strip_hex int_sign_hex int_prefix_hex dec_digits_chars
        int_body_dec_digits int_too_long_def)
qed

lemma py_int_str_int:
  "0 \<le> i \<Longrightarrow> nat i < decimal_bound \<Longrightarrow> py_int 10 (py_str_int i) = Some i"
  by (simp add: py_str_int_def py_int_dec_digits)

lemma uuid_str_chars: "c \<in> set (uuid_str u) \<Longrightarrow> c \<in> hex_chars \<or> c = CHR ''-''"
  using hex_fixed_chars [of 32 "unat u"]
  by (auto simp: uuid_str_def Let_def dest!: in_set_takeD in_set_dropD)

lemma uuid_str_no_colon [simp]: "CHR '':'' \<notin> set (uuid_str u)"
  using uuid_str_chars hex_chars_plain(9) by fastforce

lemma uuid_str_nonempty [simp]: "uuid_str u \<noteq> []"
  by (simp add: uuid_str_def Let_def)

lemma uuid_str_unhyphen: "filter (\<lambda>c. c \<noteq> CHR ''-'') (uuid_str u) = hex_fixed 32 (unat u)"
proof -
  let ?h = "hex_fixed 32 (unat u)"
  have no: "CHR ''-'' \<notin> set ?h"
    using hex_fixed_chars hex_chars_plain(3) by blast
  have sub: "filter (\<lambda>c. c \<noteq> CHR ''-'') (take i (drop j ?h)) = take i (drop j ?h)"
    "filter (\<lambda>c. c \<noteq> CHR ''-'') (drop j ?h) = drop j ?h" for i j
    using no by (auto intro!: filter_id_absent dest!: in_set_takeD in_set_dropD)
  have glue: "take i (drop j ?h) @ drop (j + i) ?h = drop j ?h" for i j
    by (metis append_take_drop_id drop_drop add.commute)
  have "filter (\<lambda>c. c \<noteq> CHR ''-'') (uuid_str u)
      = take 8 (drop 0 ?h) @ take 4 (drop 8 ?h) @ take 4 (drop 12 ?h) @ take 4 (drop 16 ?h)
        @ drop 20 ?h"
    using sub sub(1) [of 8 0] by (simp add: uuid_str_def Let_def)
  also have "\<dots> = ?h"
    using glue [of 8 0] glue [of 4 8] glue [of 4 12] glue [of 4 16] by simp
  finally show ?thesis .
qed

theorem uuid_of_string_str [simp]: "uuid_of_string (uuid_str u) = Some u"
proof -
  have u: "CHR ''u'' \<notin> set (uuid_str u)" "CHR '':'' \<notin> set (uuid_str u)"
    using uuid_str_chars hex_chars_plain(10) by (fastforce, simp)
  have strip: "py_strip (\<lambda>c. c = CHR ''{'' \<or> c = CHR ''}'') (uuid_str u) = uuid_str u"
    using uuid_str_chars hex_chars_plain(7,8) by (intro py_strip_none) fastforce
  have rep: "py_replace ''uuid:'' [] (py_replace ''urn:'' [] (uuid_str u)) = uuid_str u"
    using u by (simp add: py_replace_absent [where c = "CHR '':''"])
  have bound: "unat u < 2 ^ 128"
    using unsigned_less [of u, where 'a = nat] by simp
  have "hex_fixed 32 (unat u) \<noteq> []"
    by (metis length_hex_fixed list.size(3) zero_neq_numeral)
  then have "py_int 16 (hex_fixed 32 (unat u)) = Some (int (unat u))"
    using bound int_body_hex_fixed [of 32 "unat u"] by (simp add: py_int_hex hex_fixed_chars)
  moreover have "int (unat u) < 2 ^ 128"
    using bound by (metis of_nat_less_iff of_nat_numeral of_nat_power)
  ultimately show ?thesis
    by (simp add: uuid_of_string_def Let_def rep strip uuid_str_unhyphen)
qed

lemma uuid_str_inj: "uuid_str u = uuid_str v \<Longrightarrow> u = v"
  by (metis option.inject uuid_of_string_str)

end
