(* ===== verification/Short_Id.thy ===== *)
theory Short_Id
  imports Python_Std
begin

text \<open>
  \<open>tree_engine/core/short_id.py\<close>: the document-local bidirectional map between the positive
  integers shown to callers and the UUIDs of the nodes, its monotonic allocator, snapshots
  for rollback, the cross-document merge, the stored form, and the \<open>0x\<close> rendering.

  Every operation takes the map and returns its outcome beside the map it leaves, so that a
  raise after a partial update (\<open>assign_bulk\<close>, \<open>merge_insert\<close>) shows the entries already
  made.
\<close>

section \<open>Hexadecimal rendering\<close>

datatype short_id_error =
    ShortIdValueError
  | UnknownShortIdError
  | InvalidShortIdHexError
  | DuplicateNodeIdError uuid

definition to_hex :: "int \<Rightarrow> short_id_error + string" where
  "to_hex short_id =
     (if short_id < 1 then Inl ShortIdValueError
      else Inr (''0x'' @ hex_digits (nat short_id)))"

definition from_hex :: "string \<Rightarrow> short_id_error + int" where
  "from_hex value =
     (if length value < 3 \<or> \<not> (value ! 0 = CHR ''0'' \<and> (value ! 1 = CHR ''x'' \<or> value ! 1 = CHR ''X''))
      then Inl InvalidShortIdHexError
      else (case py_int 16 (drop 2 value) of
              None \<Rightarrow> Inl InvalidShortIdHexError
            | Some decoded \<Rightarrow>
                if decoded < 1 then Inl InvalidShortIdHexError else Inr decoded))"

section \<open>The bidirectional map\<close>

record short_id_map =
  by_short :: "(int, uuid) pydict"
  by_node :: "(uuid, int) pydict"
  next_short_id :: int

text \<open>\<open>ShortIdMap(next_short_id)\<close>; its default argument is 1.\<close>

definition new_short_id_map :: "int \<Rightarrow> short_id_map" where
  "new_short_id_map n = \<lparr>by_short = [], by_node = [], next_short_id = n\<rparr>"

definition allocate :: "uuid \<Rightarrow> short_id_map \<Rightarrow> (short_id_error + int) \<times> short_id_map" where
  "allocate node_id m =
     (if dict_has (by_node m) node_id then (Inl (DuplicateNodeIdError node_id), m)
      else (let short_id = next_short_id m
            in (Inr short_id,
                m\<lparr>by_short := dict_set short_id node_id (by_short m),
                  by_node := dict_set node_id short_id (by_node m),
                  next_short_id := next_short_id m + 1\<rparr>)))"

fun assign_bulk_loop ::
  "uuid list \<Rightarrow> (uuid, int) pydict \<Rightarrow> short_id_map \<Rightarrow>
   (short_id_error + (uuid, int) pydict) \<times> short_id_map" where
  "assign_bulk_loop [] assigned m = (Inr assigned, m)"
| "assign_bulk_loop (node_id # node_ids) assigned m =
     (case allocate node_id m of
        (Inl e, m') \<Rightarrow> (Inl e, m')
      | (Inr s, m') \<Rightarrow> assign_bulk_loop node_ids (dict_set node_id s assigned) m')"

definition assign_bulk ::
  "uuid list \<Rightarrow> short_id_map \<Rightarrow> (short_id_error + (uuid, int) pydict) \<times> short_id_map" where
  "assign_bulk node_ids m = assign_bulk_loop node_ids [] m"

definition get_node_id :: "short_id_map \<Rightarrow> int \<Rightarrow> uuid option" where
  "get_node_id m short_id = dict_get (by_short m) short_id"

definition get_short_id :: "short_id_map \<Rightarrow> uuid \<Rightarrow> int option" where
  "get_short_id m node_id = dict_get (by_node m) node_id"

definition resolve_hex :: "short_id_map \<Rightarrow> string \<Rightarrow> short_id_error + uuid" where
  "resolve_hex m hex_value =
     (case from_hex hex_value of
        Inl e \<Rightarrow> Inl e
      | Inr short_id \<Rightarrow>
          (case dict_get (by_short m) short_id of
             None \<Rightarrow> Inl UnknownShortIdError
           | Some node_id \<Rightarrow> Inr node_id))"

definition release :: "uuid \<Rightarrow> short_id_map \<Rightarrow> short_id_map" where
  "release node_id m =
     (case dict_get (by_node m) node_id of
        None \<Rightarrow> m
      | Some short_id \<Rightarrow>
          m\<lparr>by_node := dict_del node_id (by_node m),
            by_short := dict_del short_id (by_short m)\<rparr>)"

definition rekey :: "uuid \<Rightarrow> uuid \<Rightarrow> short_id_map \<Rightarrow> (short_id_error + unit) \<times> short_id_map" where
  "rekey old_node_id new_node_id m =
     (case dict_get (by_node m) old_node_id of
        None \<Rightarrow> (Inl UnknownShortIdError, m)
      | Some short_id \<Rightarrow>
          if dict_has (by_node m) new_node_id then (Inl (DuplicateNodeIdError new_node_id), m)
          else (Inr (),
                m\<lparr>by_node := dict_set new_node_id short_id (dict_del old_node_id (by_node m)),
                  by_short := dict_set short_id new_node_id (by_short m)\<rparr>))"

text \<open>A snapshot copies both directions and the counter; restoring never lowers the counter.\<close>

definition snapshot :: "short_id_map \<Rightarrow> short_id_map" where
  "snapshot m = \<lparr>by_short = by_short m, by_node = by_node m, next_short_id = next_short_id m\<rparr>"

definition restore :: "short_id_map \<Rightarrow> short_id_map \<Rightarrow> short_id_map" where
  "restore snap m =
     m\<lparr>by_short := by_short snap, by_node := by_node snap,
       next_short_id := max (next_short_id m) (next_short_id snap)\<rparr>"

fun merge_loop ::
  "(uuid, int) pydict \<Rightarrow> (uuid, int) pydict \<Rightarrow> short_id_map \<Rightarrow>
   (short_id_error + (uuid, int) pydict) \<times> short_id_map" where
  "merge_loop [] result m = (Inr result, m)"
| "merge_loop ((node_id, candidate) # incoming) result m =
     (if dict_has (by_node m) node_id then (Inl (DuplicateNodeIdError node_id), m)
      else if \<not> dict_has (by_short m) candidate then
        merge_loop incoming (dict_set node_id candidate result)
          (m\<lparr>by_short := dict_set candidate node_id (by_short m),
             by_node := dict_set node_id candidate (by_node m),
             next_short_id := (if candidate \<ge> next_short_id m then candidate + 1
                               else next_short_id m)\<rparr>)
      else (case allocate node_id m of
              (Inl e, m') \<Rightarrow> (Inl e, m')
            | (Inr s, m') \<Rightarrow> merge_loop incoming (dict_set node_id s result) m'))"

declare merge_loop.simps(2) [simp del]

definition merge_insert ::
  "(uuid, int) pydict \<Rightarrow> short_id_map \<Rightarrow> (short_id_error + (uuid, int) pydict) \<times> short_id_map" where
  "merge_insert incoming m = merge_loop incoming [] m"

text \<open>
  The stored form: the counter and the entries, both as decimal and UUID text. Reading it
  back parses every key and value; \<open>None\<close> is the \<open>ValueError\<close> of \<open>int\<close> or \<open>UUID\<close>.
\<close>

record stored_short_ids =
  entries :: "(string, string) pydict"
  stored_next :: int

definition to_dict :: "short_id_map \<Rightarrow> stored_short_ids" where
  "to_dict m =
     \<lparr>entries = fold (\<lambda>(short_id, node_id) d. dict_set (py_str_int short_id) (uuid_str node_id) d)
                 (by_short m) [],
      stored_next = next_short_id m\<rparr>"

fun from_dict_loop :: "(string, string) pydict \<Rightarrow> short_id_map \<Rightarrow> short_id_map option" where
  "from_dict_loop [] result = Some result"
| "from_dict_loop ((short_id_str, node_id_str) # es) result =
     (case (py_int 10 short_id_str, uuid_of_string node_id_str) of
        (Some short_id, Some node_id) \<Rightarrow>
          from_dict_loop es
            (result\<lparr>by_short := dict_set short_id node_id (by_short result),
                    by_node := dict_set node_id short_id (by_node result)\<rparr>)
      | _ \<Rightarrow> None)"

definition from_dict :: "stored_short_ids \<Rightarrow> short_id_map option" where
  "from_dict data = from_dict_loop (entries data) (new_short_id_map (stored_next data))"

section \<open>The invariant of the map\<close>

text \<open>
  The two directions are inverse to each other and every issued integer lies between 1 and
  the counter, which therefore names an integer no node has.
\<close>

definition sid_inv :: "short_id_map \<Rightarrow> bool" where
  "sid_inv m \<longleftrightarrow>
     dict_wf (by_short m) \<and> dict_wf (by_node m) \<and> 1 \<le> next_short_id m
     \<and> list_all (\<lambda>(s, u). dict_get (by_node m) u = Some s \<and> 1 \<le> s \<and> s < next_short_id m) (by_short m)
     \<and> list_all (\<lambda>(u, s). dict_get (by_short m) s = Some u) (by_node m)"

lemma sid_invI:
  assumes "dict_wf (by_short m)" and "dict_wf (by_node m)" and "1 \<le> next_short_id m"
    and "\<And>s u. dict_get (by_short m) s = Some u \<longleftrightarrow> dict_get (by_node m) u = Some s"
    and "\<And>s u. dict_get (by_short m) s = Some u \<Longrightarrow> 1 \<le> s \<and> s < next_short_id m"
  shows "sid_inv m"
  using assms by (auto simp: sid_inv_def list_all_iff dict_mem_get)

lemma sid_invD:
  assumes "sid_inv m"
  shows "dict_wf (by_short m)" and "dict_wf (by_node m)" and "1 \<le> next_short_id m"
    and "dict_get (by_short m) s = Some u \<longleftrightarrow> dict_get (by_node m) u = Some s"
    and "dict_get (by_short m) s = Some u \<Longrightarrow> 1 \<le> s \<and> s < next_short_id m"
  using assms by (auto simp: sid_inv_def list_all_iff dict_mem_get)

lemmas sid_inv_simps = dict_simps allocate_def release_def rekey_def restore_def Let_def

lemma sid_inv_new [simp]: "sid_inv (new_short_id_map n) \<longleftrightarrow> 1 \<le> n"
  by (simp add: sid_inv_def new_short_id_map_def)

lemma sid_counter_free: "sid_inv m \<Longrightarrow> next_short_id m \<le> s \<Longrightarrow> dict_get (by_short m) s = None"
  using sid_invD(5) by (metis not_le option.exhaust)

lemma sid_inv_insert:
  assumes "sid_inv m" and "dict_get (by_node m) u = None" and "dict_get (by_short m) s = None"
    and "1 \<le> s" and "s < n" and "next_short_id m \<le> n"
  shows "sid_inv (m\<lparr>by_short := dict_set s u (by_short m), by_node := dict_set u s (by_node m),
                    next_short_id := n\<rparr>)"
  (is "sid_inv ?m")
proof (rule sid_invI)
  show "dict_wf (by_short ?m)" and "dict_wf (by_node ?m)" and "1 \<le> next_short_id ?m"
    using assms sid_invD(1-3) [OF assms(1)] by simp_all
next
  fix s' u'
  show "dict_get (by_short ?m) s' = Some u' \<longleftrightarrow> dict_get (by_node ?m) u' = Some s'"
    using assms(2,3) sid_invD(4) [OF assms(1)] by (simp add: dict_simps) (metis option.distinct(1))
next
  fix s' u'
  assume "dict_get (by_short ?m) s' = Some u'"
  then show "1 \<le> s' \<and> s' < next_short_id ?m"
    using assms(4-6) sid_invD(5) [OF assms(1), of s' u'] by (simp add: dict_simps split: if_splits)
qed

lemma allocate_new:
  assumes "sid_inv m" and "dict_get (by_node m) u = None"
  obtains m' where "allocate u m = (Inr (next_short_id m), m')" and "sid_inv m'"
    and "next_short_id m' = next_short_id m + 1"
    and "\<And>v. get_short_id m' v = (if v = u then Some (next_short_id m) else get_short_id m v)"
proof -
  let ?m = "m\<lparr>by_short := dict_set (next_short_id m) u (by_short m),
              by_node := dict_set u (next_short_id m) (by_node m),
              next_short_id := next_short_id m + 1\<rparr>"
  have "sid_inv ?m"
    using assms sid_counter_free [of m "next_short_id m"] sid_invD(3) by (intro sid_inv_insert) auto
  then show ?thesis
    using that [of ?m] assms by (simp add: allocate_def Let_def get_short_id_def dict_simps)
qed

lemma allocate_known: "dict_has (by_node m) u \<Longrightarrow> allocate u m = (Inl (DuplicateNodeIdError u), m)"
  by (simp add: allocate_def)

lemma allocate_inv: "sid_inv m \<Longrightarrow> sid_inv (snd (allocate u m))"
  by (metis allocate_known allocate_new snd_conv)

lemma release_inv:
  assumes "sid_inv m"
  shows "sid_inv (release u m)"
proof (cases "dict_get (by_node m) u")
  case None
  then show ?thesis using assms by (simp add: release_def)
next
  case (Some s)
  note inverse = sid_invD(4) [OF assms]
  have wf: "dict_wf (by_short (release u m))" "dict_wf (by_node (release u m))"
    "1 \<le> next_short_id (release u m)"
    using sid_invD(1-3) [OF assms] by (simp_all add: release_def Some)
  have both: "dict_get (by_short (release u m)) s' = Some u'
      \<longleftrightarrow> dict_get (by_node (release u m)) u' = Some s'" for s' u'
    using inverse Some by (simp add: release_def dict_simps) (metis option.inject)
  have bounds: "1 \<le> s' \<and> s' < next_short_id (release u m)"
    if "dict_get (by_short (release u m)) s' = Some u'" for s' u'
    using that sid_invD(5) [OF assms, of s' u']
    by (simp add: release_def Some dict_simps split: if_splits)
  show ?thesis using wf both bounds by (rule sid_invI)
qed

lemma get_short_id_release:
  "get_short_id (release u m) v = (if v = u then None else get_short_id m v)"
  by (auto simp: get_short_id_def release_def dict_simps split: option.splits)

lemma next_short_id_release [simp]: "next_short_id (release u m) = next_short_id m"
  by (simp add: release_def split: option.splits)

lemma rekey_inv:
  assumes "sid_inv m"
  shows "sid_inv (snd (rekey u v m))"
proof (cases "dict_get (by_node m) u = None \<or> dict_get (by_node m) v \<noteq> None")
  case True
  then show ?thesis using assms by (auto simp: rekey_def split: option.splits)
next
  case False
  then obtain s where s: "dict_get (by_node m) u = Some s" and v: "dict_get (by_node m) v = None"
    by auto
  note inverse = sid_invD(4) [OF assms]
  have old: "dict_get (by_short m) s = Some u" using inverse s by blast
  let ?m = "snd (rekey u v m)"
  have wf: "dict_wf (by_short ?m)" "dict_wf (by_node ?m)" "1 \<le> next_short_id ?m"
    using sid_invD(1-3) [OF assms] by (simp_all add: rekey_def s v)
  have both: "dict_get (by_short ?m) s' = Some u' \<longleftrightarrow> dict_get (by_node ?m) u' = Some s'" for s' u'
    using inverse s v by (simp add: rekey_def dict_simps) (metis option.distinct(1) option.inject)
  have bounds: "1 \<le> s' \<and> s' < next_short_id ?m"
    if "dict_get (by_short ?m) s' = Some u'" for s' u'
    using that old sid_invD(5) [OF assms, of s']
    by (auto simp: rekey_def s v dict_simps split: if_splits)
  show ?thesis using wf both bounds by (rule sid_invI)
qed

lemma restore_inv: "sid_inv m \<Longrightarrow> sid_inv snap \<Longrightarrow> sid_inv (restore snap m)"
  by (auto simp: sid_inv_def restore_def list_all_iff split: prod.splits) fastforce+

lemma assign_bulk_loop_inv: "sid_inv m \<Longrightarrow> sid_inv (snd (assign_bulk_loop us d m))"
proof (induction us arbitrary: d m)
  case Nil
  then show ?case by simp
next
  case (Cons u us)
  then show ?case
    using allocate_inv [OF Cons.prems, of u] by (auto split: prod.splits sum.splits)
qed

section \<open>Interface: a registry of identifiers\<close>

text \<open>
  What the document's index, the mutation preflight and the move rely on: keys have at most
  one identifier, identifiers have at most one owner, the counter is above every identifier
  that is out, and giving a key the next identifier touches no other key. The client is the
  pass that gives every key of a list an identifier, keeping the ones that are there.
\<close>

locale id_registry =
  fixes inv :: "'m \<Rightarrow> bool"
    and ident :: "'m \<Rightarrow> 'k \<Rightarrow> 'i::linorder option"
    and counter :: "'m \<Rightarrow> 'i"
    and issue :: "'k \<Rightarrow> 'm \<Rightarrow> 'm"
    and forget :: "'k \<Rightarrow> 'm \<Rightarrow> 'm"
  assumes ident_inj: "inv m \<Longrightarrow> ident m k = Some i \<Longrightarrow> ident m k' = Some i \<Longrightarrow> k = k'"
    and ident_bound: "inv m \<Longrightarrow> ident m k = Some i \<Longrightarrow> i < counter m"
    and issue_inv: "inv m \<Longrightarrow> inv (issue k m)"
    and issue_ident: "inv m \<Longrightarrow> ident m k = None \<Longrightarrow>
      ident (issue k m) k' = (if k' = k then Some (counter m) else ident m k')"
    and issue_counter: "inv m \<Longrightarrow> ident m k = None \<Longrightarrow> counter m < counter (issue k m)"
    and forget_inv: "inv m \<Longrightarrow> inv (forget k m)"
    and forget_ident: "inv m \<Longrightarrow> ident (forget k m) k' = (if k' = k then None else ident m k')"
    and forget_counter: "inv m \<Longrightarrow> counter (forget k m) = counter m"
begin

definition ensure :: "'k \<Rightarrow> 'm \<Rightarrow> 'm" where
  "ensure k m = (if ident m k = None then issue k m else m)"

lemma ensure_inv: "inv m \<Longrightarrow> inv (ensure k m)"
  by (simp add: ensure_def issue_inv)

lemma ensure_keeps: "inv m \<Longrightarrow> ident m k' = Some i \<Longrightarrow> ident (ensure k m) k' = Some i"
  by (auto simp: ensure_def issue_ident)

lemma ensure_gives: "inv m \<Longrightarrow> ident (ensure k m) k \<noteq> None"
  by (simp add: ensure_def issue_ident)

lemma ensure_counter: "inv m \<Longrightarrow> counter m \<le> counter (ensure k m)"
  by (auto simp: ensure_def intro: less_imp_le issue_counter)

lemma ensure_only: "inv m \<Longrightarrow> ident (ensure k m) k' = Some i \<Longrightarrow> ident m k' = Some i \<or> counter m \<le> i"
  by (auto simp: ensure_def issue_ident split: if_splits)

lemma ensure_all_inv: "inv m \<Longrightarrow> inv (fold ensure ks m)"
  by (induction ks arbitrary: m) (auto simp: ensure_inv)

lemma ensure_all_keeps: "inv m \<Longrightarrow> ident m k = Some i \<Longrightarrow> ident (fold ensure ks m) k = Some i"
  by (induction ks arbitrary: m) (auto simp: ensure_inv ensure_keeps)

lemma ensure_all_gives: "inv m \<Longrightarrow> k \<in> set ks \<Longrightarrow> \<exists>i. ident (fold ensure ks m) k = Some i"
proof (induction ks arbitrary: m)
  case (Cons k' ks)
  show ?case
  proof (cases "k = k'")
    case True
    then show ?thesis
      using ensure_gives [of m k] ensure_all_keeps [of "ensure k m"] Cons.prems ensure_inv by fastforce
  next
    case False
    with Cons show ?thesis by (simp add: ensure_inv)
  qed
qed simp

lemma ensure_all_counter: "inv m \<Longrightarrow> counter m \<le> counter (fold ensure ks m)"
proof (induction ks arbitrary: m)
  case (Cons k ks)
  show ?case
    using order_trans [OF ensure_counter Cons.IH [OF ensure_inv]] Cons.prems by simp
qed simp

lemma ensure_all_only:
  "inv m \<Longrightarrow> ident (fold ensure ks m) k = Some i \<Longrightarrow> ident m k = Some i \<or> counter m \<le> i"
proof (induction ks arbitrary: m)
  case (Cons k' ks)
  then show ?case
    using ensure_only [of m k' k i] ensure_counter [of m k'] ensure_inv [of m k'] by fastforce
qed simp

lemma ensure_all_other: "inv m \<Longrightarrow> k \<notin> set ks \<Longrightarrow> ident (fold ensure ks m) k = ident m k"
proof (induction ks arbitrary: m)
  case (Cons k' ks)
  have "ident (ensure k' m) k = ident m k"
    using Cons.prems by (simp add: ensure_def issue_ident)
  then show ?case using Cons ensure_inv [of m k'] by simp
qed simp

lemma forget_all_inv: "inv m \<Longrightarrow> inv (fold forget ks m)"
  by (induction ks arbitrary: m) (auto simp: forget_inv)

lemma forget_all_ident:
  "inv m \<Longrightarrow> ident (fold forget ks m) k = (if k \<in> set ks then None else ident m k)"
  by (induction ks arbitrary: m) (auto simp: forget_inv forget_ident)

lemma forget_all_counter: "inv m \<Longrightarrow> counter (fold forget ks m) = counter m"
  by (induction ks arbitrary: m) (auto simp: forget_inv forget_counter)

end

interpretation sid: id_registry sid_inv get_short_id next_short_id
  "\<lambda>u m. snd (allocate u m)" release
proof unfold_locales
  fix m u u' i
  assume "sid_inv m" and "get_short_id m u = Some i" and "get_short_id m u' = Some i"
  then show "u = u'" using sid_invD(4) by (metis get_short_id_def option.inject)
next
  fix m u i
  assume "sid_inv m" and "get_short_id m u = Some i"
  then show "i < next_short_id m" using sid_invD(4,5) by (metis get_short_id_def)
next
  fix m u u'
  assume "sid_inv m" and "get_short_id m u = None"
  then show "get_short_id (snd (allocate u m)) u' = (if u' = u then Some (next_short_id m) else get_short_id m u')"
    by (metis allocate_new get_short_id_def snd_conv)
next
  fix m u
  assume "sid_inv m" and "get_short_id m u = None"
  then show "next_short_id m < next_short_id (snd (allocate u m))"
    by (metis allocate_new get_short_id_def less_add_one snd_conv)
qed (simp_all add: allocate_inv release_inv get_short_id_release)

section \<open>Runs of the map's operations\<close>

datatype short_id_op =
    OpAllocate uuid
  | OpRelease uuid
  | OpRekey uuid uuid
  | OpAssignBulk "uuid list"
  | OpMergeInsert "(uuid, int) pydict"
  | OpRestore short_id_map

primrec short_id_step :: "short_id_op \<Rightarrow> short_id_map \<Rightarrow> short_id_map" where
  "short_id_step (OpAllocate u) m = snd (allocate u m)"
| "short_id_step (OpRelease u) m = release u m"
| "short_id_step (OpRekey u v) m = snd (rekey u v m)"
| "short_id_step (OpAssignBulk us) m = snd (assign_bulk us m)"
| "short_id_step (OpMergeInsert incoming) m = snd (merge_insert incoming m)"
| "short_id_step (OpRestore snap) m = restore snap m"

text \<open>
  The integers an operation issues: what \<open>allocate\<close> returns and what \<open>assign_bulk\<close> took from
  the counter. A merge keeps integers of another document and is not an issue of this one.
\<close>

definition issued :: "short_id_op \<Rightarrow> short_id_map \<Rightarrow> int list" where
  "issued op m = (case op of
      OpAllocate u \<Rightarrow> (case fst (allocate u m) of Inl _ \<Rightarrow> [] | Inr s \<Rightarrow> [s])
    | OpAssignBulk us \<Rightarrow> [next_short_id m .. next_short_id (snd (assign_bulk us m)) - 1]
    | _ \<Rightarrow> [])"

fun issued_run :: "short_id_op list \<Rightarrow> short_id_map \<Rightarrow> int list" where
  "issued_run [] m = []"
| "issued_run (op # ops) m = issued op m @ issued_run ops (short_id_step op m)"

text \<open>The positive candidates a caller may merge, and the snapshots a caller may restore.\<close>

definition op_ok :: "short_id_op \<Rightarrow> bool" where
  "op_ok op = (case op of OpMergeInsert incoming \<Rightarrow> list_all (\<lambda>(u, c). 1 \<le> c) incoming
    | OpRestore snap \<Rightarrow> sid_inv snap | _ \<Rightarrow> True)"

lemma merge_loop_Cons:
  assumes "sid_inv m" and "get_short_id m u = None" and "1 \<le> c"
  obtains s m1 where "merge_loop ((u, c) # incoming) r m = merge_loop incoming (dict_set u s r) m1"
    and "sid_inv m1" and "next_short_id m \<le> next_short_id m1"
    and "\<And>v. get_short_id m1 v = (if v = u then Some s else get_short_id m v)"
    and "s = c \<or> (\<exists>v. get_short_id m v = Some c)"
proof (cases "dict_get (by_short m) c")
  case None
  let ?m1 = "m\<lparr>by_short := dict_set c u (by_short m), by_node := dict_set u c (by_node m),
        next_short_id := (if c \<ge> next_short_id m then c + 1 else next_short_id m)\<rparr>"
  have "sid_inv ?m1"
    using assms None by (intro sid_inv_insert) (auto simp: get_short_id_def)
  then show ?thesis
    using that [of c ?m1] assms None by (simp add: get_short_id_def dict_simps merge_loop.simps)
next
  case (Some v)
  then have held: "get_short_id m v = Some c"
    using sid_invD(4) [OF assms(1)] by (simp add: get_short_id_def)
  obtain m1 where m1: "allocate u m = (Inr (next_short_id m), m1)" "sid_inv m1"
    "next_short_id m1 = next_short_id m + 1"
    "\<And>v. get_short_id m1 v = (if v = u then Some (next_short_id m) else get_short_id m v)"
    using allocate_new [OF assms(1)] assms(2) by (metis get_short_id_def)
  show ?thesis
    by (rule that [of "next_short_id m" m1])
      (use m1 assms Some held in \<open>auto simp: get_short_id_def merge_loop.simps\<close>)
qed

lemma merge_loop_dup:
  "get_short_id m u = Some s \<Longrightarrow>
   merge_loop ((u, c) # incoming) r m = (Inl (DuplicateNodeIdError u), m)"
  by (simp add: merge_loop.simps get_short_id_def)

lemma merge_loop_inv:
  "sid_inv m \<Longrightarrow> list_all (\<lambda>(u, c). 1 \<le> c) incoming \<Longrightarrow> sid_inv (snd (merge_loop incoming r m))"
proof (induction incoming arbitrary: r m)
  case (Cons e incoming)
  obtain u c where e: "e = (u, c)" by (cases e)
  have c: "1 \<le> c" using Cons.prems(2) e by simp
  show ?case
  proof (cases "get_short_id m u")
    case None
    show ?thesis
      by (rule merge_loop_Cons [OF Cons.prems(1) None c, of incoming r]) (use Cons e in simp)
  qed (use Cons.prems e in \<open>simp add: merge_loop_dup\<close>)
qed simp

lemma short_id_step_inv: "sid_inv m \<Longrightarrow> op_ok op \<Longrightarrow> sid_inv (short_id_step op m)"
  by (cases op)
    (auto simp: allocate_inv release_inv rekey_inv restore_inv op_ok_def assign_bulk_def
      assign_bulk_loop_inv merge_insert_def merge_loop_inv)

text \<open>
  C21. Every operation of the short-id map, and so every sequence of them, keeps the two
  directions inverse to each other with all integers between 1 and the counter, whatever
  the outcome of the single operations (a raise half way through \<open>assign_bulk\<close> or
  \<open>merge_insert\<close> included).
\<close>

theorem short_id_map_invariant:
  "sid_inv m \<Longrightarrow> list_all op_ok ops \<Longrightarrow> sid_inv (fold short_id_step ops m)"
  by (induction ops arbitrary: m) (auto simp: short_id_step_inv)

theorem short_id_map_invariant_witness:
  "sid_inv (fold short_id_step [OpAllocate 7, OpMergeInsert [(8, 1), (7, 5), (9, 2)], OpRelease 7]
     (new_short_id_map 1))"
  by (rule short_id_map_invariant) (simp_all add: op_ok_def)

lemma assign_bulk_loop_counter:
  "sid_inv m \<Longrightarrow> next_short_id m \<le> next_short_id (snd (assign_bulk_loop us d m))"
proof (induction us arbitrary: d m)
  case (Cons u us)
  show ?case
  proof (cases "dict_get (by_node m) u")
    case None
    then obtain m' where "allocate u m = (Inr (next_short_id m), m')" and "sid_inv m'"
      and "next_short_id m' = next_short_id m + 1"
      using allocate_new [OF Cons.prems] by metis
    with Cons.IH [of m' "dict_set u (next_short_id m) d"] show ?thesis by simp
  next
    case (Some s)
    then show ?thesis by (simp add: allocate_known)
  qed
qed simp

lemma merge_loop_counter: "next_short_id m \<le> next_short_id (snd (merge_loop incoming r m))"
  by (induction incoming r m rule: merge_loop.induct)
    (auto simp: merge_loop.simps allocate_def Let_def split: if_splits)

lemma short_id_step_counter: "sid_inv m \<Longrightarrow> next_short_id m \<le> next_short_id (short_id_step op m)"
  by (cases op)
    (auto simp: allocate_def Let_def rekey_def restore_def assign_bulk_def assign_bulk_loop_counter
      merge_insert_def merge_loop_counter split: option.splits)

lemma issued_between:
  "sid_inv m \<Longrightarrow> s \<in> set (issued op m) \<Longrightarrow> next_short_id m \<le> s \<and> s < next_short_id (short_id_step op m)"
  by (cases op) (auto simp: issued_def allocate_def Let_def split: if_splits)

lemma issued_sorted: "sorted_wrt (<) (issued op m)"
  by (cases op) (auto simp: issued_def allocate_def Let_def)

text \<open>
  C12. A short id is never reused: over any sequence of operations, rollbacks to earlier
  snapshots included, the integers issued are strictly increasing and all lie at or above
  the counter the sequence started with, hence above every integer that was ever in the map.
\<close>

theorem short_ids_never_reused:
  "sid_inv m \<Longrightarrow> list_all op_ok ops \<Longrightarrow>
   sorted_wrt (<) (issued_run ops m) \<and> (\<forall>s \<in> set (issued_run ops m). next_short_id m \<le> s)"
proof (induction ops arbitrary: m)
  case (Cons op ops)
  then have inv: "sid_inv (short_id_step op m)" by (simp add: short_id_step_inv)
  have rest: "sorted_wrt (<) (issued_run ops (short_id_step op m))"
    "\<forall>s \<in> set (issued_run ops (short_id_step op m)). next_short_id (short_id_step op m) \<le> s"
    using Cons.IH [OF inv] Cons.prems by auto
  show ?case
    using rest issued_sorted [of op m] issued_between [OF Cons.prems(1), of _ op]
      short_id_step_counter [OF Cons.prems(1), of op]
    by (fastforce simp: sorted_wrt_append)
qed simp

theorem short_ids_never_reused_witness:
  "sorted_wrt (<) (issued_run [OpAllocate 7, OpRelease 7, OpRestore (new_short_id_map 1), OpAllocate 7]
     (new_short_id_map 1)) \<and>
   issued_run [OpAllocate 7, OpRelease 7, OpRestore (new_short_id_map 1), OpAllocate 7]
     (new_short_id_map 1) = [1, 2]"
proof -
  have "sorted_wrt (<) (issued_run [OpAllocate 7, OpRelease 7, OpRestore (new_short_id_map 1), OpAllocate 7]
     (new_short_id_map 1))"
    using short_ids_never_reused [of "new_short_id_map 1"
        "[OpAllocate 7, OpRelease 7, OpRestore (new_short_id_map 1), OpAllocate 7]"]
    by (simp only: sid_inv_new op_ok_def short_id_op.case list.pred_inject)
  then show ?thesis
    by (simp add: issued_def allocate_def release_def restore_def new_short_id_map_def)
qed

section \<open>Merging another document's identifiers\<close>

text \<open>What a merge has done for one entry: it is in the map, in the result, and either kept
  its candidate or another node held the candidate.\<close>

definition merged :: "short_id_map \<Rightarrow> (uuid, int) pydict \<Rightarrow> uuid \<Rightarrow> int \<Rightarrow> bool" where
  "merged m result u c \<longleftrightarrow> (\<exists>s. get_short_id m u = Some s \<and> dict_get result u = Some s \<and>
     (s = c \<or> (\<exists>v. v \<noteq> u \<and> get_node_id m c = Some v)))"

lemma merge_loop_keeps:
  assumes "sid_inv m" and "list_all (\<lambda>(u, c). 1 \<le> c) incoming"
    and "merge_loop incoming r m = (Inr result, m')"
  shows "(get_short_id m v = Some s \<longrightarrow> get_short_id m' v = Some s)
     \<and> (v \<notin> fst ` set incoming \<longrightarrow> get_short_id m' v = get_short_id m v
          \<and> dict_get result v = dict_get r v)"
  using assms
proof (induction incoming arbitrary: r m)
  case (Cons e incoming)
  obtain u c where e: "e = (u, c)" by (cases e)
  have c: "1 \<le> c" using Cons.prems(2) e by simp
  have new: "get_short_id m u = None"
    using Cons.prems(3) e by (cases "get_short_id m u") (auto simp: merge_loop_dup)
  obtain t m1 where m1: "merge_loop ((u, c) # incoming) r m = merge_loop incoming (dict_set u t r) m1"
    "sid_inv m1" "\<And>v. get_short_id m1 v = (if v = u then Some t else get_short_id m v)"
    by (rule merge_loop_Cons [OF Cons.prems(1) new c, of incoming r]) blast
  have run: "merge_loop incoming (dict_set u t r) m1 = (Inr result, m')"
    using Cons.prems(3) m1(1) e by simp
  have pos: "list_all (\<lambda>(u, c). 1 \<le> c) incoming" using Cons.prems(2) by simp
  note IH = Cons.IH [OF m1(2) pos run]
  show ?case
    using IH m1(3) [of v] new e by (cases "v = u") (simp_all add: dict_simps)
qed simp

lemma merge_loop_merged:
  assumes "sid_inv m" and "list_all (\<lambda>(u, c). 1 \<le> c) incoming" and "dict_wf incoming"
    and "merge_loop incoming r m = (Inr result, m')" and "(u, c) \<in> set incoming"
  shows "merged m' result u c"
  using assms
proof (induction incoming arbitrary: r m)
  case (Cons e incoming)
  obtain u' c' where e: "e = (u', c')" by (cases e)
  have c': "1 \<le> c'" using Cons.prems(2) e by simp
  have new: "get_short_id m u' = None"
    using Cons.prems(4) e by (cases "get_short_id m u'") (auto simp: merge_loop_dup)
  obtain t m1 where m1: "merge_loop ((u', c') # incoming) r m = merge_loop incoming (dict_set u' t r) m1"
    "sid_inv m1" "\<And>v. get_short_id m1 v = (if v = u' then Some t else get_short_id m v)"
    "t = c' \<or> (\<exists>v. get_short_id m v = Some c')"
    by (rule merge_loop_Cons [OF Cons.prems(1) new c', of incoming r]) blast
  have run: "merge_loop incoming (dict_set u' t r) m1 = (Inr result, m')"
    using Cons.prems(4) m1(1) e by simp
  have pos: "list_all (\<lambda>(u, c). 1 \<le> c) incoming" using Cons.prems(2) by simp
  note keep = merge_loop_keeps [OF m1(2) pos run]
  have inv': "sid_inv m'" using merge_loop_inv [OF m1(2) pos] run by (metis snd_conv)
  show ?case
  proof (cases "(u, c) = (u', c')")
    case True
    have "u' \<notin> fst ` set incoming" using Cons.prems(3) e by (simp add: dict_wf_def)
    then have "get_short_id m' u = Some t" and "dict_get result u = Some t"
      using keep m1(3) True by (simp_all add: dict_simps)
    moreover have "t = c \<or> (\<exists>v. v \<noteq> u \<and> get_node_id m' c = Some v)"
    proof -
      have "get_short_id m' v = Some c \<and> v \<noteq> u" if "get_short_id m v = Some c" for v
        using that keep m1(3) new True by (metis option.distinct(1) prod.inject)
      then show ?thesis
        using m1(4) True sid_invD(4) [OF inv'] by (metis get_node_id_def get_short_id_def prod.inject)
    qed
    ultimately show ?thesis by (auto simp: merged_def)
  next
    case False
    then have "(u, c) \<in> set incoming" using Cons.prems(5) e by auto
    then show ?thesis
      using Cons.IH [OF m1(2) pos _ run] Cons.prems(3) by (simp add: dict_wf_def)
  qed
qed simp

lemma merge_loop_fresh:
  assumes "sid_inv m" and "list_all (\<lambda>(u, c). 1 \<le> c) incoming"
    and "merge_loop incoming r m = (Inr result, m')" and "(u, c) \<in> set incoming"
  shows "get_short_id m u = None"
  using assms
proof (induction incoming arbitrary: r m)
  case (Cons e incoming)
  obtain u' c' where e: "e = (u', c')" by (cases e)
  have c': "1 \<le> c'" using Cons.prems(2) e by simp
  have new: "get_short_id m u' = None"
    using Cons.prems(3) e by (cases "get_short_id m u'") (auto simp: merge_loop_dup)
  obtain t m1 where m1: "merge_loop ((u', c') # incoming) r m = merge_loop incoming (dict_set u' t r) m1"
    "sid_inv m1" "\<And>v. get_short_id m1 v = (if v = u' then Some t else get_short_id m v)"
    by (rule merge_loop_Cons [OF Cons.prems(1) new c', of incoming r]) blast
  have run: "merge_loop incoming (dict_set u' t r) m1 = (Inr result, m')"
    using Cons.prems(3) m1(1) e by simp
  have pos: "list_all (\<lambda>(u, c). 1 \<le> c) incoming" using Cons.prems(2) by simp
  note IH = Cons.IH [OF m1(2) pos run]
  show ?case
    using IH m1(3) [of u] new e Cons.prems(4) by (cases "u = u'") simp_all
qed simp

lemma merge_loop_error:
  assumes "sid_inv m" and "list_all (\<lambda>(u, c). 1 \<le> c) incoming" and "dict_wf incoming"
    and "merge_loop incoming r m = (Inl e, m')"
  shows "list_ex (\<lambda>(u, c). get_short_id m u \<noteq> None \<and> e = DuplicateNodeIdError u) incoming"
  using assms
proof (induction incoming arbitrary: r m)
  case (Cons x incoming)
  obtain u c where x: "x = (u, c)" by (cases x)
  have c: "1 \<le> c" using Cons.prems(2) x by simp
  show ?case
  proof (cases "get_short_id m u")
    case None
    obtain s m1 where m1: "merge_loop ((u, c) # incoming) r m = merge_loop incoming (dict_set u s r) m1"
      "sid_inv m1" "\<And>v. get_short_id m1 v = (if v = u then Some s else get_short_id m v)"
      by (rule merge_loop_Cons [OF Cons.prems(1) None c, of incoming r]) blast
    have "list_ex (\<lambda>(u, c). get_short_id m1 u \<noteq> None \<and> e = DuplicateNodeIdError u) incoming"
      using Cons.IH [of m1 "dict_set u s r"] Cons.prems m1 x by (simp add: dict_wf_def)
    then obtain u1 c1 where u1: "(u1, c1) \<in> set incoming" "get_short_id m1 u1 \<noteq> None"
      "e = DuplicateNodeIdError u1"
      by (auto simp: list_ex_iff)
    moreover have "u1 \<noteq> u" using u1(1) Cons.prems(3) x by (force simp: dict_wf_def)
    ultimately show ?thesis using m1(3) [of u1] by (auto simp: list_ex_iff)
  qed (use Cons.prems x in \<open>simp add: merge_loop_dup\<close>)
qed simp



section \<open>Textual and stored forms\<close>

interpretation hex: render_parse "\<lambda>n. 1 \<le> n" to_hex from_hex
proof unfold_locales
  fix x :: int
  assume "1 \<le> x"
  then show "\<exists>s. to_hex x = Inr s" by (simp add: to_hex_def)
next
  fix x :: int and s
  assume *: "1 \<le> x" "to_hex x = Inr s"
  then have s: "s = ''0x'' @ hex_digits (nat x)" by (simp add: to_hex_def)
  have "Suc 0 \<le> length (hex_digits (nat x))"
    by (metis Suc_leI hex_digits_nonempty length_greater_0_conv)
  then show "from_hex s = Inr x"
    using *(1) by (simp add: from_hex_def s py_int_hex_digits)
qed

text \<open>
  The hexadecimal form round-trips: every positive short id is rendered, reading the
  text back gives the integer, distinct integers have distinct texts, and \<open>resolve_hex\<close> of
  the rendering of an integer in the map is the node that holds it.
\<close>

theorem short_id_hex_roundtrip:
  assumes "sid_inv m" and "get_short_id m u = Some s"
  shows "\<exists>text. to_hex s = Inr text \<and> from_hex text = Inr s \<and> resolve_hex m text = Inr u
    \<and> (\<forall>s'. to_hex s' = Inr text \<longleftrightarrow> s' = s)"
proof -
  have owner: "dict_get (by_short m) s = Some u"
    using assms sid_invD(4) by (simp add: get_short_id_def)
  then have pos: "1 \<le> s" using sid_invD(5) [OF assms(1)] by blast
  obtain t where t: "to_hex s = Inr t" "from_hex t = Inr s"
    using hex.rendered_accepted [OF pos] by blast
  moreover have "to_hex s' = Inr t \<longleftrightarrow> s' = s" for s'
  proof
    assume s': "to_hex s' = Inr t"
    then have "1 \<le> s'" by (simp add: to_hex_def split: if_splits)
    then show "s' = s" using hex.render_inj [OF _ pos] s' t by simp
  qed (use t in simp)
  moreover have "resolve_hex m t = Inr u"
    by (simp add: resolve_hex_def t owner)
  ultimately show ?thesis by blast
qed

theorem short_id_hex_roundtrip_witness:
  "\<exists>text. to_hex 255 = Inr text \<and> from_hex text = Inr 255
     \<and> resolve_hex (snd (allocate 9 (new_short_id_map 255))) text = Inr 9
     \<and> (\<forall>s'. to_hex s' = Inr text \<longleftrightarrow> s' = 255)"
  by (rule short_id_hex_roundtrip [of "snd (allocate 9 (new_short_id_map 255))" 9 255])
    (simp_all add: allocate_inv, simp add: get_short_id_def allocate_def new_short_id_map_def)

text \<open>The reader is laxer than the printer: it takes what \<open>int(_, 16)\<close> takes after the prefix.\<close>

lemma from_hex_lax:
  "from_hex ''0x0x1f'' = Inr 31" and "from_hex ''0x+1f'' = Inr 31" and "from_hex ''0x1_f'' = Inr 31"
  by code_simp+

lemma py_str_int_inj:
  "0 \<le> i \<Longrightarrow> 0 \<le> j \<Longrightarrow> py_str_int i = py_str_int j \<Longrightarrow> i = j"
  by (metis int_body_dec_digits option.inject py_str_int_def nat_eq_iff2 not_less)

abbreviation stored_entry :: "int \<times> uuid \<Rightarrow> string \<times> string" where
  "stored_entry \<equiv> \<lambda>(s, u). (py_str_int s, uuid_str u)"

lemma to_dict_entries:
  assumes "sid_inv m"
  shows "entries (to_dict m) = map stored_entry (by_short m)"
proof -
  have pos: "0 \<le> s" if "s \<in> fst ` set (by_short m)" for s
    using that assms by (fastforce simp: sid_inv_def list_all_iff)
  have "inj_on py_str_int (set (dict_keys (by_short m)))"
    using pos py_str_int_inj by (intro inj_onI) simp
  then have "distinct (map py_str_int (dict_keys (by_short m)))"
    using sid_invD(1) [OF assms] unfolding dict_wf_def distinct_map [of py_str_int] by simp
  moreover have "map fst (map stored_entry (by_short m)) = map py_str_int (dict_keys (by_short m))"
    by (simp add: comp_def case_prod_beta)
  ultimately have "dict_wf (map stored_entry (by_short m))"
    unfolding dict_wf_def by (simp only:)
  from dict_build [OF this] show ?thesis
    by (simp add: to_dict_def fold_map comp_def) (simp add: case_prod_beta')
qed

lemma from_dict_loop_entries:
  "list_all (\<lambda>(s, u). 0 \<le> s \<and> nat s < decimal_bound) xs \<Longrightarrow>
   from_dict_loop (map stored_entry xs) r =
     Some (r\<lparr>by_short := fold (\<lambda>(k, v). dict_set k v) xs (by_short r),
             by_node := fold (\<lambda>(k, v). dict_set k v) (map (\<lambda>(s, u). (u, s)) xs) (by_node r)\<rparr>)"
  by (induction xs arbitrary: r) (auto simp: py_int_str_int)

text \<open>
  Storing and loading the map: for integers within the interpreter's limit on decimal
  text, \<open>from_dict(to_dict(m))\<close> succeeds, keeps the counter and every entry in order, and
  answers every lookup in both directions as \<open>m\<close> does, so no identity is lost or reissued
  across a save and a load.
\<close>

theorem short_id_map_stored_roundtrip:
  assumes "sid_inv m" and "next_short_id m \<le> int decimal_bound"
  shows "\<exists>m'. from_dict (to_dict m) = Some m' \<and> sid_inv m' \<and> by_short m' = by_short m
    \<and> next_short_id m' = next_short_id m \<and> (\<forall>u. get_short_id m' u = get_short_id m u)"
proof -
  let ?xs = "by_short m" and ?swap = "\<lambda>(s, u). (u, s)"
  have "list_all (\<lambda>(s, u). 0 \<le> s \<and> nat s < decimal_bound) ?xs"
    using assms by (fastforce simp: sid_inv_def list_all_iff nat_less_iff)
  then have "from_dict (to_dict m) = Some \<lparr>by_short = ?xs,
      by_node = fold (\<lambda>(k, v). dict_set k v) (map ?swap ?xs) [], next_short_id = next_short_id m\<rparr>"
    using from_dict_loop_entries [of ?xs "new_short_id_map (next_short_id m)"]
      dict_build [OF sid_invD(1) [OF assms(1)]]
    by (simp add: from_dict_def to_dict_entries [OF assms(1)])
      (simp add: to_dict_def new_short_id_map_def)
  then obtain m' where m': "from_dict (to_dict m) = Some m'" "by_short m' = ?xs"
    "next_short_id m' = next_short_id m"
    "by_node m' = fold (\<lambda>(k, v). dict_set k v) (map ?swap ?xs) []"
    by (metis short_id_map.select_convs)
  have wf: "dict_wf (map ?swap ?xs)"
  proof -
    have "inj_on snd (set ?xs)"
      by (auto simp: inj_on_def dict_mem_get [OF sid_invD(1) [OF assms(1)]] sid_invD(4) [OF assms(1)])
    moreover have "distinct ?xs"
      using sid_invD(1) [OF assms(1)] by (simp add: dict_wf_def distinct_map)
    ultimately show ?thesis
      by (simp add: dict_wf_def comp_def case_prod_beta distinct_map)
  qed
  then have bn: "by_node m' = map ?swap ?xs" using m'(4) dict_build by simp
  have look: "dict_get (by_node m') u = dict_get (by_node m) u" for u
  proof -
    have "dict_get (by_node m') u = Some s \<longleftrightarrow> dict_get (by_node m) u = Some s" for s
    proof -
      have "(u, s) \<in> set (map ?swap ?xs) \<longleftrightarrow> (s, u) \<in> set ?xs" by force
      then show ?thesis
        using sid_invD(1,4) [OF assms(1)] dict_mem_get [OF wf, of u s] dict_mem_get [of ?xs s u]
        by (simp add: bn del: set_map)
    qed
    then show ?thesis by (metis option.exhaust)
  qed
  have "sid_inv m'"
    using sid_invD [OF assms(1)] wf by (intro sid_invI) (simp_all add: m'(2,3) look, simp add: bn)
  then show ?thesis using m' look by (auto simp: get_short_id_def)
qed

theorem short_id_map_stored_roundtrip_witness:
  "\<exists>m'. from_dict (to_dict (snd (allocate 9 (new_short_id_map 255)))) = Some m' \<and> sid_inv m'
    \<and> by_short m' = [(255, 9)] \<and> next_short_id m' = 256 \<and> get_short_id m' 9 = Some 255"
proof -
  let ?m = "snd (allocate 9 (new_short_id_map 255))"
  have small: "256 \<le> int decimal_bound"
  proof -
    have "(10::nat) ^ 3 \<le> decimal_bound"
      unfolding decimal_bound_def int_max_str_digits_def by (rule power_increasing) simp_all
    then show ?thesis by simp
  qed
  have "sid_inv ?m" and "next_short_id ?m \<le> int decimal_bound"
    using small by (simp_all add: allocate_inv, simp add: allocate_def new_short_id_map_def)
  from short_id_map_stored_roundtrip [OF this] show ?thesis
    by (auto simp: allocate_def new_short_id_map_def get_short_id_def)
qed

end
