(* ===== verification/Errors.thy ===== *)
theory Errors
  imports Prelude
begin

text \<open>
  The error catalogue (\<open>tree_engine/errors.py\<close>) and the public exception hierarchy built on
  it (\<open>tree_engine/exceptions.py\<close>): the codes and their string values, the layer that owns
  each code, one exception class per code with its base class, and the two lookups
  \<open>error_layer\<close> and \<open>exception_for_code\<close>. The dictionaries are kept as dictionaries, so that
  a missing key would be visible as \<open>None\<close>.
\<close>

section \<open>The code catalogue\<close>

datatype error_layer_name = CORE | PLUGIN | STORAGE

datatype error_code =
    NODE_NOT_FOUND
  | NODE_ID_CONFLICT
  | SHORT_ID_CONFLICT
  | DOCUMENT_VERSION_CONFLICT
  | INVALID_SELECTOR
  | INVALID_POSITION
  | INVALID_PARENT_TYPE
  | CYCLE_DETECTED
  | UNRESOLVED_REFERENCE
  | FORMAT_UNKNOWN_EXTENSION
  | FORMAT_EXTENSION_CONFLICT
  | FORMAT_PLUGIN_NOT_FOUND
  | PLUGIN_CAPABILITY_NOT_SUPPORTED
  | FORMAT_CONTENT_PARSE_FAILED
  | FORMAT_FRAGMENT_PARSE_FAILED
  | FORMAT_PLUGIN_CONTRACT_ERROR
  | UNSUPPORTED_TRANSLATION
  | TREE_PAYLOAD_INVALID
  | TREE_SCHEMA_UNSUPPORTED
  | CHECKSUM_MISMATCH
  | CONCURRENT_SOURCE_MODIFICATION
  | CONCURRENT_TREE_MODIFICATION
  | STORAGE_IO_ERROR

primrec code_value :: "error_code \<Rightarrow> string" where
    "code_value NODE_NOT_FOUND = ''NODE_NOT_FOUND''"
  | "code_value NODE_ID_CONFLICT = ''NODE_ID_CONFLICT''"
  | "code_value SHORT_ID_CONFLICT = ''SHORT_ID_CONFLICT''"
  | "code_value DOCUMENT_VERSION_CONFLICT = ''DOCUMENT_VERSION_CONFLICT''"
  | "code_value INVALID_SELECTOR = ''INVALID_SELECTOR''"
  | "code_value INVALID_POSITION = ''INVALID_POSITION''"
  | "code_value INVALID_PARENT_TYPE = ''INVALID_PARENT_TYPE''"
  | "code_value CYCLE_DETECTED = ''CYCLE_DETECTED''"
  | "code_value UNRESOLVED_REFERENCE = ''UNRESOLVED_REFERENCE''"
  | "code_value FORMAT_UNKNOWN_EXTENSION = ''FORMAT_UNKNOWN_EXTENSION''"
  | "code_value FORMAT_EXTENSION_CONFLICT = ''FORMAT_EXTENSION_CONFLICT''"
  | "code_value FORMAT_PLUGIN_NOT_FOUND = ''FORMAT_PLUGIN_NOT_FOUND''"
  | "code_value PLUGIN_CAPABILITY_NOT_SUPPORTED = ''PLUGIN_CAPABILITY_NOT_SUPPORTED''"
  | "code_value FORMAT_CONTENT_PARSE_FAILED = ''FORMAT_CONTENT_PARSE_FAILED''"
  | "code_value FORMAT_FRAGMENT_PARSE_FAILED = ''FORMAT_FRAGMENT_PARSE_FAILED''"
  | "code_value FORMAT_PLUGIN_CONTRACT_ERROR = ''FORMAT_PLUGIN_CONTRACT_ERROR''"
  | "code_value UNSUPPORTED_TRANSLATION = ''UNSUPPORTED_TRANSLATION''"
  | "code_value TREE_PAYLOAD_INVALID = ''TREE_PAYLOAD_INVALID''"
  | "code_value TREE_SCHEMA_UNSUPPORTED = ''TREE_SCHEMA_UNSUPPORTED''"
  | "code_value CHECKSUM_MISMATCH = ''CHECKSUM_MISMATCH''"
  | "code_value CONCURRENT_SOURCE_MODIFICATION = ''CONCURRENT_SOURCE_MODIFICATION''"
  | "code_value CONCURRENT_TREE_MODIFICATION = ''CONCURRENT_TREE_MODIFICATION''"
  | "code_value STORAGE_IO_ERROR = ''STORAGE_IO_ERROR''"

definition all_codes :: "error_code list" where
  "all_codes =
    [NODE_NOT_FOUND,
     NODE_ID_CONFLICT,
     SHORT_ID_CONFLICT,
     DOCUMENT_VERSION_CONFLICT,
     INVALID_SELECTOR,
     INVALID_POSITION,
     INVALID_PARENT_TYPE,
     CYCLE_DETECTED,
     UNRESOLVED_REFERENCE,
     FORMAT_UNKNOWN_EXTENSION,
     FORMAT_EXTENSION_CONFLICT,
     FORMAT_PLUGIN_NOT_FOUND,
     PLUGIN_CAPABILITY_NOT_SUPPORTED,
     FORMAT_CONTENT_PARSE_FAILED,
     FORMAT_FRAGMENT_PARSE_FAILED,
     FORMAT_PLUGIN_CONTRACT_ERROR,
     UNSUPPORTED_TRANSLATION,
     TREE_PAYLOAD_INVALID,
     TREE_SCHEMA_UNSUPPORTED,
     CHECKSUM_MISMATCH,
     CONCURRENT_SOURCE_MODIFICATION,
     CONCURRENT_TREE_MODIFICATION,
     STORAGE_IO_ERROR]"

definition ERROR_CODE_LAYER :: "(error_code, error_layer_name) pydict" where
  "ERROR_CODE_LAYER =
    [(NODE_NOT_FOUND, CORE),
     (NODE_ID_CONFLICT, CORE),
     (SHORT_ID_CONFLICT, CORE),
     (DOCUMENT_VERSION_CONFLICT, CORE),
     (INVALID_SELECTOR, CORE),
     (INVALID_POSITION, CORE),
     (INVALID_PARENT_TYPE, CORE),
     (CYCLE_DETECTED, CORE),
     (UNRESOLVED_REFERENCE, CORE),
     (CONCURRENT_TREE_MODIFICATION, CORE),
     (FORMAT_UNKNOWN_EXTENSION, PLUGIN),
     (FORMAT_EXTENSION_CONFLICT, PLUGIN),
     (FORMAT_PLUGIN_NOT_FOUND, PLUGIN),
     (PLUGIN_CAPABILITY_NOT_SUPPORTED, PLUGIN),
     (FORMAT_CONTENT_PARSE_FAILED, PLUGIN),
     (FORMAT_FRAGMENT_PARSE_FAILED, PLUGIN),
     (FORMAT_PLUGIN_CONTRACT_ERROR, PLUGIN),
     (UNSUPPORTED_TRANSLATION, PLUGIN),
     (TREE_PAYLOAD_INVALID, STORAGE),
     (TREE_SCHEMA_UNSUPPORTED, STORAGE),
     (CHECKSUM_MISMATCH, STORAGE),
     (CONCURRENT_SOURCE_MODIFICATION, STORAGE),
     (STORAGE_IO_ERROR, STORAGE)]"

definition error_layer :: "error_code \<Rightarrow> error_layer_name option" where
  "error_layer code = dict_get ERROR_CODE_LAYER code"

section \<open>The exception hierarchy\<close>

datatype exception_class =
    TreeEngineException | CoreLayerException | PluginLayerException | StorageLayerException
  | NodeNotFound
  | NodeIdConflict
  | ShortIdConflict
  | DocumentVersionConflict
  | InvalidSelector
  | InvalidPosition
  | InvalidParentType
  | CycleDetected
  | UnresolvedReference
  | ConcurrentTreeModification
  | FormatUnknownExtension
  | FormatExtensionConflict
  | FormatPluginNotFound
  | PluginCapabilityNotSupported
  | FormatContentParseFailed
  | FormatFragmentParseFailed
  | FormatPluginContractError
  | UnsupportedTranslation
  | TreePayloadInvalid
  | TreeSchemaUnsupported
  | ChecksumMismatch
  | ConcurrentSourceModification
  | StorageIOError

text \<open>The base class named in each class statement; the root's base is outside the hierarchy.\<close>

primrec class_base :: "exception_class \<Rightarrow> exception_class option" where
    "class_base TreeEngineException = None"
  | "class_base CoreLayerException = Some TreeEngineException"
  | "class_base PluginLayerException = Some TreeEngineException"
  | "class_base StorageLayerException = Some TreeEngineException"
  | "class_base NodeNotFound = Some CoreLayerException"
  | "class_base NodeIdConflict = Some CoreLayerException"
  | "class_base ShortIdConflict = Some CoreLayerException"
  | "class_base DocumentVersionConflict = Some CoreLayerException"
  | "class_base InvalidSelector = Some CoreLayerException"
  | "class_base InvalidPosition = Some CoreLayerException"
  | "class_base InvalidParentType = Some CoreLayerException"
  | "class_base CycleDetected = Some CoreLayerException"
  | "class_base UnresolvedReference = Some CoreLayerException"
  | "class_base ConcurrentTreeModification = Some CoreLayerException"
  | "class_base FormatUnknownExtension = Some PluginLayerException"
  | "class_base FormatExtensionConflict = Some PluginLayerException"
  | "class_base FormatPluginNotFound = Some PluginLayerException"
  | "class_base PluginCapabilityNotSupported = Some PluginLayerException"
  | "class_base FormatContentParseFailed = Some PluginLayerException"
  | "class_base FormatFragmentParseFailed = Some PluginLayerException"
  | "class_base FormatPluginContractError = Some PluginLayerException"
  | "class_base UnsupportedTranslation = Some PluginLayerException"
  | "class_base TreePayloadInvalid = Some StorageLayerException"
  | "class_base TreeSchemaUnsupported = Some StorageLayerException"
  | "class_base ChecksumMismatch = Some StorageLayerException"
  | "class_base ConcurrentSourceModification = Some StorageLayerException"
  | "class_base StorageIOError = Some StorageLayerException"

text \<open>The \<open>code\<close> class attribute: set by the leaves only.\<close>

primrec class_code :: "exception_class \<Rightarrow> error_code option" where
    "class_code TreeEngineException = None"
  | "class_code CoreLayerException = None"
  | "class_code PluginLayerException = None"
  | "class_code StorageLayerException = None"
  | "class_code NodeNotFound = Some NODE_NOT_FOUND"
  | "class_code NodeIdConflict = Some NODE_ID_CONFLICT"
  | "class_code ShortIdConflict = Some SHORT_ID_CONFLICT"
  | "class_code DocumentVersionConflict = Some DOCUMENT_VERSION_CONFLICT"
  | "class_code InvalidSelector = Some INVALID_SELECTOR"
  | "class_code InvalidPosition = Some INVALID_POSITION"
  | "class_code InvalidParentType = Some INVALID_PARENT_TYPE"
  | "class_code CycleDetected = Some CYCLE_DETECTED"
  | "class_code UnresolvedReference = Some UNRESOLVED_REFERENCE"
  | "class_code ConcurrentTreeModification = Some CONCURRENT_TREE_MODIFICATION"
  | "class_code FormatUnknownExtension = Some FORMAT_UNKNOWN_EXTENSION"
  | "class_code FormatExtensionConflict = Some FORMAT_EXTENSION_CONFLICT"
  | "class_code FormatPluginNotFound = Some FORMAT_PLUGIN_NOT_FOUND"
  | "class_code PluginCapabilityNotSupported = Some PLUGIN_CAPABILITY_NOT_SUPPORTED"
  | "class_code FormatContentParseFailed = Some FORMAT_CONTENT_PARSE_FAILED"
  | "class_code FormatFragmentParseFailed = Some FORMAT_FRAGMENT_PARSE_FAILED"
  | "class_code FormatPluginContractError = Some FORMAT_PLUGIN_CONTRACT_ERROR"
  | "class_code UnsupportedTranslation = Some UNSUPPORTED_TRANSLATION"
  | "class_code TreePayloadInvalid = Some TREE_PAYLOAD_INVALID"
  | "class_code TreeSchemaUnsupported = Some TREE_SCHEMA_UNSUPPORTED"
  | "class_code ChecksumMismatch = Some CHECKSUM_MISMATCH"
  | "class_code ConcurrentSourceModification = Some CONCURRENT_SOURCE_MODIFICATION"
  | "class_code StorageIOError = Some STORAGE_IO_ERROR"

definition ALL_EXCEPTIONS :: "exception_class list" where
  "ALL_EXCEPTIONS =
    [NodeNotFound,
     NodeIdConflict,
     ShortIdConflict,
     DocumentVersionConflict,
     InvalidSelector,
     InvalidPosition,
     InvalidParentType,
     CycleDetected,
     UnresolvedReference,
     ConcurrentTreeModification,
     FormatUnknownExtension,
     FormatExtensionConflict,
     FormatPluginNotFound,
     PluginCapabilityNotSupported,
     FormatContentParseFailed,
     FormatFragmentParseFailed,
     FormatPluginContractError,
     UnsupportedTranslation,
     TreePayloadInvalid,
     TreeSchemaUnsupported,
     ChecksumMismatch,
     ConcurrentSourceModification,
     StorageIOError]"

text \<open>
  The fallback flag is a class attribute: \<open>False\<close> on the root, overridden in one leaf, and
  otherwise inherited along the base classes.
\<close>

definition own_fallback_flag :: "exception_class \<Rightarrow> bool option" where
  "own_fallback_flag c =
     (if c = TreeEngineException then Some False
      else if c = FormatContentParseFailed then Some True else None)"

definition class_rank :: "exception_class \<Rightarrow> nat" where
  "class_rank c = (case class_base c of None \<Rightarrow> 0
     | Some p \<Rightarrow> (case class_base p of None \<Rightarrow> 1 | Some _ \<Rightarrow> 2))"

function class_mro :: "exception_class \<Rightarrow> exception_class list" where
  "class_mro c = c # (case class_base c of None \<Rightarrow> [] | Some p \<Rightarrow> class_mro p)"
  by pat_completeness auto
termination
proof (relation "measure class_rank")
  fix c p
  assume "class_base c = Some p"
  then show "(p, c) \<in> measure class_rank"
    by (cases c) (auto simp: class_rank_def)
qed simp

declare class_mro.simps [simp del]

definition issubclass :: "exception_class \<Rightarrow> exception_class \<Rightarrow> bool" where
  "issubclass c b \<longleftrightarrow> b \<in> set (class_mro c)"

definition plain_text_fallback_permitted :: "exception_class \<Rightarrow> bool" where
  "plain_text_fallback_permitted c =
     (case List.map_filter own_fallback_flag (class_mro c) of [] \<Rightarrow> False | b # _ \<Rightarrow> b)"

text \<open>\<open>layer\<close> is looked up on every access; a class without a code has none.\<close>

definition exception_layer :: "exception_class \<Rightarrow> error_layer_name option" where
  "exception_layer c = Option.bind (class_code c) error_layer"

text \<open>The rendered message of an instance.\<close>

definition exception_message :: "exception_class \<Rightarrow> string \<Rightarrow> string option" where
  "exception_message c message =
     map_option (\<lambda>code.
       if message \<noteq> [] then ''['' @ code_value code @ ''] '' @ message
       else ''['' @ code_value code @ '']'') (class_code c)"

definition layer_intermediate :: "error_layer_name \<Rightarrow> exception_class" where
  "layer_intermediate l = (case l of CORE \<Rightarrow> CoreLayerException
     | PLUGIN \<Rightarrow> PluginLayerException | STORAGE \<Rightarrow> StorageLayerException)"

text \<open>\<open>CODE_TO_EXCEPTION\<close>, a dictionary comprehension over the leaves, and its lookup.\<close>

definition CODE_TO_EXCEPTION :: "(error_code, exception_class) pydict" where
  "CODE_TO_EXCEPTION =
     fold (\<lambda>c d. case class_code c of None \<Rightarrow> d | Some k \<Rightarrow> dict_set k c d) ALL_EXCEPTIONS []"

definition exception_for_code :: "error_code \<Rightarrow> exception_class option" where
  "exception_for_code code = dict_get CODE_TO_EXCEPTION code"

section \<open>The guards of the two modules\<close>

lemma all_codes_complete: "c \<in> set all_codes"
  by (cases c) (simp_all add: all_codes_def)

lemma CODE_TO_EXCEPTION_eval:
  "CODE_TO_EXCEPTION = map (\<lambda>c. (the (class_code c), c)) ALL_EXCEPTIONS"
  by (simp add: CODE_TO_EXCEPTION_def ALL_EXCEPTIONS_def)

lemma exception_for_code_class:
  "exception_for_code code = Some cls \<Longrightarrow> class_code cls = Some code"
  by (cases code)
    (auto simp: exception_for_code_def CODE_TO_EXCEPTION_eval ALL_EXCEPTIONS_def)

lemma class_mro_leaf:
  "class_base c = Some p \<Longrightarrow> class_base p = Some TreeEngineException \<Longrightarrow>
   class_mro c = [c, p, TreeEngineException]"
  by (simp add: class_mro.simps [of c] class_mro.simps [of p]
      class_mro.simps [of TreeEngineException])

lemma fallback_leaf:
  "class_base c = Some p \<Longrightarrow> class_base p = Some TreeEngineException \<Longrightarrow>
   plain_text_fallback_permitted c \<longleftrightarrow> c = FormatContentParseFailed"
  by (cases c) (auto simp: plain_text_fallback_permitted_def class_mro_leaf own_fallback_flag_def
      List.map_filter_def)

lemma exception_for_code_eval:
  obtains cls l where "exception_for_code code = Some cls" and "error_layer code = Some l"
    and "class_base cls = Some (layer_intermediate l)"
  by (cases code)
    (simp_all add: exception_for_code_def CODE_TO_EXCEPTION_eval ALL_EXCEPTIONS_def
      error_layer_def ERROR_CODE_LAYER_def layer_intermediate_def)

text \<open>
  The exception hierarchy and the error catalogue agree: every code has a layer and
  exactly one exception class, which carries that code and is a subclass of the
  intermediate class of the code's layer, so \<open>layer\<close> of an instance is the layer of the
  code it was looked up by; and the plain-text fallback is permitted for
  \<open>FORMAT_CONTENT_PARSE_FAILED\<close> and for no other code.
\<close>

theorem exception_catalogue_agrees:
  "\<exists>cls l. exception_for_code code = Some cls \<and> error_layer code = Some l
     \<and> class_code cls = Some code \<and> exception_layer cls = Some l
     \<and> issubclass cls (layer_intermediate l) \<and> issubclass cls TreeEngineException
     \<and> (\<forall>c. c \<noteq> cls \<longleftrightarrow> class_code c \<noteq> Some code)
     \<and> (plain_text_fallback_permitted cls \<longleftrightarrow> code = FORMAT_CONTENT_PARSE_FAILED)"
proof -
  obtain cls l where cls: "exception_for_code code = Some cls" and l: "error_layer code = Some l"
    and base: "class_base cls = Some (layer_intermediate l)"
    by (rule exception_for_code_eval)
  have code: "class_code cls = Some code"
    using cls by (rule exception_for_code_class)
  have root: "class_base (layer_intermediate l) = Some TreeEngineException"
    by (cases l) (simp_all add: layer_intermediate_def)
  have unique: "c = cls \<longleftrightarrow> class_code c = Some code" for c
    using code by (cases cls) (cases c, simp_all)+
  have flag: "plain_text_fallback_permitted cls \<longleftrightarrow> code = FORMAT_CONTENT_PARSE_FAILED"
    using fallback_leaf [OF base root] unique [of FormatContentParseFailed] by auto
  show ?thesis
    using cls l code base root unique flag
    by (auto simp: exception_layer_def issubclass_def class_mro_leaf)
qed

end
