(* ===== verification/Address.thy ===== *)
theory Address
  imports Short_Id Errors
begin

text \<open>
  \<open>tree_engine/core/identity.py\<close>, \<open>core/address.py\<close> and \<open>core/references.py\<close>: the canonical
  address of a node, its replacement, the textual forms with their two parsers, and
  \<open>normalize_node_address\<close>, which every public operation calls first.
\<close>

section \<open>Identity\<close>

record node_address =
  na_node_id :: uuid
  na_document_id :: "uuid option"

record address_remap =
  remap_old :: node_address
  remap_new :: node_address

datatype identity_error =
    NoIdMapping | NotAUuid string | NotUuid4 uuid "nat option" | OldIdAbsent uuid | NewIdPresent uuid

text \<open>An argument that is a \<open>UUID\<close>, or something else with its \<open>str()\<close>.\<close>

datatype uuid_argument = UuidValue uuid | OtherValue string

text \<open>\<open>uuid4()\<close> is the parameter \<open>fresh\<close> of the operations that generate an id.\<close>

definition assign_node_id :: "uuid \<Rightarrow> uuid option \<Rightarrow> uuid" where
  "assign_node_id fresh existing_id = (case existing_id of Some u \<Rightarrow> u | None \<Rightarrow> fresh)"

definition validate_uuid4 :: "uuid_argument \<Rightarrow> identity_error + uuid" where
  "validate_uuid4 value =
     (case (case value of UuidValue u \<Rightarrow> Some u | OtherValue s \<Rightarrow> uuid_of_string s) of
        None \<Rightarrow> Inl (NotAUuid (case value of UuidValue u \<Rightarrow> uuid_str u | OtherValue s \<Rightarrow> s))
      | Some candidate \<Rightarrow>
          if uuid_version candidate \<noteq> Some 4 then Inl (NotUuid4 candidate (uuid_version candidate))
          else Inr candidate)"

text \<open>
  A node object of the mapping has or lacks a \<open>node_id\<close> and a \<open>generation\<close>, and may refuse
  to have them assigned. Objects live in a store, since the mapping shares them.
\<close>

datatype 'a attribute = Absent | ReadOnly 'a | Writable 'a

record id_node =
  at_node_id :: "uuid attribute"
  at_generation :: "int attribute"
  at_short_id :: "int option"

record id_document =
  id_nodes_by_id :: "(uuid, nat) pydict option"
  id_document_id :: "uuid option"
  id_objects :: "nat \<Rightarrow> id_node"

definition assign_attribute :: "'a \<Rightarrow> 'a attribute \<Rightarrow> 'a attribute" where
  "assign_attribute v a = (case a of Writable _ \<Rightarrow> Writable v | _ \<Rightarrow> a)"

definition replace_node_id ::
  "uuid \<Rightarrow> uuid_argument \<Rightarrow> id_document \<Rightarrow> (identity_error + address_remap) \<times> id_document" where
  "replace_node_id old_node_id new_node_id doc =
     (case id_nodes_by_id doc of
        None \<Rightarrow> (Inl NoIdMapping, doc)
      | Some nodes \<Rightarrow>
          (case validate_uuid4 new_node_id of
             Inl e \<Rightarrow> (Inl e, doc)
           | Inr new_id \<Rightarrow>
               (case dict_get nodes old_node_id of
                  None \<Rightarrow> (Inl (OldIdAbsent old_node_id), doc)
                | Some obj \<Rightarrow>
                    if dict_has nodes new_id then (Inl (NewIdPresent new_id), doc)
                    else
                      (let n = id_objects doc obj;
                           n' = n\<lparr>at_node_id := assign_attribute new_id (at_node_id n),
                             at_generation := (case at_generation n of
                               Writable g \<Rightarrow> Writable (g + 1) | a \<Rightarrow> a)\<rparr>
                       in (Inr \<lparr>remap_old = \<lparr>na_node_id = old_node_id, na_document_id = id_document_id doc\<rparr>,
                                remap_new = \<lparr>na_node_id = new_id, na_document_id = id_document_id doc\<rparr>\<rparr>,
                           doc\<lparr>id_objects := (id_objects doc)(obj := n'),
                               id_nodes_by_id := Some (dict_set new_id obj (dict_del old_node_id nodes))\<rparr>)))))"

section \<open>Textual form\<close>

datatype address_text_error =
    NoDocumentId | NotAString | SeparatorCount nat | EmptySegment | InvalidSegment

definition to_str :: "node_address \<Rightarrow> address_text_error + string" where
  "to_str a =
     (case na_document_id a of
        None \<Rightarrow> Inl NoDocumentId
      | Some d \<Rightarrow> Inr (uuid_str d @ '':'' @ uuid_str (na_node_id a)))"

text \<open>The argument is a \<open>str\<close>, or \<open>None\<close> for a value of another type.\<close>

definition from_str :: "string option \<Rightarrow> address_text_error + node_address" where
  "from_str arg =
     (case arg of
        None \<Rightarrow> Inl NotAString
      | Some s \<Rightarrow>
          (case split_on CHR '':'' s of
             [document_part, node_part] \<Rightarrow>
               if document_part = [] \<or> node_part = [] then Inl EmptySegment
               else (case (uuid_of_string document_part, uuid_of_string node_part) of
                       (Some d, Some n) \<Rightarrow> Inr \<lparr>na_node_id = n, na_document_id = Some d\<rparr>
                     | _ \<Rightarrow> Inl InvalidSegment)
           | parts \<Rightarrow> Inl (SeparatorCount (length parts - 1))))"

section \<open>Normalization\<close>

datatype raw_address =
    RawNode node_address | RawUuid uuid | RawBool bool | RawInt int | RawStr string | RawOther

text \<open>
  The three typed errors carry the rejected argument; \<open>EscapedValueError\<close> is a \<open>ValueError\<close>
  that no handler of \<open>normalize_node_address\<close> catches.
\<close>

datatype node_address_error =
    UnknownAddressError raw_address
  | AmbiguousAddressError raw_address
  | ForeignDocumentAddressError raw_address uuid
  | EscapedValueError

text \<open>
  What is read of a document: the keys of its node table, if it has one, and its own
  \<open>resolve_short_id\<close>, if it has one.
\<close>

record address_document =
  known_ids :: "uuid set option"
  own_resolver :: "(int \<Rightarrow> uuid list) option"

definition validate_node_id_presence ::
  "address_document \<Rightarrow> uuid \<Rightarrow> raw_address \<Rightarrow> node_address_error + uuid" where
  "validate_node_id_presence doc node_id raw =
     (case known_ids doc of
        None \<Rightarrow> Inl (UnknownAddressError raw)
      | Some ids \<Rightarrow> if node_id \<in> ids then Inr node_id else Inl (UnknownAddressError raw))"

definition resolve_node_address_value ::
  "address_document \<Rightarrow> node_address \<Rightarrow> raw_address \<Rightarrow> uuid option \<Rightarrow> node_address_error + uuid" where
  "resolve_node_address_value doc a raw current =
     (case na_document_id a of
        Some d \<Rightarrow> if Some d \<noteq> current then Inl (ForeignDocumentAddressError raw d)
                  else validate_node_id_presence doc (na_node_id a) raw
      | None \<Rightarrow> validate_node_id_presence doc (na_node_id a) raw)"

definition resolve_short_id_value ::
  "address_document \<Rightarrow> int \<Rightarrow> raw_address \<Rightarrow> (int \<Rightarrow> uuid list) option \<Rightarrow> node_address_error + uuid" where
  "resolve_short_id_value doc short_id raw injected =
     (case (case injected of Some f \<Rightarrow> Some f | None \<Rightarrow> own_resolver doc) of
        None \<Rightarrow> Inl (UnknownAddressError raw)
      | Some resolver \<Rightarrow>
          (case resolver short_id of
             [] \<Rightarrow> Inl (UnknownAddressError raw)
           | [node_id] \<Rightarrow> Inr node_id
           | _ \<Rightarrow> Inl (AmbiguousAddressError raw)))"

definition has_hex_prefix :: "string \<Rightarrow> bool" where
  "has_hex_prefix s \<longleftrightarrow> take 2 s = ''0x'' \<or> take 2 s = ''0X''"

text \<open>\<open>s.isascii() and s.isdigit()\<close>: not empty, every character between \<open>0\<close> and \<open>9\<close>.\<close>

definition ascii_digits :: "string \<Rightarrow> bool" where
  "ascii_digits s \<longleftrightarrow> s \<noteq> [] \<and> list_all (\<lambda>c. 48 \<le> ccode c \<and> ccode c \<le> 57) s"

definition normalize_node_address ::
  "address_document \<Rightarrow> raw_address \<Rightarrow> uuid option \<Rightarrow> (int \<Rightarrow> uuid list) option \<Rightarrow>
   node_address_error + uuid" where
  "normalize_node_address doc raw current injected =
     (case raw of
        RawNode a \<Rightarrow> resolve_node_address_value doc a raw current
      | RawUuid u \<Rightarrow> validate_node_id_presence doc u raw
      | RawBool _ \<Rightarrow> Inl (UnknownAddressError raw)
      | RawInt i \<Rightarrow>
          if i \<le> 0 then Inl (UnknownAddressError raw) else resolve_short_id_value doc i raw injected
      | RawStr s \<Rightarrow>
          if has_hex_prefix s then
            (case py_int 16 s of
               None \<Rightarrow> Inl (UnknownAddressError raw)
             | Some i \<Rightarrow> if i \<le> 0 then Inl (UnknownAddressError raw)
                         else resolve_short_id_value doc i raw injected)
          else if CHR '':'' \<in> set s then
            (case from_str (Some s) of
               Inl _ \<Rightarrow> Inl (UnknownAddressError raw)
             | Inr a \<Rightarrow> resolve_node_address_value doc a raw current)
          else if ascii_digits s then
            (case py_int 10 s of
               None \<Rightarrow> Inl EscapedValueError
             | Some i \<Rightarrow> if i \<le> 0 then Inl (UnknownAddressError raw)
                         else resolve_short_id_value doc i raw injected)
          else
            (case uuid_of_string s of
               None \<Rightarrow> Inl (UnknownAddressError raw)
             | Some u \<Rightarrow> validate_node_id_presence doc u raw)
      | RawOther \<Rightarrow> Inl (UnknownAddressError raw))"

record node_address_view =
  short_id_hex :: string
  view_node_id :: string

text \<open>The format \<open>0x{:x}\<close> writes the sign before the digits.\<close>

definition build_node_address_view :: "uuid_argument \<Rightarrow> int \<Rightarrow> node_address_view option" where
  "build_node_address_view node_id short_id =
     map_option (\<lambda>u. \<lparr>short_id_hex = ''0x'' @ (if short_id < 0 then ''-'' @ hex_digits (nat (- short_id))
                                               else hex_digits (nat short_id)),
                      view_node_id = uuid_str u\<rparr>)
     (case node_id of UuidValue u \<Rightarrow> Some u | OtherValue s \<Rightarrow> uuid_of_string s)"

section \<open>External references\<close>

record invalid_reference =
  ref_reason :: address_text_error
  ref_code :: error_code
  ref_layer :: "error_layer_name option"

definition invalid_node_address :: "address_text_error \<Rightarrow> invalid_reference" where
  "invalid_node_address reason =
     \<lparr>ref_reason = reason, ref_code = INVALID_SELECTOR, ref_layer = error_layer INVALID_SELECTOR\<rparr>"

definition is_local :: "node_address \<Rightarrow> bool" where
  "is_local a \<longleftrightarrow> na_document_id a = None"

definition is_external :: "node_address \<Rightarrow> bool" where
  "is_external a \<longleftrightarrow> \<not> is_local a"

definition parse_uuid_segment :: "string \<Rightarrow> invalid_reference + uuid" where
  "parse_uuid_segment segment =
     (if segment = [] then Inl (invalid_node_address EmptySegment)
      else (case uuid_of_string segment of
              None \<Rightarrow> Inl (invalid_node_address InvalidSegment)
            | Some u \<Rightarrow> Inr u))"

definition parse_node_address :: "string option \<Rightarrow> invalid_reference + node_address" where
  "parse_node_address arg =
     (case arg of
        None \<Rightarrow> Inl (invalid_node_address NotAString)
      | Some s \<Rightarrow>
          (case split_on CHR '':'' s of
             [document_part, node_part] \<Rightarrow>
               (case parse_uuid_segment document_part of
                  Inl e \<Rightarrow> Inl e
                | Inr d \<Rightarrow>
                    (case parse_uuid_segment node_part of
                       Inl e \<Rightarrow> Inl e
                     | Inr n \<Rightarrow> Inr \<lparr>na_node_id = n, na_document_id = Some d\<rparr>))
           | parts \<Rightarrow> Inl (invalid_node_address (SeparatorCount (length parts - 1)))))"

definition node_address_to_string ::
  "node_address \<Rightarrow> uuid option \<Rightarrow> invalid_reference + string" where
  "node_address_to_string a current =
     (case (case na_document_id a of Some d \<Rightarrow> Some d | None \<Rightarrow> current) of
        None \<Rightarrow> Inl (invalid_node_address NoDocumentId)
      | Some d \<Rightarrow> Inr (uuid_str d @ '':'' @ uuid_str (na_node_id a)))"

section \<open>The textual form is read back\<close>

lemma split_address [simp]:
  "split_on CHR '':'' (uuid_str d @ CHR '':'' # uuid_str n) = [uuid_str d, uuid_str n]"
  by (simp add: split_on_append split_on_absent)

lemma from_str_to_str: "to_str a = Inr s \<Longrightarrow> from_str (Some s) = Inr a"
  by (cases a) (auto simp: to_str_def from_str_def split: option.splits)

interpretation ext_form: render_parse is_external to_str "\<lambda>s. from_str (Some s)"
proof unfold_locales
  show "\<exists>s. to_str a = Inr s" if "is_external a" for a
    using that by (auto simp: is_external_def is_local_def to_str_def)
qed (rule from_str_to_str)

text \<open>The two parsers are one, up to the class of the error.\<close>

lemma parse_node_address_from_str:
  "parse_node_address x = (case from_str x of Inl e \<Rightarrow> Inl (invalid_node_address e) | Inr a \<Rightarrow> Inr a)
   \<or> (\<exists>s d n. x = Some s \<and> split_on CHR '':'' s = [d, n] \<and> (d = []) \<noteq> (n = [])
        \<and> (\<exists>e. parse_node_address x = Inl (invalid_node_address e)) \<and> from_str x = Inl EmptySegment)"
proof (cases x)
  case (Some s)
  show ?thesis
  proof (cases "\<exists>d n. split_on CHR '':'' s = [d, n]")
    case True
    then obtain d n where "split_on CHR '':'' s = [d, n]" by blast
    then show ?thesis
      using Some by (auto simp: parse_node_address_def from_str_def parse_uuid_segment_def split: option.splits)
  next
    case False
    then have "parse_node_address x = Inl (invalid_node_address (SeparatorCount (length (split_on CHR '':'' s) - 1)))"
      "from_str x = Inl (SeparatorCount (length (split_on CHR '':'' s) - 1))"
      unfolding Some parse_node_address_def from_str_def by (auto split: list.splits)
    then show ?thesis by simp
  qed
qed (simp add: parse_node_address_def from_str_def)

text \<open>
  C35. One grammar: the parser of the addressing layer and the parser of the reference layer
  accept the same texts and read the same address from each; every rejection of the
  latter carries \<open>INVALID_SELECTOR\<close> of the core layer. An accepted text always names its
  document, and what either printer writes for an address is read back by both as that
  address, with the current document filled in where the address was local.
\<close>

theorem address_grammar_is_shared:
  "(\<forall>a. from_str x = Inr a \<longleftrightarrow> parse_node_address x = Inr a)
   \<and> (\<forall>e. parse_node_address x = Inl e \<longrightarrow> ref_code e = INVALID_SELECTOR \<and> ref_layer e = Some CORE)
   \<and> (\<forall>a. parse_node_address x = Inr a \<longrightarrow> is_external a)
   \<and> (\<forall>a s. to_str a = Inr s \<longrightarrow> node_address_to_string a current = Inr s)
   \<and> (\<forall>a s. node_address_to_string a current = Inr s \<longrightarrow>
        from_str (Some s) = Inr (if is_local a then a\<lparr>na_document_id := current\<rparr> else a))"
proof (intro conjI allI impI)
  fix a s
  show "from_str x = Inr a \<longleftrightarrow> parse_node_address x = Inr a"
    using parse_node_address_from_str [of x] by (auto split: sum.splits)
  show "node_address_to_string a current = Inr s" if "to_str a = Inr s"
    using that by (auto simp: to_str_def node_address_to_string_def split: option.splits)
  show "from_str (Some s) = Inr (if is_local a then a\<lparr>na_document_id := current\<rparr> else a)"
    if "node_address_to_string a current = Inr s"
    using that by (cases a) (auto simp: node_address_to_string_def from_str_def is_local_def split: option.splits)
  show "is_external a" if "parse_node_address x = Inr a"
    using that by (auto simp: parse_node_address_def is_external_def is_local_def
        split: option.splits list.splits sum.splits)
next
  fix e
  assume "parse_node_address x = Inl e"
  then have "\<exists>r. e = invalid_node_address r"
    using parse_node_address_from_str [of x] by (auto split: sum.splits)
  then show "ref_code e = INVALID_SELECTOR" and "ref_layer e = Some CORE"
    by (auto simp: invalid_node_address_def) (simp add: error_layer_def ERROR_CODE_LAYER_def)
qed

theorem address_grammar_is_shared_witness:
  "from_str (Some (uuid_str 5 @ '':'' @ uuid_str 7)) = Inr \<lparr>na_node_id = 7, na_document_id = Some 5\<rparr>"
  using address_grammar_is_shared [of None "Some 5"]
  by (auto simp: node_address_to_string_def is_local_def
      dest!: spec [where x = "\<lparr>na_node_id = 7, na_document_id = None\<rparr>"])

section \<open>Every rendering of a node leads back to it\<close>

text \<open>
  A loaded document (\<open>TreeDocument\<close>) as \<open>normalize_node_address\<close> sees it: the keys of its
  node table and its \<open>resolve_short_id\<close>, which consults the short id map.
\<close>

definition tree_resolve_short_id :: "short_id_map \<Rightarrow> int \<Rightarrow> uuid list" where
  "tree_resolve_short_id m short_id = (case get_node_id m short_id of None \<Rightarrow> [] | Some u \<Rightarrow> [u])"

definition tree_document_view :: "uuid set \<Rightarrow> short_id_map \<Rightarrow> address_document" where
  "tree_document_view ids m = \<lparr>known_ids = Some ids, own_resolver = Some (tree_resolve_short_id m)\<rparr>"

lemma uuid_str_plain: "\<not> has_hex_prefix (uuid_str u)" "\<not> ascii_digits (uuid_str u)"
proof -
  have hyphen: "CHR ''-'' \<in> set (uuid_str u)" by (simp add: uuid_str_def Let_def)
  then show "\<not> ascii_digits (uuid_str u)" by (auto simp: ascii_digits_def list_all_iff ccode_def intro!: bexI [OF _ hyphen])
  have "set (take 2 (uuid_str u)) \<subseteq> hex_chars \<union> {CHR ''-''}"
    using uuid_str_chars by (blast dest: in_set_takeD)
  moreover have "CHR ''x'' \<notin> hex_chars \<union> {CHR ''-''}" "CHR ''X'' \<notin> hex_chars \<union> {CHR ''-''}"
    by (simp_all add: hex_chars_def)
  ultimately show "\<not> has_hex_prefix (uuid_str u)"
    unfolding has_hex_prefix_def by (metis in_mono list.set_intros(1,2))
qed

lemma ascii_digits_dec: "ascii_digits (dec_digits n)"
proof -
  have digit: "48 \<le> ccode (hex_char d) \<and> ccode (hex_char d) \<le> 57" if "d < 10" for d
  proof -
    have "\<forall>d \<in> set [0..<10]. 48 \<le> ccode (hex_char d) \<and> ccode (hex_char d) \<le> 57" by code_simp
    then show ?thesis using that by simp
  qed
  have "list_all (\<lambda>c. 48 \<le> ccode c \<and> ccode c \<le> 57) (dec_digits n)"
  proof (induction n rule: dec_digits.induct)
    case (1 n)
    then show ?case by (subst dec_digits.simps) (simp add: digit)
  qed
  then show ?thesis by (simp add: ascii_digits_def)
qed

lemma dec_digits_plain: "CHR '':'' \<notin> set (dec_digits n)" "\<not> has_hex_prefix (dec_digits n)"
proof -
  have all: "c \<in> set (dec_digits n) \<Longrightarrow> 48 \<le> ccode c \<and> ccode c \<le> 57" for c
    using ascii_digits_dec by (auto simp: ascii_digits_def list_all_iff)
  then show "CHR '':'' \<notin> set (dec_digits n)" by (force simp: ccode_def)
  have "CHR ''x'' \<notin> set (take 2 (dec_digits n))" "CHR ''X'' \<notin> set (take 2 (dec_digits n))"
    using all by (force simp: ccode_def dest: in_set_takeD)+
  then show "\<not> has_hex_prefix (dec_digits n)" unfolding has_hex_prefix_def by auto
qed

lemma resolve_tree:
  assumes "sid_inv m" and "get_short_id m n = Some k"
  shows "0 < k" and "resolve_short_id_value (tree_document_view ids m) k raw None = Inr n"
proof -
  have "dict_get (by_short m) k = Some n" and "1 \<le> k"
    using assms sid_invD(4,5) [OF assms(1)] by (auto simp: get_short_id_def)
  then show "0 < k" and "resolve_short_id_value (tree_document_view ids m) k raw None = Inr n"
    by (simp_all add: resolve_short_id_value_def tree_document_view_def tree_resolve_short_id_def get_node_id_def)
qed

text \<open>
  C33. Views lead back: for a node of a loaded document that has a short id, every way the
  engine shows it, the \<open>0x\<close> and the UUID field of its view, the decimal and the integer
  short id, the local and the external address and its printed form, normalizes to the
  node; and no address normalizes to a node outside the document.
\<close>

theorem node_view_leads_back:
  assumes "sid_inv m" and "get_short_id m n = Some k" and "nat k < decimal_bound" and "n \<in> ids"
    and "build_node_address_view (UuidValue n) k = Some v"
    and "r \<in> {RawStr (short_id_hex v), RawStr (view_node_id v), RawStr (py_str_int k), RawInt k, RawUuid n,
      RawNode \<lparr>na_node_id = n, na_document_id = None\<rparr>, RawNode \<lparr>na_node_id = n, na_document_id = Some d\<rparr>,
      RawStr (uuid_str d @ '':'' @ uuid_str n)}"
  shows "normalize_node_address (tree_document_view ids m) r (Some d) None = Inr n"
proof -
  let ?doc = "tree_document_view ids m"
  have k: "0 < k" "\<And>raw. resolve_short_id_value ?doc k raw None = Inr n"
    using resolve_tree [OF assms(1,2)] by blast+
  have here: "validate_node_id_presence ?doc n raw = Inr n" for raw
    using assms(4) by (simp add: validate_node_id_presence_def tree_document_view_def)
  have hex: "py_int 16 (CHR ''0'' # CHR ''x'' # hex_digits (nat k)) = Some k"
    using py_int_0x_hex_digits [of "CHR ''x''" "nat k"] k(1) by simp
  have pre: "\<not> has_hex_prefix (uuid_str d @ '':'' @ uuid_str n)"
  proof -
    have "2 \<le> length (uuid_str d)" by (simp add: uuid_str_def Let_def)
    then have "take 2 (uuid_str d @ '':'' @ uuid_str n) = take 2 (uuid_str d)" by simp
    then show ?thesis using uuid_str_plain(1) [of d] unfolding has_hex_prefix_def by metis
  qed
  have v: "short_id_hex v = CHR ''0'' # CHR ''x'' # hex_digits (nat k)" "view_node_id v = uuid_str n"
    using assms(5) k(1) by (auto simp: build_node_address_view_def)
  have dec: "py_str_int k = dec_digits (nat k)" "py_int 10 (dec_digits (nat k)) = Some k"
    using k(1) py_int_dec_digits [OF assms(3)] by (simp_all add: py_str_int_def)
  have "from_str (Some (uuid_str d @ '':'' @ uuid_str n)) = Inr \<lparr>na_node_id = n, na_document_id = Some d\<rparr>"
    by (rule from_str_to_str) (simp add: to_str_def)
  then show ?thesis
    using assms(6) k here hex pre v dec uuid_str_plain ascii_digits_dec dec_digits_plain
    by (elim insertE emptyE)
      (simp_all add: normalize_node_address_def resolve_node_address_value_def has_hex_prefix_def)
qed

definition example_ids :: short_id_map where
  "example_ids = snd (allocate 7 (new_short_id_map 1))"

lemma example_ids: "sid_inv example_ids" "get_short_id example_ids 7 = Some 1"
  by (simp_all add: example_ids_def allocate_def new_short_id_map_def Let_def sid_inv_def get_short_id_def dict_wf_def)

theorem node_view_leads_back_witness:
  "normalize_node_address (tree_document_view {7} example_ids) (RawStr ''0x1'') (Some 5) None = Inr 7"
proof -
  have view: "build_node_address_view (UuidValue 7) 1 = Some \<lparr>short_id_hex = ''0x1'', view_node_id = uuid_str 7\<rparr>"
    by (simp add: build_node_address_view_def hex_digits.simps hex_char_def)
  have "1 < (10 :: nat) ^ int_max_str_digits"
    by (rule one_less_power) (simp_all add: int_max_str_digits_def)
  then have "nat 1 < decimal_bound" by (simp only: decimal_bound_def nat_one_as_int)
  then show ?thesis
    using node_view_leads_back [OF example_ids _ _ view, of "{7}" "RawStr ''0x1''" 5] by simp
qed



text \<open>A decimal text longer than the interpreter's limit leaves as a plain \<open>ValueError\<close>.\<close>

lemma normalize_long_decimal_escapes:
  "normalize_node_address doc (RawStr (replicate 4301 CHR ''9'')) current f = Inl EscapedValueError"
proof -
  let ?s = "replicate 4301 CHR ''9''"
  have nine: "c = CHR ''9''" if "c \<in> set ?s" for c using that by (auto simp: in_set_replicate)
  have "take 2 ?s = ''99''" by (simp add: numeral_eq_Suc)
  then have "\<not> has_hex_prefix ?s" by (simp add: has_hex_prefix_def)
  moreover have "CHR '':'' \<notin> set ?s" using nine by fastforce
  moreover have "ascii_digits ?s" using nine by (auto simp: ascii_digits_def list_all_iff ccode_def)
  moreover have "py_int 10 ?s = None"
  proof -
    have "py_strip is_space ?s = ?s" using nine by (intro py_strip_none) (auto simp: is_space_def ccode_def)
    moreover have "int_sign ?s = (False, ?s)" by (simp add: int_sign_def numeral_eq_Suc)
    moreover have "int_prefix 10 ?s = ?s" by (simp add: int_prefix_def split: list.splits)
    moreover have "filter (\<lambda>c. c \<noteq> CHR ''_'') ?s = ?s" using nine by (intro filter_True) auto
    ultimately show ?thesis by (simp add: py_int_def int_too_long_def int_max_str_digits_def)
  qed
  ultimately show ?thesis by (simp add: normalize_node_address_def)
qed

section \<open>Replacing an id\<close>

lemma dict_rename_values:
  "dict_get d a = Some v \<Longrightarrow> dict_get d b = None \<Longrightarrow>
   dict_get (dict_set b v (dict_del a d)) k = (if k = b then Some v else if k = a then None else dict_get d k)"
  by (auto simp: dict_simps)

text \<open>
  C27. Replacing a node's id is atomic: on any failure the document is exactly as before. On
  success the new id is a UUID4 that was free, it now leads to the object the old id led
  to, the old id leads nowhere, every other key keeps its object, only that object changes
  and it keeps its short id; the remap names both ids in the document.
\<close>

theorem replace_node_id_is_atomic:
  assumes "replace_node_id old new doc = (res, doc')"
  shows "case res of
      Inl _ \<Rightarrow> doc' = doc
    | Inr r \<Rightarrow> \<exists>nodes nodes' obj. id_nodes_by_id doc = Some nodes \<and> id_nodes_by_id doc' = Some nodes'
        \<and> dict_get nodes old = Some obj
        \<and> (let u = na_node_id (remap_new r) in is_uuid4 u \<and> dict_get nodes u = None \<and> u \<noteq> old
            \<and> (\<forall>k. dict_get nodes' k = (if k = u then Some obj else if k = old then None else dict_get nodes k)))
        \<and> (\<forall>o'. o' \<noteq> obj \<longrightarrow> id_objects doc' o' = id_objects doc o')
        \<and> at_short_id (id_objects doc' obj) = at_short_id (id_objects doc obj)
        \<and> na_node_id (remap_old r) = old \<and> na_document_id (remap_old r) = id_document_id doc
        \<and> na_document_id (remap_new r) = id_document_id doc \<and> id_document_id doc' = id_document_id doc
        \<and> (dict_wf nodes \<longrightarrow> dict_wf nodes')"
proof (cases res)
  case (Inl e)
  then show ?thesis
    using assms by (auto simp: replace_node_id_def Let_def split: option.splits sum.splits if_splits)
next
  case (Inr r)
  obtain nodes where nodes: "id_nodes_by_id doc = Some nodes"
    using assms Inr by (cases "id_nodes_by_id doc") (auto simp: replace_node_id_def)
  obtain u where u: "validate_uuid4 new = Inr u"
    using assms Inr nodes by (cases "validate_uuid4 new") (auto simp: replace_node_id_def)
  obtain obj where obj: "dict_get nodes old = Some obj"
    using assms Inr nodes u by (cases "dict_get nodes old") (auto simp: replace_node_id_def)
  have free: "dict_get nodes u = None"
    using assms Inr nodes u obj by (auto simp: replace_node_id_def split: if_splits)
  have r: "remap_new r = \<lparr>na_node_id = u, na_document_id = id_document_id doc\<rparr>"
    "remap_old r = \<lparr>na_node_id = old, na_document_id = id_document_id doc\<rparr>"
    and doc': "id_nodes_by_id doc' = Some (dict_set u obj (dict_del old nodes))"
    "id_document_id doc' = id_document_id doc"
    "\<And>o'. o' \<noteq> obj \<Longrightarrow> id_objects doc' o' = id_objects doc o'"
    "at_short_id (id_objects doc' obj) = at_short_id (id_objects doc obj)"
    using assms Inr nodes u obj free by (auto simp: replace_node_id_def Let_def)
  have "is_uuid4 u"
    using u by (auto simp: validate_uuid4_def is_uuid4_def split: option.splits if_splits)
  then show ?thesis
    using Inr nodes obj free r doc' dict_rename_values [OF obj free] by auto
qed

theorem replace_node_id_is_atomic_witness:
  "\<exists>r doc'. replace_node_id 1 (UuidValue (push_bit 78 1 + push_bit 63 1))
       \<lparr>id_nodes_by_id = Some [(1, 0)], id_document_id = None,
         id_objects = \<lambda>_. \<lparr>at_node_id = Writable 1, at_generation = Writable 3, at_short_id = Some 1\<rparr>\<rparr> = (Inr r, doc')
     \<and> at_short_id (id_objects doc' 0) = Some 1"
proof -
  let ?u = "push_bit 78 1 + push_bit 63 1 :: uuid"
  let ?n = "\<lparr>at_node_id = Writable 1, at_generation = Writable 3, at_short_id = Some 1\<rparr>"
  let ?doc = "\<lparr>id_nodes_by_id = Some [(1, 0)], id_document_id = None, id_objects = \<lambda>_. ?n\<rparr>"
  have "uuid_version ?u = Some 4" "?u \<noteq> 1" by (simp_all add: uuid_version_def)
  then obtain r doc' where run: "replace_node_id 1 (UuidValue ?u) ?doc = (Inr r, doc')"
    by (simp add: replace_node_id_def validate_uuid4_def Let_def)
  from replace_node_id_is_atomic [OF this] have "at_short_id (id_objects doc' 0) = Some 1" by auto
  with run show ?thesis by blast
qed

end
