(* ===== verification/Json_Pointer.thy ===== *)
theory Json_Pointer
  imports Python_Std
begin

text \<open>
  \<open>tree_engine/plugins/json_pointer.py\<close>: the notation of RFC 6901 (escaping, joining,
  splitting) and the walk that builds both directions of a document's pointer index from the
  \<open>step\<close> function of a format plugin, which is a parameter.
\<close>

section \<open>The notation\<close>

datatype pointer_error = PointerNotAString | PointerNoSlash string

definition escape_token :: "string \<Rightarrow> string" where
  "escape_token token = py_replace ''/'' ''~1'' (py_replace ''~'' ''~0'' token)"

definition unescape_token :: "string \<Rightarrow> string" where
  "unescape_token token = py_replace ''~0'' ''~'' (py_replace ''~1'' ''/'' token)"

definition build_pointer :: "string list \<Rightarrow> string" where
  "build_pointer tokens = concat (map (\<lambda>t. CHR ''/'' # t) tokens)"

text \<open>The argument is a \<open>str\<close>, or \<open>None\<close> for a value of another type.\<close>

definition parse_pointer :: "string option \<Rightarrow> pointer_error + string list" where
  "parse_pointer arg =
     (case arg of
        None \<Rightarrow> Inl PointerNotAString
      | Some [] \<Rightarrow> Inr []
      | Some (c # cs) \<Rightarrow>
          if c \<noteq> CHR ''/'' then Inl (PointerNoSlash (c # cs))
          else Inr (map unescape_token (split_on CHR ''/'' cs)))"

section \<open>The index\<close>

record pointer_index =
  px_by_node :: "(uuid, string) pydict"
  px_by_pointer :: "(string, uuid) pydict"
  px_ambiguous :: "string list"

definition ref_for :: "pointer_index \<Rightarrow> uuid \<Rightarrow> string option" where
  "ref_for ix n = dict_get (px_by_node ix) n"

definition node_for :: "pointer_index \<Rightarrow> string \<Rightarrow> uuid option" where
  "node_for ix p = dict_get (px_by_pointer ix) p"

text \<open>
  A tree of the common model as the walk sees it: a node's own data, with its \<open>node_id\<close> if
  that is a UUID, and its children.
\<close>

datatype 'a ptree = PNode (pt_data: 'a) (pt_id: "uuid option") (pt_children: "'a ptree list")

type_synonym 'a pointer_step = "'a ptree \<Rightarrow> 'a ptree \<Rightarrow> nat \<Rightarrow> (string list \<times> bool) option"

fun pointer_walk :: "'a pointer_step \<Rightarrow> 'a ptree \<Rightarrow> string list \<Rightarrow> bool \<Rightarrow> (uuid option \<times> string) list"
  and pointer_walk_children ::
    "'a pointer_step \<Rightarrow> 'a ptree \<Rightarrow> 'a ptree list \<Rightarrow> nat \<Rightarrow> string list \<Rightarrow> (uuid option \<times> string) list" where
  "pointer_walk step (PNode a n children) tokens addressable =
     (if addressable then [(n, build_pointer tokens)] else [])
     @ pointer_walk_children step (PNode a n children) children 0 tokens"
| "pointer_walk_children step parent [] ordinal tokens = []"
| "pointer_walk_children step parent (child # children) ordinal tokens =
     (case step parent child ordinal of
        None \<Rightarrow> pointer_walk_children step parent children ordinal tokens
      | Some (child_tokens, child_addressable) \<Rightarrow>
          (let escaped = map escape_token child_tokens
           in pointer_walk step child (tokens @ escaped) child_addressable
              @ pointer_walk_children step parent children
                  (if escaped \<noteq> [] then ordinal + 1 else ordinal) tokens))"

fun pointer_index_loop ::
  "(uuid option \<times> string) list \<Rightarrow> string set \<Rightarrow> pointer_index \<Rightarrow> pointer_index" where
  "pointer_index_loop [] seen ix = ix"
| "pointer_index_loop ((n, pointer) # claims) seen ix =
     (case n of
        None \<Rightarrow> pointer_index_loop claims seen ix
      | Some node_id \<Rightarrow>
          if pointer \<in> seen then
            (let by_node = (case dict_get (px_by_pointer ix) pointer of
                              None \<Rightarrow> px_by_node ix
                            | Some owner \<Rightarrow> dict_del owner (px_by_node ix))
             in pointer_index_loop claims seen
                  (ix\<lparr>px_ambiguous := (if pointer \<in> set (px_ambiguous ix) then px_ambiguous ix
                                       else px_ambiguous ix @ [pointer]),
                      px_by_pointer := dict_del pointer (px_by_pointer ix),
                      px_by_node := dict_del node_id by_node\<rparr>))
          else pointer_index_loop claims (insert pointer seen)
                 (ix\<lparr>px_by_node := dict_set node_id pointer (px_by_node ix),
                     px_by_pointer := dict_set pointer node_id (px_by_pointer ix)\<rparr>))"

definition build_index :: "'a pointer_step \<Rightarrow> bool \<Rightarrow> 'a ptree \<Rightarrow> pointer_index" where
  "build_index step root_addressable root =
     pointer_index_loop (pointer_walk step root [] root_addressable) {}
       \<lparr>px_by_node = [], px_by_pointer = [], px_ambiguous = []\<rparr>"

section \<open>Escaping is undone by unescaping\<close>

lemma replace_char: "py_replace [c] new s = concat (map (\<lambda>x. if x = c then new else [x]) s)"
  by (induction s) (subst py_replace.simps, simp)+

lemma escape_Nil [simp]: "escape_token [] = []"
  by (simp add: escape_token_def replace_char)

lemma escape_Cons:
  "escape_token (c # s) = (if c = CHR ''~'' then ''~0'' else if c = CHR ''/'' then ''~1'' else [c]) @ escape_token s"
  by (simp add: escape_token_def replace_char)

lemma escape_no_slash: "CHR ''/'' \<notin> set (escape_token t)"
  by (induction t) (auto simp: escape_Cons)

lemma escape_no_one: "escape_token t \<noteq> [] \<Longrightarrow> hd (escape_token t) = c \<Longrightarrow>
    take 2 (CHR ''0'' # escape_token t) \<noteq> ''~1''"
  by simp

lemma unescape_one:
  "py_replace ''~1'' ''/'' (escape_token t) = concat (map (\<lambda>x. if x = CHR ''~'' then ''~0'' else [x]) t)"
proof (induction t)
  case Nil
  then show ?case by (subst py_replace.simps) simp
next
  case (Cons c t)
  let ?r = "py_replace ''~1'' ''/''"
  have plain: "?r (x # s) = x # ?r s" if "x \<noteq> CHR ''~''" for x s
    using that by (subst py_replace.simps) simp
  consider "c = CHR ''~''" | "c = CHR ''/''" | "c \<noteq> CHR ''~''" "c \<noteq> CHR ''/''" by blast
  then show ?case
  proof cases
    case 1
    have "?r (CHR ''~'' # CHR ''0'' # escape_token t) = CHR ''~'' # ?r (CHR ''0'' # escape_token t)"
      by (subst py_replace.simps) simp
    then show ?thesis using 1 Cons plain by (simp add: escape_Cons)
  next
    case 2
    have "?r (CHR ''~'' # CHR ''1'' # escape_token t) = CHR ''/'' # ?r (escape_token t)"
      by (subst py_replace.simps) simp
    then show ?thesis using 2 Cons by (simp add: escape_Cons)
  next
    case 3
    then show ?thesis using Cons plain by (simp add: escape_Cons)
  qed
qed

lemma unescape_escape [simp]: "unescape_token (escape_token t) = t"
proof -
  let ?r = "py_replace ''~0'' ''~''"
  have "?r (concat (map (\<lambda>x. if x = CHR ''~'' then ''~0'' else [x]) t)) = t"
  proof (induction t)
    case Nil
    then show ?case by (subst py_replace.simps) simp
  next
    case (Cons c t)
    show ?case using Cons by (cases "c = CHR ''~''") (subst py_replace.simps, simp)+
  qed
  then show ?thesis by (simp add: unescape_token_def unescape_one)
qed

lemma split_pointer:
  "\<forall>t \<in> set ts. CHR ''/'' \<notin> set t \<Longrightarrow> ts \<noteq> [] \<Longrightarrow> split_on CHR ''/'' (tl (build_pointer ts)) = ts"
proof (induction ts)
  case (Cons t ts)
  show ?case
  proof (cases ts)
    case Nil
    then show ?thesis using Cons.prems by (simp add: build_pointer_def split_on_absent)
  next
    case (Cons u us)
    then have "tl (build_pointer (t # ts)) = t @ CHR ''/'' # tl (build_pointer ts)"
      by (simp add: build_pointer_def)
    then show ?thesis using Cons.prems Cons.IH \<open>ts = u # us\<close> by (simp add: split_on_append)
  qed
qed simp

lemma parse_build: "parse_pointer (Some (build_pointer (map escape_token ts))) = Inr ts"
proof (cases ts)
  case (Cons t us)
  have "split_on CHR ''/'' (tl (build_pointer (map escape_token ts))) = map escape_token ts"
    using escape_no_slash Cons by (intro split_pointer) auto
  moreover have "build_pointer (map escape_token ts) = CHR ''/'' # tl (build_pointer (map escape_token ts))"
    by (simp add: Cons build_pointer_def)
  ultimately show ?thesis
    unfolding parse_pointer_def by (auto simp: comp_def split: list.splits)
qed (simp add: parse_pointer_def build_pointer_def)

interpretation pointer: render_parse "\<lambda>_. True" "\<lambda>ts. Inr (build_pointer (map escape_token ts))"
  "\<lambda>s. parse_pointer (Some s)"
  by unfold_locales (auto simp: parse_build)

text \<open>
  Pointers are faithful: whatever characters the tokens contain, slashes and tildes
  included, the pointer built from their escaped forms parses back to exactly these tokens,
  so different paths have different pointers.
\<close>

theorem pointer_roundtrip:
  "parse_pointer (Some (build_pointer (map escape_token ts))) = Inr ts
   \<and> (build_pointer (map escape_token ts) = build_pointer (map escape_token us) \<longleftrightarrow> ts = us)"
  using parse_build pointer.render_inj [of ts us] by auto

section \<open>The index is a partial bijection\<close>

fun claimants :: "(uuid option \<times> string) list \<Rightarrow> string \<Rightarrow> uuid list" where
  "claimants [] p = []"
| "claimants ((n, q) # claims) p =
     (case n of Some u \<Rightarrow> if q = p then u # claimants claims p else claimants claims p
      | None \<Rightarrow> claimants claims p)"

fun claiming :: "(uuid option \<times> string) list \<Rightarrow> uuid list" where
  "claiming [] = []"
| "claiming ((n, _) # claims) = (case n of Some u \<Rightarrow> u # claiming claims | None \<Rightarrow> claiming claims)"

lemma claimants_append [simp]: "claimants (cs @ ds) p = claimants cs p @ claimants ds p"
  by (induction cs) (auto split: option.splits)

lemma claiming_append [simp]: "claiming (cs @ ds) = claiming cs @ claiming ds"
  by (induction cs) (auto split: option.splits)

definition index_shows :: "(uuid option \<times> string) list \<Rightarrow> string set \<Rightarrow> pointer_index \<Rightarrow> bool" where
  "index_shows claims seen ix \<longleftrightarrow> seen = {p. claimants claims p \<noteq> []}
     \<and> (\<forall>p n. node_for ix p = Some n \<longleftrightarrow> claimants claims p = [n])
     \<and> (\<forall>p n. ref_for ix n = Some p \<longleftrightarrow> claimants claims p = [n])
     \<and> (\<forall>p. p \<in> set (px_ambiguous ix) \<longleftrightarrow> 2 \<le> length (claimants claims p))"

lemma claimants_claiming: "n \<in> set (claimants claims p) \<Longrightarrow> n \<in> set (claiming claims)"
  by (induction claims) (auto split: option.splits if_splits)

lemma claimed_once:
  "distinct (claiming claims) \<Longrightarrow> n \<in> set (claimants claims p) \<Longrightarrow> n \<in> set (claimants claims q) \<Longrightarrow> p = q"
  by (induction claims) (auto split: option.splits if_splits dest: claimants_claiming)

lemma index_shows_step:
  assumes ix: "index_shows past seen ix" and dist: "distinct (claiming (past @ [(Some n, p)]))"
  shows "p \<in> seen \<Longrightarrow> index_shows (past @ [(Some n, p)]) seen
      (ix\<lparr>px_ambiguous := (if p \<in> set (px_ambiguous ix) then px_ambiguous ix else px_ambiguous ix @ [p]),
          px_by_pointer := dict_del p (px_by_pointer ix),
          px_by_node := dict_del n (case dict_get (px_by_pointer ix) p of
             None \<Rightarrow> px_by_node ix | Some owner \<Rightarrow> dict_del owner (px_by_node ix))\<rparr>)"
    and "p \<notin> seen \<Longrightarrow> index_shows (past @ [(Some n, p)]) (insert p seen)
      (ix\<lparr>px_by_node := dict_set n p (px_by_node ix), px_by_pointer := dict_set p n (px_by_pointer ix)\<rparr>)"
proof -
  let ?past = "past @ [(Some n, p)]"
  have old: "seen = {p. claimants past p \<noteq> []}"
    "\<And>p n. dict_get (px_by_pointer ix) p = Some n \<longleftrightarrow> claimants past p = [n]"
    "\<And>p n. dict_get (px_by_node ix) n = Some p \<longleftrightarrow> claimants past p = [n]"
    "\<And>p. p \<in> set (px_ambiguous ix) \<longleftrightarrow> 2 \<le> length (claimants past p)"
    using ix by (simp_all add: index_shows_def node_for_def ref_for_def)
  have new: "claimants ?past q = (if q = p then claimants past p @ [n] else claimants past q)" for q
    by simp
  have fresh: "claimants past q \<noteq> [n]" for q
    using dist claimants_claiming [of n past q] by auto
  show "index_shows ?past (insert p seen)
      (ix\<lparr>px_by_node := dict_set n p (px_by_node ix), px_by_pointer := dict_set p n (px_by_pointer ix)\<rparr>)"
    if "p \<notin> seen"
  proof -
    have none: "claimants past p = []" using that old(1) by blast
    show ?thesis
      unfolding index_shows_def node_for_def ref_for_def new
      using none fresh by (auto simp: dict_simps old )
  qed
  show "index_shows ?past seen
      (ix\<lparr>px_ambiguous := (if p \<in> set (px_ambiguous ix) then px_ambiguous ix else px_ambiguous ix @ [p]),
          px_by_pointer := dict_del p (px_by_pointer ix),
          px_by_node := dict_del n (case dict_get (px_by_pointer ix) p of
             None \<Rightarrow> px_by_node ix | Some owner \<Rightarrow> dict_del owner (px_by_node ix))\<rparr>)"
    if "p \<in> seen"
  proof -
    let ?by = "case dict_get (px_by_pointer ix) p of
      None \<Rightarrow> px_by_node ix | Some owner \<Rightarrow> dict_del owner (px_by_node ix)"
    have some: "claimants past p \<noteq> []" using that old(1) by blast
    have by_node: "dict_get ?by m = Some q \<longleftrightarrow> q \<noteq> p \<and> claimants past q = [m]" for m q
    proof (cases "dict_get (px_by_pointer ix) p")
      case None
      then have "claimants past p \<noteq> [m]" for m using old(2) by (metis option.distinct(1))
      then show ?thesis using None old(3) by auto
    next
      case (Some owner)
      then have owner: "claimants past p = [owner]" using old(2) by blast
      have only: "q = p" if "claimants past q = [owner]"
        using claimed_once [of past owner p q] dist that owner by simp
      have other: "m = owner" if "q = p" "claimants past q = [m]"
        using that owner by simp
      show ?thesis
        using only other old(3) [of m q] by (cases "m = owner") (auto simp: Some dict_simps)
    qed
    have "0 < length (claimants past p)" using some by simp
    then have two: "2 \<le> length (claimants past p @ [n])" by (simp add: Suc_le_eq)
    then have not_one: "claimants past p @ [n] \<noteq> [m]" for m by (metis One_nat_def Suc_1 Suc_n_not_le_n length_Cons list.size(3))
    have by_node': "dict_get (dict_del n ?by) m = Some q \<longleftrightarrow> claimants ?past q = [m]" for m q
      using by_node [of m q] not_one [of m] fresh [of q] by (auto simp: dict_simps new)
    have by_pointer: "dict_get (dict_del p (px_by_pointer ix)) q = Some m \<longleftrightarrow> claimants ?past q = [m]" for m q
      using old(2) [of q m] not_one [of m] by (auto simp: dict_simps new)
    have ambiguous: "q \<in> set (if p \<in> set (px_ambiguous ix) then px_ambiguous ix else px_ambiguous ix @ [p])
        \<longleftrightarrow> 2 \<le> length (claimants ?past q)" for q
      using old(4) [of q] old(4) [of p] two by (auto simp: new)
    have "seen = {q. claimants ?past q \<noteq> []}"
      using old(1) some by (auto simp: new)
    then show ?thesis
      by (simp add: index_shows_def node_for_def ref_for_def by_node' by_pointer ambiguous
          del: claimants_append)
  qed
qed

lemma index_loop_shows:
  assumes "index_shows past seen ix" and "distinct (claiming (past @ claims))"
  shows "\<exists>seen'. index_shows (past @ claims) seen' (pointer_index_loop claims seen ix)"
  using assms
proof (induction claims arbitrary: past seen ix)
  case (Cons c claims)
  obtain m p where c: "c = (m, p)" by (cases c)
  show ?case
  proof (cases m)
    case None
    have "index_shows (past @ [c]) seen ix" using Cons.prems(1) by (simp add: index_shows_def c None)
    from Cons.IH [OF this] show ?thesis using Cons.prems(2) by (simp add: c None)
  next
    case (Some n)
    have dist: "distinct (claiming (past @ [(Some n, p)]))" using Cons.prems(2) by (auto simp: c Some)
    show ?thesis
    proof (cases "p \<in> seen")
      case True
      from Cons.IH [OF index_shows_step(1) [OF Cons.prems(1) dist this]]
      show ?thesis using Cons.prems(2) True by (simp add: c Some Let_def)
    next
      case False
      from Cons.IH [OF index_shows_step(2) [OF Cons.prems(1) dist this]]
      show ?thesis using Cons.prems(2) False by (simp add: c Some Let_def)
    qed
  qed
qed auto

text \<open>
  C36. The index is exact: over a tree whose walk meets no \<open>node_id\<close> twice, a pointer leads
  to a node precisely when that node alone claims it, the other direction says the same,
  and the pointers several nodes claim are precisely those reported as ambiguous. So the
  two directions are inverse to each other and no pointer ever names one of two nodes.
\<close>

theorem pointer_index_is_exact:
  assumes "distinct (claiming (pointer_walk step root [] addressable))"
  shows "(node_for (build_index step addressable root) p = Some n
            \<longleftrightarrow> claimants (pointer_walk step root [] addressable) p = [n])
    \<and> (ref_for (build_index step addressable root) n = Some p
            \<longleftrightarrow> node_for (build_index step addressable root) p = Some n)
    \<and> (p \<in> set (px_ambiguous (build_index step addressable root))
            \<longleftrightarrow> 2 \<le> length (claimants (pointer_walk step root [] addressable) p))"
proof -
  have "index_shows [] {} \<lparr>px_by_node = [], px_by_pointer = [], px_ambiguous = []\<rparr>"
    by (simp add: index_shows_def node_for_def ref_for_def)
  then have "\<exists>seen. index_shows (pointer_walk step root [] addressable) seen (build_index step addressable root)"
    using index_loop_shows [of "[]"] assms by (simp add: build_index_def)
  then show ?thesis by (auto simp: index_shows_def)
qed

text \<open>A sequence of three members of which the last two claim the same key.\<close>

definition example_step :: "string pointer_step" where
  "example_step parent child ordinal = Some ([pt_data child], True)"

definition example_tree :: "string ptree" where
  "example_tree = PNode [] (Some 1) [PNode ''a/b'' (Some 2) [], PNode ''k'' (Some 3) [], PNode ''k'' (Some 4) []]"

theorem pointer_index_is_exact_witness:
  "node_for (build_index example_step True example_tree) ''/a~1b'' = Some 2
   \<and> ''/k'' \<in> set (px_ambiguous (build_index example_step True example_tree))"
proof -
  have walk: "pointer_walk example_step example_tree [] True
      = [(Some 1, []), (Some 2, ''/a~1b''), (Some 3, ''/k''), (Some 4, ''/k'')]"
    by (simp add: example_tree_def example_step_def escape_Cons build_pointer_def)
  then show ?thesis
    using pointer_index_is_exact [of example_step example_tree True "''/a~1b''" 2]
      pointer_index_is_exact [of example_step example_tree True "''/k''" 3] by simp
qed

end
