(* ===== verification/Identifier_Map.thy ===== *)
theory Identifier_Map
  imports Address Json_Pointer
begin

text \<open>
  \<open>tree_engine/core/identifier_map.py\<close>: the correspondence of a node's short id, its UUID and
  the native reference of its format, with the reference index cached per document version.
  The notation a plugin declares is a parameter; what the map relies on is the locale
  \<open>reference_notation\<close>, and JSON pointers are one.
\<close>

section \<open>Declarations of plugins\<close>

datatype identifier_style = SHORT_ID | NODE_ID

record node_identifiers =
  ni_node_id :: uuid
  ni_short_id :: int
  ni_ref :: "string option"
  ni_notation :: "string option"
  ni_style :: identifier_style

datatype reported_id = ReportedInt int | ReportedStr string

definition reported :: "node_identifiers \<Rightarrow> reported_id" where
  "reported r = (case ni_style r of SHORT_ID \<Rightarrow> ReportedInt (ni_short_id r)
     | NODE_ID \<Rightarrow> ReportedStr (uuid_str (ni_node_id r)))"

definition identifiers_with_style :: "identifier_style \<Rightarrow> node_identifiers \<Rightarrow> node_identifiers" where
  "identifiers_with_style style r = r\<lparr>ni_style := style\<rparr>"

record 'r ref_notation =
  nt_name :: string
  nt_index :: "'r \<Rightarrow> pointer_index"

text \<open>
  What a plugin publishes as \<open>native_reference\<close>: \<open>None\<close> for nothing; a \<open>notation\<close> that is
  not a string, or an \<open>index\<close> that cannot be called, is \<open>None\<close> in its slot.
\<close>

record 'r plugin_decl =
  dc_notation :: "string option"
  dc_index :: "('r \<Rightarrow> pointer_index) option"

definition native_reference_of :: "'r plugin_decl option \<Rightarrow> 'r ref_notation option" where
  "native_reference_of plugin =
     (case plugin of
        None \<Rightarrow> None
      | Some d \<Rightarrow>
          (case dc_notation d of
             None \<Rightarrow> None
           | Some name \<Rightarrow> map_option (\<lambda>f. \<lparr>nt_name = name, nt_index = f\<rparr>) (dc_index d)))"

section \<open>The map\<close>

text \<open>
  What the map reads of a live document. A node is its \<open>short_id\<close>, \<open>None\<close> when that is not
  an integer.
\<close>

record 'r map_document =
  md_document_id :: "uuid option"
  md_version :: int
  md_root :: 'r
  md_nodes_by_id :: "(uuid, int option) pydict"
  md_short_id_map :: short_id_map

record 'r identifier_map =
  im_style :: identifier_style
  im_plugin :: "'r plugin_decl option"
  im_notation :: "'r ref_notation option"
  im_index :: "pointer_index option"
  im_indexed_version :: "int option"

definition new_identifier_map :: "'r plugin_decl option \<Rightarrow> identifier_style \<Rightarrow> 'r identifier_map" where
  "new_identifier_map plugin style =
     \<lparr>im_style = style, im_plugin = plugin, im_notation = native_reference_of plugin,
      im_index = None, im_indexed_version = None\<rparr>"

definition map_notation :: "'r identifier_map \<Rightarrow> string option" where
  "map_notation im = map_option nt_name (im_notation im)"

definition map_with_style :: "identifier_style \<Rightarrow> 'r identifier_map \<Rightarrow> 'r identifier_map" where
  "map_with_style style im = new_identifier_map (im_plugin im) style"

definition current_index :: "'r map_document \<Rightarrow> 'r identifier_map \<Rightarrow> pointer_index option \<times> 'r identifier_map" where
  "current_index doc im =
     (case im_notation im of
        None \<Rightarrow> (None, im)
      | Some nt \<Rightarrow>
          (let im' = (if im_index im = None \<or> im_indexed_version im \<noteq> Some (md_version doc)
                      then im\<lparr>im_index := Some (nt_index nt (md_root doc)),
                              im_indexed_version := Some (md_version doc)\<rparr>
                      else im)
           in (im_index im', im')))"

definition map_ref_for :: "'r map_document \<Rightarrow> uuid \<Rightarrow> 'r identifier_map \<Rightarrow> string option \<times> 'r identifier_map" where
  "map_ref_for doc node_id im =
     (case current_index doc im of
        (None, im') \<Rightarrow> (None, im')
      | (Some ix, im') \<Rightarrow> (ref_for ix node_id, im'))"

definition node_for_ref :: "'r map_document \<Rightarrow> raw_address \<Rightarrow> 'r identifier_map \<Rightarrow> uuid option \<times> 'r identifier_map" where
  "node_for_ref doc ref im =
     (case current_index doc im of
        (None, im') \<Rightarrow> (None, im')
      | (Some ix, im') \<Rightarrow> (case ref of RawStr s \<Rightarrow> (node_for ix s, im') | _ \<Rightarrow> (None, im')))"

definition map_resolve ::
  "'r map_document \<Rightarrow> raw_address \<Rightarrow> 'r identifier_map \<Rightarrow> (node_address_error + uuid) \<times> 'r identifier_map" where
  "map_resolve doc address im =
     (case normalize_node_address
             (tree_document_view (set (dict_keys (md_nodes_by_id doc))) (md_short_id_map doc)) address
             (md_document_id doc) (Some (tree_resolve_short_id (md_short_id_map doc))) of
        Inr u \<Rightarrow> (Inr u, im)
      | Inl EscapedValueError \<Rightarrow> (Inl EscapedValueError, im)
      | Inl e \<Rightarrow>
          (case node_for_ref doc address im of
             (None, im') \<Rightarrow> (Inl e, im')
           | (Some u, im') \<Rightarrow> (Inr u, im')))"

definition map_identifiers ::
  "'r map_document \<Rightarrow> raw_address \<Rightarrow> 'r identifier_map \<Rightarrow>
   (node_address_error + node_identifiers) \<times> 'r identifier_map" where
  "map_identifiers doc address im =
     (case map_resolve doc address im of
        (Inl e, im') \<Rightarrow> (Inl e, im')
      | (Inr u, im') \<Rightarrow>
          (case dict_get (md_nodes_by_id doc) u of
             Some (Some short_id) \<Rightarrow>
               (case map_ref_for doc u im' of
                  (r, im'') \<Rightarrow>
                    (Inr \<lparr>ni_node_id = u, ni_short_id = short_id, ni_ref = r,
                          ni_notation = map_notation im'', ni_style = im_style im''\<rparr>, im''))
           | _ \<Rightarrow> (Inl (UnknownAddressError address), im')))"

definition report ::
  "'r map_document \<Rightarrow> raw_address \<Rightarrow> 'r identifier_map \<Rightarrow>
   (node_address_error + reported_id) \<times> 'r identifier_map" where
  "report doc address im =
     (case map_identifiers doc address im of (Inl e, im') \<Rightarrow> (Inl e, im') | (Inr r, im') \<Rightarrow> (Inr (reported r), im'))"

text \<open>
  \<open>entries\<close>: comparing a missing short id with another value is a \<open>TypeError\<close>; with a single
  node nothing is compared.
\<close>

datatype entries_error = EntriesTypeError | EntriesAddressError node_address_error

fun entries_loop ::
  "'r map_document \<Rightarrow> uuid list \<Rightarrow> node_identifiers list \<Rightarrow> 'r identifier_map \<Rightarrow>
   (entries_error + node_identifiers list) \<times> 'r identifier_map" where
  "entries_loop doc [] acc im = (Inr acc, im)"
| "entries_loop doc (u # us) acc im =
     (case map_identifiers doc (RawUuid u) im of
        (Inl e, im') \<Rightarrow> (Inl (EntriesAddressError e), im')
      | (Inr r, im') \<Rightarrow> entries_loop doc us (acc @ [r]) im')"

definition map_entries ::
  "'r map_document \<Rightarrow> 'r identifier_map \<Rightarrow> (entries_error + node_identifiers list) \<times> 'r identifier_map" where
  "map_entries doc im =
     (let nodes = md_nodes_by_id doc
      in if 1 < length nodes \<and> list_ex (\<lambda>(_, s). s = None) nodes then (Inl EntriesTypeError, im)
         else entries_loop doc (map fst (sort_key (\<lambda>(_, s). case s of Some i \<Rightarrow> i | None \<Rightarrow> 0) nodes)) [] im)"

section \<open>Interface: a notation for references\<close>

text \<open>
  What a native reference must be for the map to treat it as an identifier: the two
  directions of the index agree, and no reference could be taken for another address form.
\<close>

definition pointer_like :: "string \<Rightarrow> bool" where
  "pointer_like p \<longleftrightarrow> p = [] \<or> hd p = CHR ''/''"

lemma replace_keeps_head: "c \<noteq> hd old \<Longrightarrow> old \<noteq> [] \<Longrightarrow> py_replace old new (c # s) = c # py_replace old new s"
  by (subst py_replace.simps) (auto simp: neq_Nil_conv)

lemma strip_keeps_head: "\<not> P c \<Longrightarrow> \<exists>t. py_strip P (c # s) = c # t"
proof -
  assume c: "\<not> P c"
  have "\<exists>t. dropWhile P (rev s @ [c]) = t @ [c]"
    using c by (induction "rev s" arbitrary: s) (auto simp: dropWhile_append)
  then obtain t where "dropWhile P (rev s @ [c]) = t @ [c]" by blast
  then have "py_strip P (c # s) = c # rev t" using c by (simp add: py_strip_def)
  then show ?thesis by blast
qed

lemma slash_not_int: "py_int 16 (CHR ''/'' # s) = None"
proof -
  have "\<not> is_space CHR ''/''" by (simp add: is_space_def ccode_def)
  then obtain t where "py_strip is_space (CHR ''/'' # s) = CHR ''/'' # t"
    using strip_keeps_head by blast
  then show ?thesis
    by (cases t) (auto simp: py_int_def int_sign_def int_prefix_def digit_value_def ccode_def Let_def)
qed

lemma slash_not_uuid: "pointer_like p \<Longrightarrow> uuid_of_string p = None"
proof (cases p)
  case Nil
  have "py_replace x [] [] = []" for x :: string by (subst py_replace.simps) simp
  then show ?thesis by (simp add: Nil uuid_of_string_def py_strip_def)
next
  case (Cons c s)
  assume "pointer_like p"
  then have c: "c = CHR ''/''" by (simp add: pointer_like_def Cons)
  have "\<exists>t. py_replace ''uuid:'' [] (py_replace ''urn:'' [] (c # s)) = c # t"
    by (simp add: replace_keeps_head c)
  then obtain t where t: "py_replace ''uuid:'' [] (py_replace ''urn:'' [] (c # s)) = c # t" by blast
  obtain u where u: "py_strip (\<lambda>c. c = CHR ''{'' \<or> c = CHR ''}'') (c # t) = c # u"
    using strip_keeps_head [of "\<lambda>c. c = CHR ''{'' \<or> c = CHR ''}''" c t] c by auto
  show ?thesis
    using slash_not_int c unfolding Cons uuid_of_string_def t u Let_def by simp
qed

lemma pointer_not_address:
  assumes "pointer_like p"
  shows "normalize_node_address doc (RawStr p) current f = Inl (UnknownAddressError (RawStr p))"
proof -
  have "\<not> has_hex_prefix p" "\<not> ascii_digits p"
    using assms by (cases p; auto simp: pointer_like_def has_hex_prefix_def ascii_digits_def ccode_def)+
  moreover have "\<exists>e. from_str (Some p) = Inl e"
  proof -
    have "pointer_like q" if "q # qs = split_on CHR '':'' p" for q qs
      using that assms by (cases p) (auto simp: pointer_like_def split: if_splits list.splits)
    then show ?thesis
      using slash_not_uuid by (auto simp: from_str_def split: list.splits)
  qed
  ultimately show ?thesis
    using slash_not_uuid [OF assms] by (auto simp: normalize_node_address_def)
qed

locale reference_notation =
  fixes index :: "'r \<Rightarrow> pointer_index"
    and valid :: "'r \<Rightarrow> bool"
  assumes inverse: "valid r \<Longrightarrow> ref_for (index r) n = Some p \<longleftrightarrow> node_for (index r) p = Some n"
    and pointers: "valid r \<Longrightarrow> node_for (index r) p = Some n \<Longrightarrow> pointer_like p"
begin

text \<open>The cached index, when it is used, is the index of the document as it now is.\<close>

definition cache_ok :: "'r map_document \<Rightarrow> 'r identifier_map \<Rightarrow> bool" where
  "cache_ok doc im \<longleftrightarrow> (\<exists>name. im_notation im = Some \<lparr>nt_name = name, nt_index = index\<rparr>)
     \<and> (im_indexed_version im = Some (md_version doc) \<longrightarrow> im_index im \<noteq> None
        \<longrightarrow> im_index im = Some (index (md_root doc)))"

lemma current_index_ok:
  assumes "cache_ok doc im"
  obtains im' where "current_index doc im = (Some (index (md_root doc)), im')" and "cache_ok doc im'"
    and "im_style im' = im_style im" and "im_notation im' = im_notation im"
  using assms that
  by (cases "im_index im = None \<or> im_indexed_version im \<noteq> Some (md_version doc)")
    (auto simp: current_index_def cache_ok_def Let_def)

lemma resolve_keeps:
  assumes "cache_ok doc im"
  shows "cache_ok doc (snd (map_resolve doc a im)) \<and> im_style (snd (map_resolve doc a im)) = im_style im
    \<and> im_notation (snd (map_resolve doc a im)) = im_notation im"
  by (rule current_index_ok [OF assms])
    (use assms in \<open>auto simp: map_resolve_def node_for_ref_def
      split: sum.splits node_address_error.splits raw_address.splits option.splits\<close>)

lemma ref_resolves:
  assumes "cache_ok doc im" and "valid (md_root doc)" and "ref_for (index (md_root doc)) n = Some p"
  shows "fst (map_resolve doc (RawStr p) im) = Inr n"
proof -
  have p: "node_for (index (md_root doc)) p = Some n" "pointer_like p"
    using assms(2,3) inverse pointers by blast+
  show ?thesis
    by (rule current_index_ok [OF assms(1)])
      (use p in \<open>simp add: map_resolve_def node_for_ref_def pointer_not_address\<close>)
qed

lemma resolve_same:
  assumes "cache_ok doc im" and "cache_ok doc jm"
  shows "fst (map_resolve doc a im) = fst (map_resolve doc a jm)"
proof -
  obtain im' where im': "current_index doc im = (Some (index (md_root doc)), im')"
    by (rule current_index_ok [OF assms(1)])
  obtain jm' where jm': "current_index doc jm = (Some (index (md_root doc)), jm')"
    by (rule current_index_ok [OF assms(2)])
  have "fst (node_for_ref doc a im) = fst (node_for_ref doc a jm)"
    by (cases a) (simp_all add: node_for_ref_def im' jm')
  then show ?thesis
    by (auto simp: map_resolve_def split: sum.splits node_address_error.splits prod.splits option.splits)
qed

lemma identifiers_known:
  assumes "cache_ok doc im" and "map_identifiers doc a im = (Inr r, im')"
  shows "cache_ok doc im'" and "dict_get (md_nodes_by_id doc) (ni_node_id r) = Some (Some (ni_short_id r))"
    and "ni_ref r = ref_for (index (md_root doc)) (ni_node_id r)" and "ni_style r = im_style im"
    and "fst (map_resolve doc a im) = Inr (ni_node_id r)"
proof -
  obtain u im1 where u: "map_resolve doc a im = (Inr u, im1)"
    using assms(2) by (auto simp: map_identifiers_def split: prod.splits sum.splits)
  have im1: "cache_ok doc im1" "im_style im1 = im_style im" using resolve_keeps [OF assms(1), of a] u by auto
  obtain im2 where im2: "current_index doc im1 = (Some (index (md_root doc)), im2)" "cache_ok doc im2"
    "im_style im2 = im_style im1"
    by (rule current_index_ok [OF im1(1)])
  show "cache_ok doc im'" and "dict_get (md_nodes_by_id doc) (ni_node_id r) = Some (Some (ni_short_id r))"
    and "ni_ref r = ref_for (index (md_root doc)) (ni_node_id r)" and "ni_style r = im_style im"
    and "fst (map_resolve doc a im) = Inr (ni_node_id r)"
    using assms(2) im1(2) im2 u
    by (auto simp: map_identifiers_def map_ref_for_def split: option.splits)
qed

lemma identifiers_same:
  assumes im: "cache_ok doc im" and jm: "cache_ok doc jm" and "im_notation jm = im_notation im"
    and run: "map_identifiers doc a im = (Inr r, im')"
  shows "fst (map_identifiers doc a jm) = Inr (r\<lparr>ni_style := im_style jm\<rparr>)"
proof -
  obtain u im1 where u: "map_resolve doc a im = (Inr u, im1)"
    using run by (auto simp: map_identifiers_def split: prod.splits sum.splits)
  then obtain jm1 where v: "map_resolve doc a jm = (Inr u, jm1)"
    using resolve_same [OF im jm, of a] by (metis fst_conv prod.collapse)
  have im1: "cache_ok doc im1" "im_notation im1 = im_notation im" using resolve_keeps [OF im, of a] u by auto
  have jm1: "cache_ok doc jm1" "im_notation jm1 = im_notation jm" "im_style jm1 = im_style jm"
    using resolve_keeps [OF jm, of a] v by auto
  obtain im2 where im2: "current_index doc im1 = (Some (index (md_root doc)), im2)" "im_notation im2 = im_notation im1"
    by (rule current_index_ok [OF im1(1)])
  obtain jm2 where jm2: "current_index doc jm1 = (Some (index (md_root doc)), jm2)"
    "im_notation jm2 = im_notation jm1" "im_style jm2 = im_style jm1"
    by (rule current_index_ok [OF jm1(1)])
  show ?thesis
    using run u v im1 jm1 im2 jm2 assms(3)
    by (auto simp: map_identifiers_def map_ref_for_def map_notation_def split: option.splits)
qed

end

section \<open>JSON pointers are such a notation\<close>

lemma walk_pointers:
  "(n, p) \<in> set (pointer_walk step t tokens a) \<Longrightarrow> pointer_like p"
  "(n, p) \<in> set (pointer_walk_children step t ts k tokens) \<Longrightarrow> pointer_like p"
proof (induction step t tokens a and step t ts k tokens rule: pointer_walk_pointer_walk_children.induct)
  case (1 step a n children tokens addressable)
  then show ?case by (cases tokens) (auto simp: pointer_like_def build_pointer_def split: if_splits)
next
  case (3 step parent child children ordinal tokens)
  then show ?case by (auto simp: Let_def split: option.splits prod.splits)
qed simp

lemma claimants_mem: "u \<in> set (claimants claims p) \<Longrightarrow> (Some u, p) \<in> set claims"
  by (induction claims) (auto split: option.splits if_splits)

lemma json_inverse:
  assumes "distinct (claiming (pointer_walk step root [] a))"
  shows "ref_for (build_index step a root) n = Some p \<longleftrightarrow> node_for (build_index step a root) p = Some n"
    and "node_for (build_index step a root) p = Some n \<Longrightarrow> pointer_like p"
proof -
  obtain seen where "index_shows (pointer_walk step root [] a) seen (build_index step a root)"
    using index_loop_shows [of "[]" "{}" "\<lparr>px_by_node = [], px_by_pointer = [], px_ambiguous = []\<rparr>"] assms
    by (auto simp: build_index_def index_shows_def node_for_def ref_for_def)
  then have exact: "node_for (build_index step a root) p = Some n \<longleftrightarrow> claimants (pointer_walk step root [] a) p = [n]"
    "ref_for (build_index step a root) n = Some p \<longleftrightarrow> claimants (pointer_walk step root [] a) p = [n]" for n p
    by (simp_all add: index_shows_def)
  then show "ref_for (build_index step a root) n = Some p \<longleftrightarrow> node_for (build_index step a root) p = Some n"
    by simp
  show "pointer_like p" if "node_for (build_index step a root) p = Some n"
    using that exact(1) claimants_mem [of n "pointer_walk step root [] a" p] walk_pointers(1) by fastforce
qed

interpretation json_ref: reference_notation "build_index step addressable"
  "\<lambda>root. distinct (claiming (pointer_walk step root [] addressable))" for step addressable
  by unfold_locales (rule json_inverse, assumption)+

lemma known_node_resolves:
  assumes "sid_inv (md_short_id_map doc)" and "get_short_id (md_short_id_map doc) u = Some k"
    and "dict_has (md_nodes_by_id doc) u"
    and "x \<in> {RawInt k, RawUuid u, RawStr (uuid_str u)}"
  shows "fst (map_resolve doc x im) = Inr u"
proof -
  let ?view = "tree_document_view (set (dict_keys (md_nodes_by_id doc))) (md_short_id_map doc)"
  let ?f = "Some (tree_resolve_short_id (md_short_id_map doc))"
  have here: "validate_node_id_presence ?view u raw = Inr u" for raw
    using assms(3) by (simp add: validate_node_id_presence_def tree_document_view_def map_of_eq_None_iff)
  have "0 < k" "resolve_short_id_value ?view k raw ?f = Inr u" for raw
    using resolve_tree [OF assms(1,2)]
    by (simp_all add: resolve_short_id_value_def tree_document_view_def)
  then have "normalize_node_address ?view x (md_document_id doc) ?f = Inr u"
    using assms(4) here uuid_str_plain by (auto simp: normalize_node_address_def)
  then show ?thesis by (simp add: map_resolve_def)
qed

text \<open>
  C25. Three names, one node: over a document whose nodes carry the short ids of its map, and
  with the index cached for the current version or not at all, whatever address a caller
  gave, each identifier of the answer, the integer, the UUID as value or text, and the JSON
  pointer when there is one, resolves to the same node again; and the same map under
  another style gives the same answer, reported in that style.
\<close>

theorem identifiers_name_one_node:
  assumes "sid_inv (md_short_id_map doc)"
    and "\<And>u k. dict_get (md_nodes_by_id doc) u = Some (Some k) \<Longrightarrow> get_short_id (md_short_id_map doc) u = Some k"
    and "distinct (claiming (pointer_walk step (md_root doc) [] addressable))"
    and "im_notation im = Some \<lparr>nt_name = name, nt_index = build_index step addressable\<rparr>"
    and "im_indexed_version im = Some (md_version doc) \<Longrightarrow> im_index im \<noteq> None
      \<Longrightarrow> im_index im = Some (build_index step addressable (md_root doc))"
    and "map_identifiers doc address im = (Inr r, im')"
  shows "(\<forall>x \<in> {address, RawInt (ni_short_id r), RawUuid (ni_node_id r), RawStr (uuid_str (ni_node_id r))}.
      fst (map_resolve doc x im) = Inr (ni_node_id r))
    \<and> (\<forall>p. ni_ref r = Some p \<longrightarrow> fst (map_resolve doc (RawStr p) im') = Inr (ni_node_id r))
    \<and> (im_notation im = native_reference_of (im_plugin im) \<longrightarrow>
        fst (map_identifiers doc address (map_with_style style im)) = Inr (identifiers_with_style style r))"
proof (intro conjI impI)
  have cache: "json_ref.cache_ok step addressable doc im"
    using assms(4,5) by (simp add: json_ref.cache_ok_def)
  note known = json_ref.identifiers_known [OF cache assms(6)]
  have node: "get_short_id (md_short_id_map doc) (ni_node_id r) = Some (ni_short_id r)"
    "dict_has (md_nodes_by_id doc) (ni_node_id r)"
    using assms(2) known(2) by auto
  show "\<forall>x \<in> {address, RawInt (ni_short_id r), RawUuid (ni_node_id r), RawStr (uuid_str (ni_node_id r))}.
      fst (map_resolve doc x im) = Inr (ni_node_id r)"
    using known_node_resolves [OF assms(1) node] known(5) by auto
  show "\<forall>p. ni_ref r = Some p \<longrightarrow> fst (map_resolve doc (RawStr p) im') = Inr (ni_node_id r)"
    using json_ref.ref_resolves [OF known(1) assms(3)] known(3) by auto
  assume declared: "im_notation im = native_reference_of (im_plugin im)"
  have cache': "json_ref.cache_ok step addressable doc (map_with_style style im)"
    using assms(4) unfolding declared
    by (simp add: json_ref.cache_ok_def map_with_style_def new_identifier_map_def)
  have "im_notation (map_with_style style im) = im_notation im" "im_style (map_with_style style im) = style"
    by (simp_all add: declared map_with_style_def new_identifier_map_def)
  then show "fst (map_identifiers doc address (map_with_style style im)) = Inr (identifiers_with_style style r)"
    using json_ref.identifiers_same [OF cache cache' _ assms(6)] by (simp add: identifiers_with_style_def)
qed

definition example_document :: "string ptree map_document" where
  "example_document = \<lparr>md_document_id = Some 5, md_version = 1, md_root = PNode [] (Some 7) [],
     md_nodes_by_id = [(7, Some 1)], md_short_id_map = example_ids\<rparr>"

definition example_map :: "string ptree identifier_map" where
  "example_map = new_identifier_map
     (Some \<lparr>dc_notation = Some ''json_pointer'', dc_index = Some (build_index example_step True)\<rparr>) SHORT_ID"

theorem identifiers_name_one_node_witness:
  "fst (map_resolve example_document (RawStr (uuid_str 7)) example_map) = Inr 7"
proof -
  have node: "get_short_id (md_short_id_map example_document) 7 = Some 1"
    "dict_has (md_nodes_by_id example_document) 7" "sid_inv (md_short_id_map example_document)"
    using example_ids by (simp_all add: example_document_def)
  have first: "fst (map_resolve example_document (RawUuid 7) example_map) = Inr 7"
    by (rule known_node_resolves [OF node(3,1,2)]) simp
  obtain r im' where run: "map_identifiers example_document (RawUuid 7) example_map = (Inr r, im')" "ni_node_id r = 7"
  proof -
    obtain im1 where "map_resolve example_document (RawUuid 7) example_map = (Inr 7, im1)"
      using first by (metis fst_conv prod.collapse)
    moreover obtain x im2 where "map_ref_for example_document 7 im1 = (x, im2)"
      by (cases "map_ref_for example_document 7 im1")
    ultimately have "map_identifiers example_document (RawUuid 7) example_map =
        (Inr \<lparr>ni_node_id = 7, ni_short_id = 1, ni_ref = x, ni_notation = map_notation im2, ni_style = im_style im2\<rparr>, im2)"
      by (simp add: map_identifiers_def example_document_def)
    then show thesis by (rule that) simp
  qed
  have walk: "distinct (claiming (pointer_walk example_step (md_root example_document) [] True))"
    by (simp add: example_document_def)
  have notation': "im_notation example_map = Some \<lparr>nt_name = ''json_pointer'', nt_index = build_index example_step True\<rparr>"
    "im_index example_map = None"
    by (simp_all add: example_map_def new_identifier_map_def native_reference_of_def)
  have known: "get_short_id (md_short_id_map example_document) u = Some k"
    if "dict_get (md_nodes_by_id example_document) u = Some (Some k)" for u k
    using that node(1) by (auto simp: example_document_def split: if_splits)
  show ?thesis
    using identifiers_name_one_node [OF node(3) known walk notation'(1) _ run(1)] run(2) notation'(2) by simp
qed

end
