(* ===== verification/Nodes.thy ===== *)
theory Nodes
  imports Address
begin

text \<open>
  \<open>tree_engine/core/nodes.py\<close>: the immutable node schema with its validating constructor, the
  document format contract, and the traversal of frozen trees.
\<close>

section \<open>The schema\<close>

text \<open>Field primitives; a float is its IEEE representation, which the engine only carries.\<close>

datatype prim =
    PNone | PBool bool | PInt int | PFloat "64 word" | PStr string | PBytes "8 word list"

text \<open>
  A node value in a field is either one of the node's own children, the same object
  (\<open>FChild\<close> with its position), or a node of its own (\<open>FNode\<close>). The code distinguishes the
  two by object identity.
\<close>

datatype node =
    Node (nd_kind: string) (nd_fields: "(string \<times> node_field) list") (nd_children: "node list")
      (nd_node_id: "uuid option") (nd_short_id: "int option") (nd_extended_type: "string option")
      (nd_buffer_range: "(int \<times> int) option") (nd_references: "node_address list")
and node_field = FPrim prim | FChild nat | FNode node | FSeq "node_field list"

section \<open>Construction\<close>

text \<open>
  The values a caller may pass. Keys and kinds are strings or, as \<open>None\<close>, something else;
  \<open>VChild i\<close> is the object passed as the \<open>i\<close>-th child.
\<close>

datatype py_value = VPrim prim | VNode node | VChild nat | VSeq "py_value list" | VOther

definition node_kind :: "string option \<Rightarrow> error_code + string" where
  "node_kind v = (case v of Some k \<Rightarrow> if k = [] then Inl INVALID_PARENT_TYPE else Inr k
                          | None \<Rightarrow> Inl INVALID_PARENT_TYPE)"

fun validate_items :: "py_value list \<Rightarrow> error_code + node_field list" where
  "validate_items [] = Inr []"
| "validate_items (VNode n # vs) = map_sum id (\<lambda>fs. FNode n # fs) (validate_items vs)"
| "validate_items (VChild i # vs) = map_sum id (\<lambda>fs. FChild i # fs) (validate_items vs)"
| "validate_items (_ # vs) = Inl INVALID_PARENT_TYPE"

definition validate_field_value :: "py_value \<Rightarrow> error_code + node_field" where
  "validate_field_value v =
     (case v of
        VPrim p \<Rightarrow> Inr (FPrim p)
      | VNode n \<Rightarrow> Inr (FNode n)
      | VChild i \<Rightarrow> Inr (FChild i)
      | VSeq vs \<Rightarrow> map_sum id FSeq (validate_items vs)
      | VOther \<Rightarrow> Inl INVALID_PARENT_TYPE)"

fun validate_fields_loop ::
  "(string option \<times> py_value) list \<Rightarrow> (string, node_field) pydict \<Rightarrow> error_code + (string, node_field) pydict" where
  "validate_fields_loop [] acc = Inr acc"
| "validate_fields_loop ((name, v) # items) acc =
     (case name of
        None \<Rightarrow> Inl INVALID_PARENT_TYPE
      | Some n \<Rightarrow>
          if n = [] then Inl INVALID_PARENT_TYPE
          else (case validate_field_value v of
                  Inl e \<Rightarrow> Inl e
                | Inr f \<Rightarrow> validate_fields_loop items (dict_set n f acc)))"

text \<open>\<open>None\<close> stands for an argument that is not a mapping, or not a list or tuple.\<close>

definition validate_fields :: "(string option \<times> py_value) list option \<Rightarrow> error_code + (string, node_field) pydict" where
  "validate_fields flds = (case flds of None \<Rightarrow> Inl INVALID_PARENT_TYPE | Some items \<Rightarrow> validate_fields_loop items [])"

fun validate_children_loop :: "py_value list \<Rightarrow> error_code + node list" where
  "validate_children_loop [] = Inr []"
| "validate_children_loop (VNode n # vs) = map_sum id (\<lambda>ns. n # ns) (validate_children_loop vs)"
| "validate_children_loop (_ # vs) = Inl INVALID_PARENT_TYPE"

definition validate_children :: "py_value list option \<Rightarrow> error_code + node list" where
  "validate_children children = (case children of None \<Rightarrow> Inl INVALID_PARENT_TYPE | Some vs \<Rightarrow> validate_children_loop vs)"

definition make_node ::
  "string option \<Rightarrow> (string option \<times> py_value) list option \<Rightarrow> py_value list option \<Rightarrow> error_code + node" where
  "make_node kind flds children =
     (case node_kind kind of
        Inl e \<Rightarrow> Inl e
      | Inr k \<Rightarrow>
          (case validate_fields flds of
             Inl e \<Rightarrow> Inl e
           | Inr fs \<Rightarrow>
               (case validate_children children of
                  Inl e \<Rightarrow> Inl e
                | Inr cs \<Rightarrow> Inr (Node k fs cs None None None None []))))"

definition iter_children :: "node \<Rightarrow> node list" where
  "iter_children n = nd_children n"

fun walk_frozen :: "node \<Rightarrow> node list" where
  "walk_frozen (Node k fs cs i s x r refs) = Node k fs cs i s x r refs # concat (map walk_frozen cs)"

section \<open>The document's format contract\<close>

record frozen_document =
  fd_root :: node
  fd_source_format_id :: string
  fd_representation_format_id :: string
  fd_document_id :: "uuid option"

definition validate_format_id :: "string option \<Rightarrow> error_code + string" where
  "validate_format_id v = (case v of Some s \<Rightarrow> if s = [] then Inl INVALID_PARENT_TYPE else Inr s
                                   | None \<Rightarrow> Inl INVALID_PARENT_TYPE)"

text \<open>
  The root is a node or, as \<open>None\<close>, something else; a representation that is omitted is
  \<open>None\<close>, one that is not a string is \<open>Some None\<close>.
\<close>

definition make_document ::
  "node option \<Rightarrow> string option \<Rightarrow> string option option \<Rightarrow> uuid option \<Rightarrow> error_code + frozen_document" where
  "make_document root source_format representation document_id =
     (case root of
        None \<Rightarrow> Inl INVALID_PARENT_TYPE
      | Some r \<Rightarrow>
          (case validate_format_id source_format of
             Inl e \<Rightarrow> Inl e
           | Inr s \<Rightarrow>
               (case validate_format_id (case representation of None \<Rightarrow> Some s | Some x \<Rightarrow> x) of
                  Inl e \<Rightarrow> Inl e
                | Inr f \<Rightarrow> Inr \<lparr>fd_root = r, fd_source_format_id = s, fd_representation_format_id = f,
                                fd_document_id = document_id\<rparr>)))"

definition format_id :: "frozen_document \<Rightarrow> string" where
  "format_id d = fd_representation_format_id d"

section \<open>Well-formed nodes\<close>

text \<open>
  What the constructor guarantees of every node of a tree: non-empty kinds and field names, no
  name twice, and node-valued flds that name existing children.
\<close>

fun field_ok :: "nat \<Rightarrow> node_field \<Rightarrow> bool" where
  "field_ok k (FPrim _) = True"
| "field_ok k (FChild i) = (i < k)"
| "field_ok k (FNode _) = True"
| "field_ok k (FSeq fs) = list_all (\<lambda>f. (\<exists>i < k. f = FChild i) \<or> (\<exists>n. f = FNode n)) fs"

fun node_ok :: "node \<Rightarrow> bool" where
  "node_ok (Node k fs cs i s x r refs) \<longleftrightarrow>
     k \<noteq> [] \<and> distinct (map fst fs) \<and> list_all (\<lambda>(n, f). n \<noteq> [] \<and> field_ok (length cs) f) fs
     \<and> list_all node_ok cs"

lemma validate_items_ok:
  "validate_items vs = Inr fs \<Longrightarrow> \<forall>i. VChild i \<in> set vs \<longrightarrow> i < k \<Longrightarrow>
   list_all (\<lambda>f. (\<exists>i < k. f = FChild i) \<or> (\<exists>n. f = FNode n)) fs"
proof (induction vs arbitrary: fs rule: validate_items.induct)
  case (2 n vs)
  then show ?case by (cases "validate_items vs") auto
next
  case (3 i vs)
  then show ?case by (cases "validate_items vs") auto
qed auto

lemma validate_fields_ok:
  assumes "validate_fields_loop items acc = Inr fs"
    and "\<forall>name v. (name, v) \<in> set items \<longrightarrow> (\<forall>i. v = VChild i \<longrightarrow> i < k)
      \<and> (\<forall>vs. v = VSeq vs \<longrightarrow> (\<forall>i. VChild i \<in> set vs \<longrightarrow> i < k))"
    and "dict_wf acc" and "\<forall>n f. dict_get acc n = Some f \<longrightarrow> n \<noteq> [] \<and> field_ok k f"
  shows "dict_wf fs \<and> (\<forall>n f. dict_get fs n = Some f \<longrightarrow> n \<noteq> [] \<and> field_ok k f)"
  using assms
proof (induction items acc rule: validate_fields_loop.induct)
  case (2 name v items acc)
  from 2(2) obtain n f where n: "name = Some n" "n \<noteq> []" and f: "validate_field_value v = Inr f"
    by (auto split: option.splits if_splits sum.splits)
  have "field_ok k f"
  proof (cases v)
    case (VSeq vs)
    then obtain gs where "validate_items vs = Inr gs" "f = FSeq gs"
      using f by (cases "validate_items vs") (auto simp: validate_field_value_def)
    then show ?thesis using validate_items_ok [of vs gs k] 2(3) VSeq by auto
  qed (use f 2(3) in \<open>auto simp: validate_field_value_def\<close>)
  have rest: "validate_fields_loop items (dict_set n f acc) = Inr fs"
    using 2(2) n f by simp
  have mem: "\<forall>name v. (name, v) \<in> set items \<longrightarrow> (\<forall>i. v = VChild i \<longrightarrow> i < k)
      \<and> (\<forall>vs. v = VSeq vs \<longrightarrow> (\<forall>i. VChild i \<in> set vs \<longrightarrow> i < k))"
    using 2(3) unfolding list.set by blast
  have acc: "\<forall>m g. dict_get (dict_set n f acc) m = Some g \<longrightarrow> m \<noteq> [] \<and> field_ok k g"
    using 2(5) n(2) \<open>field_ok k f\<close> by (simp add: dict_simps)
  show ?case
    by (rule 2(1) [OF n f rest mem _ acc]) (use 2(4) in auto)
qed auto

lemma validate_children_ok:
  "validate_children_loop vs = Inr ns \<Longrightarrow> vs = map VNode ns"
  by (induction vs arbitrary: ns rule: validate_children_loop.induct)
    (auto simp: map_sum_def split: sum.splits)

text \<open>
  The constructor is the gate of the schema: whatever it is given, \<open>make_node\<close> either
  rejects it with the one schema code or returns a well-formed node with exactly the given
  children in order, provided these are well-formed themselves.
\<close>

theorem make_node_checks_schema:
  assumes "\<forall>n. VNode n \<in> set (the children) \<longrightarrow> node_ok n"
    and "\<forall>name v. (name, v) \<in> set (the flds) \<longrightarrow> (\<forall>i. v = VChild i \<longrightarrow> i < length (the children))
      \<and> (\<forall>vs. v = VSeq vs \<longrightarrow> (\<forall>i. VChild i \<in> set vs \<longrightarrow> i < length (the children)))"
  shows "case make_node kind flds children of
      Inl e \<Rightarrow> e = INVALID_PARENT_TYPE
    | Inr n \<Rightarrow> node_ok n \<and> children = Some (map VNode (nd_children n)) \<and> kind = Some (nd_kind n)"
proof (cases "make_node kind flds children")
  case (Inl e)
  have items: "e' = INVALID_PARENT_TYPE" if "validate_items vs = Inl e'" for vs e'
    using that by (induction vs rule: validate_items.induct) (auto simp: map_sum_def split: sum.splits)
  have "e' = INVALID_PARENT_TYPE" if "validate_field_value v = Inl e'" for v e'
    using that items by (cases v) (auto simp: validate_field_value_def map_sum_def split: sum.splits)
  then have loop: "e' = INVALID_PARENT_TYPE" if "validate_fields_loop xs acc = Inl e'" for xs acc e'
    using that by (induction xs acc rule: validate_fields_loop.induct) (auto split: option.splits if_splits sum.splits)
  have kids: "e' = INVALID_PARENT_TYPE" if "validate_children_loop vs = Inl e'" for vs e'
    using that by (induction vs rule: validate_children_loop.induct) (auto simp: map_sum_def split: sum.splits)
  show ?thesis
    using Inl loop kids
    by (auto simp: make_node_def node_kind_def validate_fields_def validate_children_def
        split: option.splits sum.splits if_splits)
next
  case (Inr n)
  then obtain k fs cs where k: "kind = Some k" "k \<noteq> []" and fs: "validate_fields flds = Inr fs"
    and cs: "validate_children children = Inr cs" and n: "n = Node k fs cs None None None None []"
    by (auto simp: make_node_def node_kind_def split: option.splits sum.splits if_splits)
  obtain items where items: "flds = Some items" "validate_fields_loop items [] = Inr fs"
    using fs by (auto simp: validate_fields_def split: option.splits)
  have children: "children = Some (map VNode cs)"
    using cs validate_children_ok by (auto simp: validate_children_def split: option.splits)
  have "dict_wf fs \<and> (\<forall>n f. dict_get fs n = Some f \<longrightarrow> n \<noteq> [] \<and> field_ok (length cs) f)"
    using assms(2) items children by (intro validate_fields_ok [OF items(2)]) auto
  then have "distinct (map fst fs)" "list_all (\<lambda>(n, f). n \<noteq> [] \<and> field_ok (length cs) f) fs"
    by (fastforce simp: dict_wf_def list_all_iff)+
  moreover have "list_all node_ok cs" using assms(1) children by (auto simp: list_all_iff)
  ultimately show ?thesis using Inr k n children by simp
qed

theorem make_node_checks_schema_witness:
  "case make_node (Some ''json:Array'') (Some [(Some ''items'', VSeq [VChild 0])])
      (Some [VNode (Node ''json:Number'' [] [] None None None None [])]) of
    Inl e \<Rightarrow> False | Inr n \<Rightarrow> node_ok n"
  using make_node_checks_schema [of "Some [VNode (Node ''json:Number'' [] [] None None None None [])]"
      "Some [(Some ''items'', VSeq [VChild 0])]" "Some ''json:Array''"]
  by (auto simp: make_node_def node_kind_def validate_fields_def validate_children_def validate_field_value_def)

end
