(* ===== verification/Live_Tree.thy ===== *)
theory Live_Tree
  imports Nodes
begin

text \<open>
  \<open>tree_engine/core/live_tree.py\<close>: the mutable mirror of the node schema that the core edits.
  Nodes are objects of a heap, linked by \<open>children\<close> and \<open>parent\<close>; a document holds a root and
  the indexes over it. Mirroring and freezing, traversal, relinking, the reconciliation of
  fields with children, the invalidation of cached source, and the rebuilding of the indexes.
\<close>

section \<open>Objects\<close>

type_synonym oid = nat

datatype live_field = LPrim prim | LRef oid | LFrozen node | LSeq "live_field list"

record live_node =
  ln_kind :: string
  ln_fields :: "(string, live_field) pydict"
  ln_children :: "oid list"
  ln_node_id :: uuid
  ln_short_id :: "int option"
  ln_extended_type :: "string option"
  ln_buffer_range :: "(int \<times> int) option"
  ln_references :: "node_address list"
  ln_parent :: "oid option"

text \<open>
  The heap: its objects, the next unused address, and how many UUIDs \<open>uuid4()\<close> has minted;
  the stream of these is the parameter \<open>gen\<close> of the operations that mint.
\<close>

record heap =
  objects :: "oid \<Rightarrow> live_node"
  next_oid :: oid
  minted :: nat

abbreviation obj :: "heap \<Rightarrow> oid \<Rightarrow> live_node" where
  "obj h o' \<equiv> objects h o'"

definition put :: "oid \<Rightarrow> live_node \<Rightarrow> heap \<Rightarrow> heap" where
  "put o' n h = h\<lparr>objects := (objects h)(o' := n)\<rparr>"

definition alloc :: "live_node \<Rightarrow> heap \<Rightarrow> oid \<times> heap" where
  "alloc n h = (next_oid h, h\<lparr>objects := (objects h)(next_oid h := n), next_oid := next_oid h + 1\<rparr>)"

definition generate_node_id :: "(nat \<Rightarrow> uuid) \<Rightarrow> heap \<Rightarrow> uuid \<times> heap" where
  "generate_node_id gen h = (gen (minted h), h\<lparr>minted := minted h + 1\<rparr>)"

definition get_attribute :: "live_node \<Rightarrow> string \<Rightarrow> live_field \<Rightarrow> live_field" where
  "get_attribute n name otherwise = (case dict_get (ln_fields n) name of None \<Rightarrow> otherwise | Some v \<Rightarrow> v)"

text \<open>\<open>None\<close> is the \<open>NodeSchemaError\<close> with \<open>INVALID_PARENT_TYPE\<close>.\<close>

definition set_attribute :: "string \<Rightarrow> live_field \<Rightarrow> live_node \<Rightarrow> live_node option" where
  "set_attribute name value n =
     (case value of LPrim _ \<Rightarrow> Some (n\<lparr>ln_fields := dict_set name value (ln_fields n)\<rparr>) | _ \<Rightarrow> None)"

section \<open>Mirroring and freezing\<close>

text \<open>\<open>_remap\<close> towards live nodes: a field that is a child becomes the child's mirror.\<close>

fun remap_live :: "oid list \<Rightarrow> node_field \<Rightarrow> live_field" where
  "remap_live new (FPrim p) = LPrim p"
| "remap_live new (FChild i) = LRef (new ! i)"
| "remap_live new (FNode n) = LFrozen n"
| "remap_live new (FSeq fs) = LSeq (map (remap_live new) fs)"

text \<open>
  \<open>to_live\<close>: the object is created with an empty child list, the children are mirrored with it
  as their parent, then children and fields are set. While the children are built its fields
  are still the frozen ones, which nobody reads.
\<close>

fun to_live :: "(nat \<Rightarrow> uuid) \<Rightarrow> node \<Rightarrow> oid option \<Rightarrow> heap \<Rightarrow> oid \<times> heap"
  and to_live_list :: "(nat \<Rightarrow> uuid) \<Rightarrow> node list \<Rightarrow> oid option \<Rightarrow> heap \<Rightarrow> oid list \<times> heap" where
  "to_live gen (Node k fs cs i s x r refs) parent h =
     (let (node_id, h) = (case i of Some u \<Rightarrow> (u, h) | None \<Rightarrow> generate_node_id gen h);
          n = \<lparr>ln_kind = k, ln_fields = [], ln_children = [], ln_node_id = node_id, ln_short_id = s,
               ln_extended_type = x, ln_buffer_range = r, ln_references = refs, ln_parent = parent\<rparr>;
          (live, h) = alloc n h;
          (children, h) = to_live_list gen cs (Some live) h
      in (live, put live (n\<lparr>ln_children := children,
                             ln_fields := map (\<lambda>(name, f). (name, remap_live children f)) fs\<rparr>) h))"
| "to_live_list gen [] parent h = ([], h)"
| "to_live_list gen (n # ns) parent h =
     (let (live, h) = to_live gen n parent h; (lives, h) = to_live_list gen ns parent h
      in (live # lives, h))"

text \<open>
  \<open>to_frozen\<close> recurses along \<open>children\<close> and into fields that hold a detached live node. The
  heap could be cyclic, so the recursion takes fuel: \<open>None\<close> is a recursion that is deeper.
  The inner result is the \<open>NodeSchemaError\<close> of an empty kind.
\<close>

fun collect :: "('e + 'a) option list \<Rightarrow> ('e + 'a list) option" where
  "collect [] = Some (Inr [])"
| "collect (x # xs) =
     (case x of
        None \<Rightarrow> None
      | Some (Inl e) \<Rightarrow> Some (Inl e)
      | Some (Inr y) \<Rightarrow> map_option (map_sum id (\<lambda>ys. y # ys)) (collect xs))"

fun remap_frozen :: "(oid \<Rightarrow> (error_code + node) option) \<Rightarrow> oid list \<Rightarrow> live_field \<Rightarrow> (error_code + node_field) option" where
  "remap_frozen freeze old (LPrim p) = Some (Inr (FPrim p))"
| "remap_frozen freeze old (LRef o') =
     (case list_index o' old of
        Some i \<Rightarrow> Some (Inr (FChild i))
      | None \<Rightarrow> map_option (map_sum id FNode) (freeze o'))"
| "remap_frozen freeze old (LFrozen n) = Some (Inr (FNode n))"
| "remap_frozen freeze old (LSeq fs) =
     map_option (map_sum id FSeq) (collect (map (remap_frozen freeze old) fs))"

definition remap_frozen_fields ::
  "(oid \<Rightarrow> (error_code + node) option) \<Rightarrow> oid list \<Rightarrow> (string, live_field) pydict \<Rightarrow>
   (error_code + (string \<times> node_field) list) option" where
  "remap_frozen_fields freeze old fs =
     collect (map (\<lambda>(name, f). map_option (map_sum id (\<lambda>g. (name, g))) (remap_frozen freeze old f)) fs)"

fun to_frozen :: "nat \<Rightarrow> heap \<Rightarrow> oid \<Rightarrow> (error_code + node) option" where
  "to_frozen 0 h live = None"
| "to_frozen (Suc fuel) h live =
     (let n = obj h live
      in (case collect (map (to_frozen fuel h) (ln_children n)) of
            None \<Rightarrow> None
          | Some (Inl e) \<Rightarrow> Some (Inl e)
          | Some (Inr cs) \<Rightarrow>
              if ln_kind n = [] then Some (Inl INVALID_PARENT_TYPE)
              else (case remap_frozen_fields (to_frozen fuel h) (ln_children n) (ln_fields n) of
                      None \<Rightarrow> None
                    | Some (Inl e) \<Rightarrow> Some (Inl e)
                    | Some (Inr fs) \<Rightarrow>
                        Some (Inr (Node (ln_kind n) fs cs (Some (ln_node_id n)) (ln_short_id n)
                          (ln_extended_type n) (ln_buffer_range n) (ln_references n))))))"

section \<open>Traversal\<close>

text \<open>\<open>walk\<close> over a list of roots; \<open>None\<close> is a traversal that does not end.\<close>

partial_function (option) walk_list :: "heap \<Rightarrow> oid list \<Rightarrow> oid list option" where
  "walk_list h os =
     (case os of
        [] \<Rightarrow> Some []
      | o' # rest \<Rightarrow>
          Option.bind (walk_list h (ln_children (obj h o'))) (\<lambda>below.
          Option.bind (walk_list h rest) (\<lambda>after. Some (o' # below @ after))))"

definition walk :: "heap \<Rightarrow> oid \<Rightarrow> oid list option" where
  "walk h node = walk_list h [node]"

partial_function (option) relink_list :: "oid option \<Rightarrow> oid list \<Rightarrow> heap \<Rightarrow> heap option" where
  "relink_list parent os h =
     (case os of
        [] \<Rightarrow> Some h
      | o' # rest \<Rightarrow>
          Option.bind
            (relink_list (Some o') (ln_children (obj h o')) (put o' ((obj h o')\<lparr>ln_parent := parent\<rparr>) h))
            (relink_list parent rest))"

definition relink :: "oid \<Rightarrow> oid option \<Rightarrow> heap \<Rightarrow> heap option" where
  "relink node parent h = relink_list parent [node] h"

section \<open>Fields and cached source\<close>

definition is_ref :: "live_field \<Rightarrow> bool" where
  "is_ref f = (case f of LRef _ \<Rightarrow> True | _ \<Rightarrow> False)"

definition is_node_sequence :: "live_field \<Rightarrow> bool" where
  "is_node_sequence f = (case f of LSeq fs \<Rightarrow> fs \<noteq> [] \<and> list_all is_ref fs | _ \<Rightarrow> False)"

text \<open>\<open>None\<close> is the \<open>NodeSchemaError\<close> with \<open>INVALID_PARENT_TYPE\<close>.\<close>

definition sync_fields :: "oid option \<Rightarrow> heap \<Rightarrow> heap option" where
  "sync_fields parent h =
     (case parent of
        None \<Rightarrow> Some h
      | Some p \<Rightarrow>
          (let n = obj h p; sequences = map fst (filter (\<lambda>(_, f). is_node_sequence f) (ln_fields n))
           in (case sequences of
                 [name] \<Rightarrow>
                   Some (put p (n\<lparr>ln_fields :=
                     dict_set name (LSeq (map LRef (ln_children n))) (ln_fields n)\<rparr>) h)
               | _ \<Rightarrow>
                   if sequences \<noteq> [] \<or> list_ex (\<lambda>(_, f). is_ref f) (ln_fields n) then None
                   else Some h)))"

definition CACHED_SOURCE_FIELDS :: "string list" where
  "CACHED_SOURCE_FIELDS = [''raw'', ''content'']"

definition drop_cache :: "live_node \<Rightarrow> live_node" where
  "drop_cache n =
     (if list_ex (\<lambda>name. dict_has (ln_fields n) name) CACHED_SOURCE_FIELDS
      then n\<lparr>ln_fields := filter (\<lambda>(key, _). key \<notin> set CACHED_SOURCE_FIELDS) (ln_fields n)\<rparr>
      else n)"

partial_function (option) invalidate_cached_source :: "oid option \<Rightarrow> heap \<Rightarrow> heap option" where
  "invalidate_cached_source node h =
     (case node of
        None \<Rightarrow> Some h
      | Some o' \<Rightarrow>
          invalidate_cached_source (ln_parent (obj h o')) (put o' (drop_cache (obj h o')) h))"

section \<open>The loaded document\<close>

record tree_document =
  td_document_id :: uuid
  td_document_version :: int
  td_root :: oid
  td_source_format_id :: string
  td_format_id :: string
  td_source_bytes :: "8 word list"
  td_path :: "string option"
  td_short_id_map :: short_id_map
  td_nodes_by_id :: "(uuid, oid) pydict"
  td_short_id_index :: "(int, uuid) pydict"
  td_parent_index :: "(uuid, uuid option) pydict"

fun release_gone :: "uuid list \<Rightarrow> (uuid, oid) pydict \<Rightarrow> short_id_map \<Rightarrow> short_id_map" where
  "release_gone [] live m = m"
| "release_gone (u # us) live m = release_gone us live (if dict_has live u then m else release u m)"

text \<open>The closing loop of \<open>reindex\<close>: a short id for every node, kept or allocated. The allocation
  cannot fail, as the node was just found to have none.\<close>

fun assign_short_ids ::
  "(uuid \<times> oid) list \<Rightarrow> short_id_map \<Rightarrow> (int, uuid) pydict \<Rightarrow> heap \<Rightarrow>
   short_id_map \<times> (int, uuid) pydict \<times> heap" where
  "assign_short_ids [] m index h = (m, index, h)"
| "assign_short_ids ((u, o') # live) m index h =
     (let (s, m) = (case get_short_id m u of
                      Some s \<Rightarrow> (s, m)
                    | None \<Rightarrow> (case allocate u m of (Inr s, m') \<Rightarrow> (s, m') | (Inl _, m') \<Rightarrow> (0, m')))
      in assign_short_ids live m (dict_set s u index)
           (put o' ((obj h o')\<lparr>ln_short_id := Some s\<rparr>) h))"

definition reindex :: "tree_document \<Rightarrow> heap \<Rightarrow> (tree_document \<times> heap) option" where
  "reindex doc h =
     map_option (\<lambda>nodes.
       let live = fold (\<lambda>o' d. dict_set (ln_node_id (obj h o')) o' d) nodes [];
           m = release_gone (map snd (td_short_id_index doc)) live (td_short_id_map doc);
           parents = map (\<lambda>(u, o'). (u, map_option (\<lambda>p. ln_node_id (obj h p)) (ln_parent (obj h o')))) live;
           (m, index, h) = assign_short_ids live m [] h
       in (doc\<lparr>td_short_id_map := m, td_nodes_by_id := live, td_short_id_index := index,
               td_parent_index := parents\<rparr>, h))
     (walk h (td_root doc))"

definition new_tree_document ::
  "uuid \<Rightarrow> oid \<Rightarrow> string \<Rightarrow> string \<Rightarrow> 8 word list \<Rightarrow> string option \<Rightarrow> short_id_map option \<Rightarrow> heap \<Rightarrow>
   (tree_document \<times> heap) option" where
  "new_tree_document document_id root source_format working_format source_bytes path m h =
     reindex \<lparr>td_document_id = document_id, td_document_version = 1, td_root = root,
       td_source_format_id = source_format, td_format_id = working_format,
       td_source_bytes = source_bytes, td_path = path,
       td_short_id_map = (case m of None \<Rightarrow> new_short_id_map 1 | Some m' \<Rightarrow> m'),
       td_nodes_by_id = [], td_short_id_index = [], td_parent_index = []\<rparr> h"

section \<open>Trees in the heap\<close>

datatype otree = T (t_oid: oid) (t_subs: "otree list")

text \<open>The objects of a tree in pre-order.\<close>

fun oids :: "otree \<Rightarrow> oid list" where
  "oids (T o' ts) = o' # concat (map oids ts)"

abbreviation forest_oids :: "otree list \<Rightarrow> oid list" where
  "forest_oids ts \<equiv> concat (map oids ts)"

text \<open>The children of the objects follow the tree; with the parent links, \<open>linked\<close>.\<close>

fun shaped :: "heap \<Rightarrow> otree \<Rightarrow> bool" where
  "shaped h (T o' ts) \<longleftrightarrow> ln_children (obj h o') = map t_oid ts \<and> list_all (shaped h) ts"

fun linked :: "heap \<Rightarrow> oid option \<Rightarrow> otree \<Rightarrow> bool" where
  "linked h p (T o' ts) \<longleftrightarrow> ln_children (obj h o') = map t_oid ts \<and> ln_parent (obj h o') = p
     \<and> list_all (linked h (Some o')) ts"

lemma forest_induct [case_names Nil Cons]:
  assumes "P []" and "\<And>o' ts us. P ts \<Longrightarrow> P us \<Longrightarrow> P (T o' ts # us)"
  shows "P ts"
proof (induction "size_list size ts" arbitrary: ts rule: less_induct)
  case less
  show ?case
  proof (cases ts)
    case (Cons t us)
    obtain o' vs where t: "t = T o' vs" by (cases t)
    show ?thesis unfolding Cons t by (rule assms(2); rule less) (simp_all add: Cons t)
  qed (simp add: assms(1))
qed

lemma linked_shaped: "list_all (linked h p) ts \<Longrightarrow> list_all (shaped h) ts"
  by (induction ts arbitrary: p rule: forest_induct) auto

lemma root_in_oids [simp]: "t_oid t \<in> set (oids t)"
  by (cases t) simp

text \<open>Only the links of its own objects matter to a tree.\<close>

lemma shaped_cong:
  "list_all (shaped h) ts \<Longrightarrow> (\<And>x. x \<in> set (forest_oids ts) \<Longrightarrow> ln_children (obj h' x) = ln_children (obj h x))
   \<Longrightarrow> list_all (shaped h') ts"
  by (induction ts rule: forest_induct) auto

lemma linked_cong:
  "list_all (linked h p) ts \<Longrightarrow> (\<And>x. x \<in> set (forest_oids ts) \<Longrightarrow> ln_children (obj h' x) = ln_children (obj h x)
     \<and> ln_parent (obj h' x) = ln_parent (obj h x)) \<Longrightarrow> list_all (linked h' p) ts"
  by (induction ts arbitrary: p rule: forest_induct) auto

lemma linked_tree_cong:
  "linked h p t \<Longrightarrow> (\<And>x. x \<in> set (oids t) \<Longrightarrow> ln_children (obj h' x) = ln_children (obj h x)
     \<and> ln_parent (obj h' x) = ln_parent (obj h x)) \<Longrightarrow> linked h' p t"
  using linked_cong [of h p "[t]" h'] by simp

lemma walk_forest: "list_all (shaped h) ts \<Longrightarrow> walk_list h (map t_oid ts) = Some (forest_oids ts)"
  by (induction ts rule: forest_induct) (subst walk_list.simps, simp)+

lemma walk_tree: "shaped h t \<Longrightarrow> walk h (t_oid t) = Some (oids t)"
  using walk_forest [of h "[t]"] by (simp add: walk_def)

lemma obj_put [simp]: "obj (put o' n h) x = (if x = o' then n else obj h x)"
  by (simp add: put_def)

lemma put_next [simp]: "next_oid (put o' n h) = next_oid h" "minted (put o' n h) = minted h"
  by (simp_all add: put_def)

section \<open>Relinking\<close>

lemma relink_forest:
  assumes "list_all (shaped h) ts" and "distinct (forest_oids ts)"
  shows "\<exists>h'. relink_list p (map t_oid ts) h = Some h' \<and> list_all (linked h' p) ts
     \<and> next_oid h' = next_oid h \<and> minted h' = minted h
     \<and> (\<forall>x. x \<notin> set (forest_oids ts) \<longrightarrow> obj h' x = obj h x)
     \<and> (\<forall>x. \<exists>q. obj h' x = (obj h x)\<lparr>ln_parent := q\<rparr>)"
  using assms
proof (induction ts arbitrary: h p rule: forest_induct)
  case Nil
  have "\<exists>q. obj h x = (obj h x)\<lparr>ln_parent := q\<rparr>" for x
    by (rule exI [of _ "ln_parent (obj h x)"]) simp
  then show ?case by (subst relink_list.simps) simp
next
  case (Cons o' ts us)
  let ?h1 = "put o' ((obj h o')\<lparr>ln_parent := p\<rparr>) h"
  have sh: "list_all (shaped h) ts" "list_all (shaped h) us" "ln_children (obj h o') = map t_oid ts"
    using Cons.prems(1) by simp_all
  have "list_all (shaped ?h1) ts" by (rule shaped_cong [OF sh(1)]) simp
  then obtain h2 where h2: "relink_list (Some o') (map t_oid ts) ?h1 = Some h2" "list_all (linked h2 (Some o')) ts"
    "next_oid h2 = next_oid h" "minted h2 = minted h" "\<And>x. x \<notin> set (forest_oids ts) \<Longrightarrow> obj h2 x = obj ?h1 x"
    "\<And>x. \<exists>q. obj h2 x = (obj ?h1 x)\<lparr>ln_parent := q\<rparr>"
    using Cons.IH(1) [of ?h1 "Some o'"] Cons.prems(2) by auto
  have same: "ln_children (obj h2 x) = ln_children (obj h x)" for x
  proof -
    obtain q where "obj h2 x = (obj ?h1 x)\<lparr>ln_parent := q\<rparr>" using h2(6) by blast
    then show ?thesis by simp
  qed
  have "list_all (shaped h2) us" by (rule shaped_cong [OF sh(2)]) (rule same)
  then obtain h3 where h3: "relink_list p (map t_oid us) h2 = Some h3" "list_all (linked h3 p) us"
    "next_oid h3 = next_oid h" "minted h3 = minted h" "\<And>x. x \<notin> set (forest_oids us) \<Longrightarrow> obj h3 x = obj h2 x"
    "\<And>x. \<exists>q. obj h3 x = (obj h2 x)\<lparr>ln_parent := q\<rparr>"
    using Cons.IH(2) [of h2 p] Cons.prems(2) h2(3,4) by auto
  have run: "relink_list p (map t_oid (T o' ts # us)) h = Some h3"
    using sh(3) h2(1) h3(1) by (subst relink_list.simps) simp
  have dist: "o' \<notin> set (forest_oids ts)" "o' \<notin> set (forest_oids us)"
    "set (forest_oids ts) \<inter> set (forest_oids us) = {}" using Cons.prems(2) by auto
  have top: "obj h3 o' = (obj h o')\<lparr>ln_parent := p\<rparr>"
    using h3(5) [OF dist(2)] h2(5) [OF dist(1)] by simp
  have "list_all (linked h3 (Some o')) ts"
  proof (rule linked_cong [OF h2(2)])
    fix x assume "x \<in> set (forest_oids ts)"
    then have "obj h3 x = obj h2 x" using dist(3) by (intro h3(5)) (simp only: disjoint_iff, blast)
    then show "ln_children (obj h3 x) = ln_children (obj h2 x) \<and> ln_parent (obj h3 x) = ln_parent (obj h2 x)"
      by simp
  qed
  then have "list_all (linked h3 p) (T o' ts # us)"
    using h3(2) top sh(3) by simp
  moreover have "\<exists>q. obj h3 x = (obj h x)\<lparr>ln_parent := q\<rparr>" for x
  proof -
    obtain q where "obj h3 x = (obj h2 x)\<lparr>ln_parent := q\<rparr>" using h3(6) by blast
    moreover obtain q' where "obj h2 x = (obj ?h1 x)\<lparr>ln_parent := q'\<rparr>" using h2(6) by blast
    ultimately have "obj h3 x = (obj h x)\<lparr>ln_parent := q\<rparr>" by simp
    then show ?thesis by blast
  qed
  moreover have "obj h3 x = obj h x" if "x \<notin> set (forest_oids (T o' ts # us))" for x
    using that h3(5) [of x] h2(5) [of x] by auto
  ultimately show ?case using run h3(3,4) by blast
qed

section \<open>The chain of ancestors\<close>

text \<open>The objects from \<open>p\<close> along the parent links up to one without parent.\<close>

fun chain :: "heap \<Rightarrow> oid option \<Rightarrow> oid list \<Rightarrow> bool" where
  "chain h p [] \<longleftrightarrow> p = None"
| "chain h p (o' # os) \<longleftrightarrow> p = Some o' \<and> chain h (ln_parent (obj h o')) os"

lemma chain_cong: "chain h p os \<Longrightarrow> (\<And>x. x \<in> set os \<Longrightarrow> ln_parent (obj h' x) = ln_parent (obj h x)) \<Longrightarrow> chain h' p os"
  by (induction h p os rule: chain.induct) auto

lemma chain_in_forest:
  assumes "list_all (linked h p) ts" and "chain h p ps" and "x \<in> set (forest_oids ts)"
  shows "\<exists>os. chain h (Some x) (x # os) \<and> set os \<subseteq> set (forest_oids ts) \<union> set ps"
  using assms
proof (induction ts arbitrary: p ps rule: forest_induct)
  case (Cons o' ts us)
  consider "x = o'" | "x \<in> set (forest_oids ts)" | "x \<in> set (forest_oids us)" using Cons.prems(3) by auto
  then show ?case
  proof cases
    case 1
    then show ?thesis using Cons.prems by (intro exI [of _ ps]) auto
  next
    case 2
    then show ?thesis using Cons.IH(1) [of "Some o'" "o' # ps"] Cons.prems by fastforce
  next
    case 3
    then show ?thesis using Cons.IH(2) [of p ps] Cons.prems by fastforce
  qed
qed simp

lemma chain_in_tree:
  assumes "linked h None t" and "x \<in> set (oids t)"
  obtains os where "chain h (Some x) (x # os)" and "set (x # os) \<subseteq> set (oids t)"
  using chain_in_forest [of h None "[t]" "[]" x] assms by auto

lemma drop_cache_simps [simp]:
  "ln_parent (drop_cache n) = ln_parent n" "ln_children (drop_cache n) = ln_children n"
  "ln_node_id (drop_cache n) = ln_node_id n" "drop_cache (drop_cache n) = drop_cache n"
  by (auto simp: drop_cache_def list_ex_iff CACHED_SOURCE_FIELDS_def map_of_eq_None_iff dest!: weak_map_of_SomeI)

lemma invalidate_chain:
  "chain h p os \<Longrightarrow> \<exists>h'. invalidate_cached_source p h = Some h' \<and> next_oid h' = next_oid h \<and> minted h' = minted h
     \<and> (\<forall>x. obj h' x = (if x \<in> set os then drop_cache (obj h x) else obj h x))"
proof (induction os arbitrary: p h)
  case Nil
  then show ?case by (subst invalidate_cached_source.simps) simp
next
  case (Cons o' os)
  let ?h1 = "put o' (drop_cache (obj h o')) h"
  have "chain ?h1 (ln_parent (obj h o')) os" using Cons.prems by (auto intro: chain_cong [of h])
  then obtain h' where "invalidate_cached_source (ln_parent (obj h o')) ?h1 = Some h'"
    "next_oid h' = next_oid h" "minted h' = minted h"
    "\<And>x. obj h' x = (if x \<in> set os then drop_cache (obj ?h1 x) else obj ?h1 x)"
    using Cons.IH by fastforce
  then show ?case
    using Cons.prems by (intro exI [of _ h']) (subst invalidate_cached_source.simps, auto)
qed

section \<open>Rebuilding the indexes\<close>

lemma release_gone_fold:
  "release_gone us live m = fold release (filter (\<lambda>u. \<not> dict_has live u) us) m"
  by (induction us arbitrary: m) auto

lemma assign_step:
  assumes "sid_inv m"
  shows "\<exists>s. (case get_short_id m u of Some s \<Rightarrow> (s, m)
      | None \<Rightarrow> (case allocate u m of (Inr s, m') \<Rightarrow> (s, m') | (Inl _, m') \<Rightarrow> (0, m'))) = (s, sid.ensure u m)
    \<and> get_short_id (sid.ensure u m) u = Some s"
proof (cases "get_short_id m u")
  case None
  then obtain m' where "allocate u m = (Inr (next_short_id m), m')"
    using allocate_new [OF assms, of u] by (metis get_short_id_def)
  then show ?thesis using None sid.issue_ident [OF assms None, of u] by (simp add: sid.ensure_def)
next
  case (Some s)
  then show ?thesis by (simp add: sid.ensure_def)
qed

text \<open>The loop ensures an id for every node, records it in the index and in the node.\<close>

lemma assign_short_ids_result:
  assumes "sid_inv m" and "distinct (map snd live)" and "m' = fold sid.ensure (map fst live) m"
  shows "\<exists>h'. assign_short_ids live m index h
      = (m', fold (\<lambda>(u, _) d. dict_set (the (get_short_id m' u)) u d) live index, h')
    \<and> next_oid h' = next_oid h \<and> minted h' = minted h
    \<and> (\<forall>x. x \<notin> set (map snd live) \<longrightarrow> obj h' x = obj h x)
    \<and> (\<forall>(u, x) \<in> set live. obj h' x = (obj h x)\<lparr>ln_short_id := get_short_id m' u\<rparr>)"
  using assms
proof (induction live arbitrary: m index h)
  case (Cons l live)
  obtain u o' where l: "l = (u, o')" by (cases l)
  obtain s where s: "(case get_short_id m u of Some s \<Rightarrow> (s, m)
      | None \<Rightarrow> (case allocate u m of (Inr s, m') \<Rightarrow> (s, m') | (Inl _, m') \<Rightarrow> (0, m'))) = (s, sid.ensure u m)"
    "get_short_id (sid.ensure u m) u = Some s"
    using assign_step [OF Cons.prems(1)] by blast
  have inv: "sid_inv (sid.ensure u m)" using Cons.prems(1) by (rule sid.ensure_inv)
  have m': "m' = fold sid.ensure (map fst live) (sid.ensure u m)" using Cons.prems(3) l by simp
  have s': "get_short_id m' u = Some s" unfolding m' by (rule sid.ensure_all_keeps [OF inv s(2)])
  let ?h = "put o' ((obj h o')\<lparr>ln_short_id := Some s\<rparr>) h"
  obtain h' where h': "assign_short_ids live (sid.ensure u m) (dict_set s u index) ?h
      = (m', fold (\<lambda>(u, _) d. dict_set (the (get_short_id m' u)) u d) live (dict_set s u index), h')"
    "next_oid h' = next_oid h" "minted h' = minted h"
    "\<forall>x. x \<notin> set (map snd live) \<longrightarrow> obj h' x = obj ?h x"
    "\<forall>(u, x) \<in> set live. obj h' x = (obj ?h x)\<lparr>ln_short_id := get_short_id m' u\<rparr>"
    using Cons.IH [OF inv _ m', of "dict_set s u index" ?h] Cons.prems(2) by (auto simp: l)
  have "assign_short_ids (l # live) m index h
      = (m', fold (\<lambda>(u, _) d. dict_set (the (get_short_id m' u)) u d) (l # live) index, h')"
    using s(1) s' h'(1) by (simp add: l)
  moreover have "obj h' o' = (obj h o')\<lparr>ln_short_id := get_short_id m' u\<rparr>"
    using h'(4) Cons.prems(2) s' by (simp add: l)
  moreover have "obj h' x = (obj h x)\<lparr>ln_short_id := get_short_id m' v\<rparr>" if "(v, x) \<in> set live" for v x
    using that h'(5) Cons.prems(2) by (force simp: l)
  ultimately show ?case
    using h'(2-4) by (intro exI [of _ h']) (auto simp: l)
qed simp

text \<open>
  What the indexes of a document say of a tree: the node table holds its objects under their
  ids, the parent index its links, and every node carries the short id the map has for it,
  under which the short id index holds it.
\<close>

definition doc_indexed :: "tree_document \<Rightarrow> heap \<Rightarrow> otree \<Rightarrow> bool" where
  "doc_indexed doc h t \<longleftrightarrow> td_root doc = t_oid t \<and> distinct (oids t)
     \<and> distinct (map (\<lambda>x. ln_node_id (obj h x)) (oids t)) \<and> sid_inv (td_short_id_map doc)
     \<and> td_nodes_by_id doc = map (\<lambda>x. (ln_node_id (obj h x), x)) (oids t)
     \<and> td_parent_index doc = map (\<lambda>x. (ln_node_id (obj h x),
          map_option (\<lambda>p. ln_node_id (obj h p)) (ln_parent (obj h x)))) (oids t)
     \<and> td_short_id_index doc = map (\<lambda>x. (the (ln_short_id (obj h x)), ln_node_id (obj h x))) (oids t)
     \<and> (\<forall>x \<in> set (oids t). ln_short_id (obj h x) \<noteq> None
          \<and> get_short_id (td_short_id_map doc) (ln_node_id (obj h x)) = ln_short_id (obj h x))"

lemma build_nodes:
  "distinct (map f xs) \<Longrightarrow> fold (\<lambda>x d. dict_set (f x) x d) xs [] = map (\<lambda>x. (f x, x)) xs"
  using dict_build [of "map (\<lambda>x. (f x, x)) xs"] by (simp add: dict_wf_def comp_def fold_map)

lemma reindex_result:
  assumes "shaped h t" and "td_root doc = t_oid t" and "distinct (oids t)"
    and "distinct (map (\<lambda>x. ln_node_id (obj h x)) (oids t))" and "sid_inv (td_short_id_map doc)"
  obtains doc' h' where "reindex doc h = Some (doc', h')" and "doc_indexed doc' h' t"
    and "td_short_id_map doc' = fold sid.ensure (map (\<lambda>x. ln_node_id (obj h x)) (oids t))
      (fold release (filter (\<lambda>u. u \<notin> (\<lambda>x. ln_node_id (obj h x)) ` set (oids t)) (map snd (td_short_id_index doc)))
        (td_short_id_map doc))"
    and "\<And>x. \<exists>s. obj h' x = (obj h x)\<lparr>ln_short_id := s\<rparr>"
    and "\<And>x. x \<notin> set (oids t) \<Longrightarrow> obj h' x = obj h x"
    and "next_oid h' = next_oid h" and "minted h' = minted h"
    and "doc' = doc\<lparr>td_short_id_map := td_short_id_map doc', td_nodes_by_id := td_nodes_by_id doc',
           td_short_id_index := td_short_id_index doc', td_parent_index := td_parent_index doc'\<rparr>"
proof -
  let ?id = "\<lambda>x. ln_node_id (obj h x)"
  let ?live = "map (\<lambda>x. (?id x, x)) (oids t)"
  let ?m = "release_gone (map snd (td_short_id_index doc)) ?live (td_short_id_map doc)"
  define m' where "m' = fold sid.ensure (map fst ?live) ?m"
  have inv: "sid_inv ?m" unfolding release_gone_fold by (rule sid.forget_all_inv [OF assms(5)])
  have inv': "sid_inv m'" unfolding m'_def by (rule sid.ensure_all_inv [OF inv])
  have has: "dict_has ?live u \<longleftrightarrow> u \<in> ?id ` set (oids t)" for u
    by (simp add: map_of_eq_None_iff image_image)
  have dist: "distinct (map snd ?live)" using assms(3) by (simp add: comp_def)
  obtain h' where h': "assign_short_ids ?live ?m [] h
      = (m', fold (\<lambda>(u, _) d. dict_set (the (get_short_id m' u)) u d) ?live [], h')"
    "next_oid h' = next_oid h" "minted h' = minted h" "\<And>x. x \<notin> set (oids t) \<Longrightarrow> obj h' x = obj h x"
    "\<And>x. x \<in> set (oids t) \<Longrightarrow> obj h' x = (obj h x)\<lparr>ln_short_id := get_short_id m' (?id x)\<rparr>"
    using assign_short_ids_result [OF inv dist m'_def, of "[]" h] by (auto simp: comp_def)
  have some: "\<exists>s. get_short_id m' (?id x) = Some s" if "x \<in> set (oids t)" for x
    unfolding m'_def using that by (intro sid.ensure_all_gives [OF inv]) simp
  have inj: "x = y" if "x \<in> set (oids t)" "y \<in> set (oids t)"
      "the (get_short_id m' (?id x)) = the (get_short_id m' (?id y))" for x y
  proof -
    have "?id x = ?id y"
      using some [OF that(1)] some [OF that(2)] that(3) sid.ident_inj [OF inv'] by fastforce
    then show ?thesis using assms(4) that(1,2) by (auto simp: distinct_map inj_on_def)
  qed
  have index: "fold (\<lambda>(u, _) d. dict_set (the (get_short_id m' u)) u d) ?live []
      = map (\<lambda>x. (the (get_short_id m' (?id x)), ?id x)) (oids t)"
  proof -
    have "distinct (map (\<lambda>x. the (get_short_id m' (?id x))) (oids t))"
      using inj assms(3) by (auto simp: distinct_map inj_on_def)
    then show ?thesis
      using dict_build [of "map (\<lambda>x. (the (get_short_id m' (?id x)), ?id x)) (oids t)"]
      by (simp add: dict_wf_def comp_def fold_map)
  qed
  have same: "ln_node_id (obj h' x) = ?id x" "ln_parent (obj h' x) = ln_parent (obj h x)" for x
    using h'(4,5) by (cases "x \<in> set (oids t)", simp, simp)+
  define doc' where "doc' = doc\<lparr>td_short_id_map := m', td_nodes_by_id := ?live,
      td_short_id_index := map (\<lambda>x. (the (get_short_id m' (?id x)), ?id x)) (oids t),
      td_parent_index := map (\<lambda>x. (?id x, map_option ?id (ln_parent (obj h x)))) (oids t)\<rparr>"
  have run: "reindex doc h = Some (doc', h')"
    using walk_tree [OF assms(1)] assms(2) h'(1) index build_nodes [OF assms(4)]
    by (simp add: reindex_def doc'_def Let_def comp_def)
  have "doc_indexed doc' h' t"
    using assms(2-4) inv' same h'(5) some
    by (auto simp: doc_indexed_def doc'_def option.map_comp intro!: option.map_cong)
  moreover have "\<exists>s. obj h' x = (obj h x)\<lparr>ln_short_id := s\<rparr>" for x
  proof (cases "x \<in> set (oids t)")
    case False
    then have "obj h' x = (obj h x)\<lparr>ln_short_id := ln_short_id (obj h x)\<rparr>" using h'(4) by simp
    then show ?thesis by blast
  qed (use h'(5) in blast)
  moreover have "m' = fold sid.ensure (map ?id (oids t))
      (fold release (filter (\<lambda>u. u \<notin> ?id ` set (oids t)) (map snd (td_short_id_index doc))) (td_short_id_map doc))"
    unfolding m'_def release_gone_fold has by (simp add: comp_def)
  ultimately show ?thesis
    using that [OF run] h'(2-4) by (simp add: doc'_def)
qed

lemma reindex_outcome:
  assumes "shaped h t" and "td_root doc = t_oid t" and "distinct (oids t)"
    and "distinct (map (\<lambda>x. ln_node_id (obj h x)) (oids t))" and "sid_inv (td_short_id_map doc)"
  shows "\<exists>doc' h'. reindex doc h = Some (doc', h') \<and> doc_indexed doc' h' t
    \<and> (\<forall>x. \<exists>s. obj h' x = (obj h x)\<lparr>ln_short_id := s\<rparr>)
    \<and> (\<forall>x \<in> set (oids t). case get_short_id (td_short_id_map doc) (ln_node_id (obj h x)) of
          Some s \<Rightarrow> ln_short_id (obj h' x) = Some s
        | None \<Rightarrow> \<exists>s. ln_short_id (obj h' x) = Some s \<and> next_short_id (td_short_id_map doc) \<le> s)
    \<and> (\<forall>u \<in> set (map snd (td_short_id_index doc)). u \<notin> (\<lambda>x. ln_node_id (obj h x)) ` set (oids t)
          \<longrightarrow> get_short_id (td_short_id_map doc') u = None)"
proof -
  let ?id = "\<lambda>x. ln_node_id (obj h x)"
  let ?gone = "filter (\<lambda>u. u \<notin> ?id ` set (oids t)) (map snd (td_short_id_index doc))"
  let ?m = "fold release ?gone (td_short_id_map doc)"
  obtain doc' h' where run: "reindex doc h = Some (doc', h')" and ix: "doc_indexed doc' h' t"
    and m': "td_short_id_map doc' = fold sid.ensure (map ?id (oids t)) ?m"
    and same: "\<And>x. \<exists>s. obj h' x = (obj h x)\<lparr>ln_short_id := s\<rparr>"
    by (rule reindex_result [OF assms]) blast
  have inv: "sid_inv ?m" by (rule sid.forget_all_inv [OF assms(5)])
  have id: "ln_node_id (obj h' x) = ?id x" for x
  proof -
    obtain s where "obj h' x = (obj h x)\<lparr>ln_short_id := s\<rparr>" using same by blast
    then show ?thesis by simp
  qed
  have short: "ln_short_id (obj h' x) = get_short_id (td_short_id_map doc') (?id x)" if "x \<in> set (oids t)" for x
    using ix that id by (simp add: doc_indexed_def)
  have kept: "get_short_id ?m (?id x) = get_short_id (td_short_id_map doc) (?id x)" if "x \<in> set (oids t)" for x
    using that by (simp add: sid.forget_all_ident [OF assms(5)])
  have "case get_short_id (td_short_id_map doc) (?id x) of
      Some s \<Rightarrow> ln_short_id (obj h' x) = Some s
    | None \<Rightarrow> \<exists>s. ln_short_id (obj h' x) = Some s \<and> next_short_id (td_short_id_map doc) \<le> s"
    if x: "x \<in> set (oids t)" for x
  proof (cases "get_short_id (td_short_id_map doc) (?id x)")
    case None
    obtain s where s: "get_short_id (td_short_id_map doc') (?id x) = Some s"
      unfolding m' using sid.ensure_all_gives [OF inv, of "?id x" "map ?id (oids t)"] x by auto
    then have "next_short_id ?m \<le> s"
      using sid.ensure_all_only [OF inv, of "map ?id (oids t)" "?id x" s] kept [OF x] None m' by simp
    then show ?thesis using None short [OF x] s by (simp add: sid.forget_all_counter [OF assms(5)])
  next
    case (Some s)
    then have "get_short_id (td_short_id_map doc') (?id x) = Some s"
      unfolding m' using kept [OF x] by (intro sid.ensure_all_keeps [OF inv]) simp
    then show ?thesis using Some short [OF x] by simp
  qed
  moreover have "get_short_id (td_short_id_map doc') u = None"
    if "u \<in> set (map snd (td_short_id_index doc))" "u \<notin> ?id ` set (oids t)" for u
  proof -
    have "get_short_id ?m u = None" using that by (simp add: sid.forget_all_ident [OF assms(5)])
    then show ?thesis unfolding m' using sid.ensure_all_other [OF inv, of u "map ?id (oids t)"] that(2) by simp
  qed
  ultimately show ?thesis using run ix same by blast
qed

text \<open>
  C4. Reindexing restores the document: on any tree of linked objects with distinct ids,
  whatever the indexes held before, it returns indexes that describe exactly that tree,
  changes nothing of the nodes but their short ids, lets every node keep the short id the
  map holds for it, gives the others ids above all issued before, and withdraws the ids of
  the indexed nodes that are gone.
\<close>

theorem reindex_restores_indexes:
  assumes "shaped h t" and "td_root doc = t_oid t" and "distinct (oids t)"
    and "distinct (map (\<lambda>x. ln_node_id (obj h x)) (oids t))" and "sid_inv (td_short_id_map doc)"
  shows "\<exists>doc' h'. reindex doc h = Some (doc', h') \<and> doc_indexed doc' h' t
    \<and> (\<forall>x. \<exists>s. obj h' x = (obj h x)\<lparr>ln_short_id := s\<rparr>)
    \<and> (\<forall>x \<in> set (oids t). case get_short_id (td_short_id_map doc) (ln_node_id (obj h x)) of
          Some s \<Rightarrow> ln_short_id (obj h' x) = Some s
        | None \<Rightarrow> \<exists>s. ln_short_id (obj h' x) = Some s \<and> next_short_id (td_short_id_map doc) \<le> s)
    \<and> (\<forall>u \<in> set (map snd (td_short_id_index doc)). u \<notin> (\<lambda>x. ln_node_id (obj h x)) ` set (oids t)
          \<longrightarrow> get_short_id (td_short_id_map doc') u = None)"
  by (rule reindex_outcome [OF assms])

section \<open>An example tree\<close>

text \<open>A root, with children 1 and 2; its fields cache source and hold the children.\<close>

definition example_node :: "oid \<Rightarrow> live_node" where
  "example_node x = \<lparr>ln_kind = ''k'', ln_fields = (if x = 0 then [(''raw'', LPrim (PStr ''x'')), (''items'', LSeq [LRef 1])] else []),
     ln_children = (if x = 0 then [1, 2] else []), ln_node_id = word_of_nat (10 + x), ln_short_id = None,
     ln_extended_type = None, ln_buffer_range = None, ln_references = [],
     ln_parent = (if x = 1 \<or> x = 2 then Some 0 else None)\<rparr>"

definition example_heap :: heap where
  "example_heap = \<lparr>objects = example_node, next_oid = 3, minted = 0\<rparr>"

abbreviation example_otree :: otree where
  "example_otree \<equiv> T 0 [T 1 [], T 2 []]"

definition example_doc :: tree_document where
  "example_doc = \<lparr>td_document_id = 5, td_document_version = 1, td_root = 0, td_source_format_id = ''json'',
     td_format_id = ''json'', td_source_bytes = [], td_path = None, td_short_id_map = new_short_id_map 1,
     td_nodes_by_id = [], td_short_id_index = [], td_parent_index = []\<rparr>"

lemma example_linked: "linked example_heap None example_otree"
  by (simp add: example_heap_def example_node_def)

lemma example_ids_distinct: "distinct (map (\<lambda>x. ln_node_id (obj example_heap x)) (oids example_otree))"
  by (simp add: example_heap_def example_node_def)

theorem reindex_restores_indexes_witness:
  "\<exists>doc' h'. reindex example_doc example_heap = Some (doc', h') \<and> doc_indexed doc' h' example_otree"
proof -
  have "shaped example_heap example_otree" using linked_shaped [of example_heap None "[example_otree]"] example_linked by simp
  moreover have "td_root example_doc = t_oid example_otree" "sid_inv (td_short_id_map example_doc)"
    by (simp_all add: example_doc_def)
  ultimately show ?thesis
    using reindex_restores_indexes [OF _ _ _ example_ids_distinct, of example_doc] by auto
qed

section \<open>Fields follow children\<close>



text \<open>
  A sequence that became empty is no longer recognised: once the last child was deleted and
  mirrored, the field stays empty whatever is inserted, and the edit is accepted.
\<close>

lemma sync_ignores_emptied_sequence:
  assumes "ln_fields (obj h p) = [(name, LSeq [])]" and "ln_children (obj h p) = [c]"
  shows "sync_fields (Some p) h = Some h"
  using assms by (simp add: sync_fields_def is_node_sequence_def is_ref_def)

section \<open>Mirroring loses nothing\<close>

lemma node_forest_induct [case_names Nil Cons]:
  assumes "P []" and "\<And>k fs cs i s x r refs ns. P cs \<Longrightarrow> P ns \<Longrightarrow> P (Node k fs cs i s x r refs # ns)"
  shows "P ns"
proof (induction "size_list size ns" arbitrary: ns rule: less_induct)
  case less
  show ?case
  proof (cases ns)
    case (Cons n us)
    obtain k fs cs i s x r refs where n: "n = Node k fs cs i s x r refs" by (cases n)
    show ?thesis unfolding Cons n by (rule assms(2); rule less) (simp_all add: Cons n)
  qed (simp add: assms(1))
qed

fun node_depth :: "node \<Rightarrow> nat" where
  "node_depth (Node k fs cs i s x r refs) = Suc (foldr max (map node_depth cs) 0)"

fun identified :: "node \<Rightarrow> bool" where
  "identified (Node k fs cs i s x r refs) \<longleftrightarrow> i \<noteq> None \<and> list_all identified cs"

text \<open>The tree \<open>t\<close> of live objects mirrors the frozen node.\<close>

fun mirror :: "heap \<Rightarrow> oid option \<Rightarrow> otree \<Rightarrow> node \<Rightarrow> bool" where
  "mirror h p (T o' ts) (Node k fs cs i s x r refs) \<longleftrightarrow>
     (\<exists>u. (i = None \<or> i = Some u) \<and> obj h o' = \<lparr>ln_kind = k,
        ln_fields = map (\<lambda>(name, f). (name, remap_live (map t_oid ts) f)) fs, ln_children = map t_oid ts,
        ln_node_id = u, ln_short_id = s, ln_extended_type = x, ln_buffer_range = r,
        ln_references = refs, ln_parent = p\<rparr>)
     \<and> list_all2 (mirror h (Some o')) ts cs"

lemma mirror_linked: "list_all2 (mirror h p) ts ns \<Longrightarrow> list_all (linked h p) ts"
proof (induction ns arbitrary: p ts rule: node_forest_induct)
  case (Cons k fs cs i s x r refs ns)
  then obtain o' us vs where ts: "ts = T o' us # vs" by (metis list_all2_Cons2 otree.exhaust)
  then show ?case using Cons by auto
qed simp

lemma mirror_cong:
  "list_all2 (mirror h p) ts ns \<Longrightarrow> (\<And>x. x \<in> set (forest_oids ts) \<Longrightarrow> obj h' x = obj h x)
   \<Longrightarrow> list_all2 (mirror h' p) ts ns"
proof (induction ns arbitrary: p ts rule: node_forest_induct)
  case (Cons k fs cs i s x r refs ns)
  then obtain o' us vs where ts: "ts = T o' us # vs" by (metis list_all2_Cons2 otree.exhaust)
  then show ?case using Cons.IH Cons.prems by auto
qed simp

lemma to_live_list_mirrors:
  "to_live_list gen ns p h = (os, h') \<Longrightarrow>
   \<exists>ts. map t_oid ts = os \<and> list_all2 (mirror h' p) ts ns \<and> distinct (forest_oids ts)
     \<and> set (forest_oids ts) = {next_oid h..<next_oid h'} \<and> next_oid h \<le> next_oid h'
     \<and> (\<forall>x < next_oid h. obj h' x = obj h x)"
proof (induction ns arbitrary: p h os h' rule: node_forest_induct)
  case (Cons k fs cs i s x r refs ns)
  let ?p = "case i of Some u \<Rightarrow> (u, h) | None \<Rightarrow> generate_node_id gen h"
  let ?n = "\<lparr>ln_kind = k, ln_fields = [], ln_children = [], ln_node_id = fst ?p, ln_short_id = s,
     ln_extended_type = x, ln_buffer_range = r, ln_references = refs, ln_parent = p\<rparr>"
  let ?o = "next_oid h"
  have p: "next_oid (snd ?p) = next_oid h" "objects (snd ?p) = objects h" "i = None \<or> i = Some (fst ?p)"
    by (auto simp: generate_node_id_def split: option.splits)
  define h1 where "h1 = snd (alloc ?n (snd ?p))"
  obtain cos h2 where h2: "to_live_list gen cs (Some ?o) h1 = (cos, h2)" by (cases "to_live_list gen cs (Some ?o) h1")
  define h3 where "h3 = put ?o (?n\<lparr>ln_children := cos, ln_fields := map (\<lambda>(name, f). (name, remap_live cos f)) fs\<rparr>) h2"
  have one: "to_live gen (Node k fs cs i s x r refs) p h = (?o, h3)"
  proof -
    obtain u h0 where u: "?p = (u, h0)" by (cases ?p)
    then show ?thesis using h2 p(1) by (simp add: h1_def h3_def alloc_def Let_def)
  qed
  obtain nos h4 where h4: "to_live_list gen ns p h3 = (nos, h4)" by (cases "to_live_list gen ns p h3")
  have run: "os = ?o # nos" "h' = h4" using Cons.prems one h4 by simp_all
  have h1: "next_oid h1 = Suc ?o" "\<And>y. y < ?o \<Longrightarrow> obj h1 y = obj h y"
    using p by (simp_all add: h1_def alloc_def)
  obtain ts where ts: "map t_oid ts = cos" "list_all2 (mirror h2 (Some ?o)) ts cs" "distinct (forest_oids ts)"
    "set (forest_oids ts) = {Suc ?o..<next_oid h2}" "Suc ?o \<le> next_oid h2" "\<And>y. y < Suc ?o \<Longrightarrow> obj h2 y = obj h1 y"
    using Cons.IH(1) [OF h2] h1(1) by auto
  have h3: "next_oid h3 = next_oid h2" "\<And>y. y \<noteq> ?o \<Longrightarrow> obj h3 y = obj h2 y" by (simp_all add: h3_def)
  obtain us where us: "map t_oid us = nos" "list_all2 (mirror h4 p) us ns" "distinct (forest_oids us)"
    "set (forest_oids us) = {next_oid h2..<next_oid h4}" "next_oid h2 \<le> next_oid h4" "\<And>y. y < next_oid h2 \<Longrightarrow> obj h4 y = obj h3 y"
    using Cons.IH(2) [OF h4] h3(1) by auto
  have "list_all2 (mirror h4 (Some ?o)) ts cs"
    using ts(4) h3(2) us(6) by (intro mirror_cong [OF ts(2)]) auto
  moreover have "obj h4 ?o = ?n\<lparr>ln_children := cos, ln_fields := map (\<lambda>(name, f). (name, remap_live cos f)) fs\<rparr>"
    using us(6) [of ?o] ts(5) by (simp add: h3_def)
  ultimately have "mirror h4 p (T ?o ts) (Node k fs cs i s x r refs)"
    using p(3) ts(1) by auto
  moreover have "distinct (forest_oids (T ?o ts # us))" using ts(3,4,5) us(3,4) by auto
  moreover have "set (forest_oids (T ?o ts # us)) = {?o..<next_oid h4}"
    using ts(4,5) us(4,5) by auto
  moreover have "obj h4 y = obj h y" if "y < ?o" for y
    using that us(6) h3(2) ts(5,6) h1(2) by simp
  ultimately show ?case
    using us(1,2,5) ts(5) run by (intro exI [of _ "T ?o ts # us"]) simp
qed simp

lemma to_live_mirrors:
  assumes "to_live gen n p h = (live, h')"
  obtains t where "t_oid t = live" and "mirror h' p t n" and "distinct (oids t)"
    and "set (oids t) = {next_oid h..<next_oid h'}" and "next_oid h \<le> next_oid h'"
    and "\<And>x. x < next_oid h \<Longrightarrow> obj h' x = obj h x"
proof -
  have "to_live_list gen [n] p h = ([live], h')" using assms by simp
  from to_live_list_mirrors [OF this] show ?thesis using that by (fastforce simp: list_all2_Cons2)
qed

lemma collect_all: "list_all2 (\<lambda>x y. f x = Some (Inr y)) xs ys \<Longrightarrow> collect (map f xs) = Some (Inr ys)"
  by (induction xs ys rule: list_all2_induct) simp_all

lemma remap_back:
  assumes "distinct os" and "field_ok (length os) f"
  shows "remap_frozen g os (remap_live os f) = Some (Inr f)"
proof -
  have atom: "remap_frozen g os (remap_live os f') = Some (Inr f')"
    if "(\<exists>i < length os. f' = FChild i) \<or> (\<exists>n. f' = FNode n)" for f'
    using that list_index_distinct [OF assms(1)] by auto
  show ?thesis
  proof (cases f)
    case (FSeq fs)
    then have "list_all2 (\<lambda>x y. remap_frozen g os x = Some (Inr y)) (map (remap_live os) fs) fs"
      using assms(2) atom by (auto simp: list_all2_map1 list_all2_same list_all_iff)
    from collect_all [OF this] show ?thesis by (simp add: FSeq comp_def)
  next
    case (FChild i)
    then show ?thesis using assms(2) atom [of f] by simp
  qed simp_all
qed

lemma foldr_max_le: "foldr max ks 0 \<le> (n :: nat) \<longleftrightarrow> list_all (\<lambda>k. k \<le> n) ks"
  by (induction ks) auto

lemma mirror_freezes:
  "list_all2 (mirror h p) ts ns \<Longrightarrow> list_all node_ok ns \<Longrightarrow> list_all identified ns \<Longrightarrow> distinct (forest_oids ts)
   \<Longrightarrow> list_all (\<lambda>n. node_depth n \<le> fuel) ns \<Longrightarrow> list_all2 (\<lambda>t n. to_frozen fuel h (t_oid t) = Some (Inr n)) ts ns"
proof (induction ns arbitrary: p ts fuel rule: node_forest_induct)
  case (Cons k fs cs i s x r refs ns)
  then obtain o' us vs where ts: "ts = T o' us # vs" by (metis list_all2_Cons2 otree.exhaust)
  obtain fuel' where fuel: "fuel = Suc fuel'" using Cons.prems(5) by (cases fuel) auto
  obtain u where u: "i = Some u" and o': "obj h o' = \<lparr>ln_kind = k,
        ln_fields = map (\<lambda>(name, f). (name, remap_live (map t_oid us) f)) fs, ln_children = map t_oid us,
        ln_node_id = u, ln_short_id = s, ln_extended_type = x, ln_buffer_range = r,
        ln_references = refs, ln_parent = p\<rparr>" and sub: "list_all2 (mirror h (Some o')) us cs"
    using Cons.prems(1,3) by (auto simp: ts)
  have "list_all2 (\<lambda>t n. to_frozen fuel' h (t_oid t) = Some (Inr n)) us cs"
    using Cons.IH(1) [OF sub] Cons.prems(2-5) by (simp add: ts fuel foldr_max_le list_all_iff)
  then have kids: "collect (map (to_frozen fuel' h) (map t_oid us)) = Some (Inr cs)"
    using collect_all [of "\<lambda>t. to_frozen fuel' h (t_oid t)" us cs] by (simp add: comp_def)
  have "distinct (map t_oid us)"
  proof -
    have "distinct (forest_oids us)" using Cons.prems(4) by (simp add: ts)
    then show ?thesis
    proof (induction us)
      case (Cons a us)
      then show ?case by (cases a) (auto dest!: bspec)
    qed simp
  qed
  moreover have "length us = length cs" using sub by (rule list_all2_lengthD)
  ultimately have "list_all2 (\<lambda>x y. (\<lambda>(name, f). map_option (map_sum id (Pair name)) (remap_frozen (to_frozen fuel' h) (map t_oid us) f)) x
      = Some (Inr y)) (map (\<lambda>(name, f). (name, remap_live (map t_oid us) f)) fs) fs"
    using Cons.prems(2) remap_back [of "map t_oid us"]
    by (auto simp: list_all2_map1 list_all2_same list_all_iff)
  then have "remap_frozen_fields (to_frozen fuel' h) (map t_oid us)
      (map (\<lambda>(name, f). (name, remap_live (map t_oid us) f)) fs) = Some (Inr fs)"
    unfolding remap_frozen_fields_def by (rule collect_all)
  then have "to_frozen fuel h o' = Some (Inr (Node k fs cs i s x r refs))"
    using kids Cons.prems(2) o' by (simp add: fuel u)
  moreover have "list_all2 (\<lambda>t n. to_frozen fuel h (t_oid t) = Some (Inr n)) vs ns"
    using Cons.IH(2) [of p vs fuel] Cons.prems by (auto simp: ts)
  ultimately show ?case by (simp add: ts)
qed simp

text \<open>
  C20. Mirroring is lossless: a well-formed node whose nodes all have ids, mirrored into live
  objects, yields a correctly linked tree of fresh objects that leaves every older object
  alone, and freezing it returns the very same node; fuel for the depth of the node is
  enough.
\<close>

theorem live_frozen_roundtrip:
  assumes "node_ok n" and "identified n" and "node_depth n \<le> fuel"
    and "to_live gen n parent h = (live, h')"
  shows "to_frozen fuel h' live = Some (Inr n)
    \<and> (\<exists>t. t_oid t = live \<and> linked h' parent t \<and> distinct (oids t) \<and> (\<forall>x \<in> set (oids t). next_oid h \<le> x))
    \<and> (\<forall>x < next_oid h. obj h' x = obj h x)"
proof -
  obtain t where t: "t_oid t = live" "mirror h' parent t n" "distinct (oids t)"
    "set (oids t) = {next_oid h..<next_oid h'}" "\<And>x. x < next_oid h \<Longrightarrow> obj h' x = obj h x"
    by (rule to_live_mirrors [OF assms(4)]) blast
  have "to_frozen fuel h' live = Some (Inr n)"
    using mirror_freezes [of h' parent "[t]" "[n]" fuel] t(1-3) assms(1-3) by simp
  moreover have "linked h' parent t" using mirror_linked [of h' parent "[t]" "[n]"] t(2) by simp
  ultimately show ?thesis using t by (intro conjI exI [of _ t]) auto
qed

theorem live_frozen_roundtrip_witness:
  "let n = Node ''json:Array'' [(''items'', FSeq [FChild 0])]
        [Node ''json:Number'' [(''value'', FPrim (PInt 3))] [] (Some 2) None None None []] (Some 1) (Some 4) None None []
   in to_frozen 2 (snd (to_live word_of_nat n None example_heap)) 3 = Some (Inr n)"
proof -
  let ?n = "Node ''json:Array'' [(''items'', FSeq [FChild 0])]
        [Node ''json:Number'' [(''value'', FPrim (PInt 3))] [] (Some 2) None None None []] (Some 1) (Some 4) None None []"
  obtain live h' where run: "to_live word_of_nat ?n None example_heap = (live, h')"
    by (cases "to_live word_of_nat ?n None example_heap")
  then have "live = 3" by (simp add: alloc_def example_heap_def Let_def split: prod.splits)
  then show ?thesis
    using live_frozen_roundtrip [of ?n 2, OF _ _ _ run] run by (simp add: Let_def)
qed

end
