(* ===== verification/Trees.thy ===== *)
theory Trees
  imports Live_Tree "HOL-Library.Multiset"
begin

text \<open>
  The abstract view the tree operations refine: replacing a range of the children of one node
  of a tree. What it does to the objects of the tree, and when objects linked as the new tree
  are linked as the result. The worklist traversal the operations use, and short facts on
  the heap.
\<close>

section \<open>Replacing a range of children\<close>

fun splice_tree :: "oid \<Rightarrow> nat \<Rightarrow> nat \<Rightarrow> otree list \<Rightarrow> otree \<Rightarrow> otree" where
  "splice_tree p i j new (T x ts) =
     (if x = p then T x (list_splice i j new ts) else T x (map (splice_tree p i j new) ts))"

text \<open>The subtrees below the node \<open>p\<close>.\<close>

fun subs_of :: "oid \<Rightarrow> otree \<Rightarrow> otree list" where
  "subs_of p (T x ts) = (if x = p then ts else concat (map (subs_of p) ts))"

abbreviation forest_subs :: "oid \<Rightarrow> otree list \<Rightarrow> otree list" where
  "forest_subs p ts \<equiv> concat (map (subs_of p) ts)"

lemma t_oid_splice [simp]: "t_oid (splice_tree p i j new t) = t_oid t"
  by (cases t) simp

lemma splice_absent: "p \<notin> set (forest_oids ts) \<Longrightarrow> map (splice_tree p i j new) ts = ts"
  by (induction ts rule: forest_induct) auto

lemma subs_absent: "p \<notin> set (forest_oids ts) \<Longrightarrow> forest_subs p ts = []"
  by (induction ts rule: forest_induct) auto

lemma subs_inside: "set (forest_oids (forest_subs p ts)) \<subseteq> set (forest_oids ts)"
proof (induction ts rule: forest_induct)
  case (Cons x ts us)
  have "set (forest_oids (forest_subs p (T x ts # us)))
      = set (forest_oids (if x = p then ts else forest_subs p ts)) \<union> set (forest_oids (forest_subs p us))"
    by simp
  also have "\<dots> \<subseteq> set (forest_oids ts) \<union> set (forest_oids us)"
    using Cons.IH by (intro Un_mono) simp_all
  also have "\<dots> \<subseteq> set (forest_oids (T x ts # us))" by auto
  finally show ?case .
qed simp

lemma subs_distinct_forest:
  "distinct (forest_oids ts) \<Longrightarrow> distinct (forest_oids (forest_subs p ts)) \<and> p \<notin> set (forest_oids (forest_subs p ts))"
proof (induction ts rule: forest_induct)
  case (Cons x ts us)
  have dist: "distinct (forest_oids ts)" "distinct (forest_oids us)" "x \<notin> set (forest_oids ts)" "x \<notin> set (forest_oids us)"
    "set (forest_oids ts) \<inter> set (forest_oids us) = {}" using Cons.prems by simp_all
  show ?case
  proof (cases "x = p")
    case True
    then have "forest_subs p (T x ts # us) = ts" using dist(4) subs_absent [of p us] by simp
    then show ?thesis using dist(1,3) True by (simp only: simp_thms)
  next
    case False
    have "set (forest_oids (forest_subs p ts)) \<inter> set (forest_oids (forest_subs p us)) = {}"
      using subs_inside [of p ts] subs_inside [of p us] dist(5) by blast
    then show ?thesis using Cons.IH dist(1,2) False by simp
  qed
qed simp

lemma subs_distinct:
  assumes "distinct (oids t)"
  shows "distinct (forest_oids (subs_of p t))" and "p \<notin> set (forest_oids (subs_of p t))"
    and "set (forest_oids (subs_of p t)) \<subseteq> set (oids t)"
  using subs_distinct_forest [of "[t]" p] subs_inside [of p "[t]"] assms by simp_all

lemma slice_inside: "set (forest_oids (list_slice i j xs)) \<subseteq> set (forest_oids xs)"
  by (auto simp: list_slice_def dest!: in_set_takeD in_set_dropD)

text \<open>The new tree holds the objects of the old one, less those below the range, plus the new.\<close>

lemma forest_mset_splice:
  assumes "i \<le> j" "j \<le> length ts"
  shows "mset (forest_oids (list_splice i j new ts)) + mset (forest_oids (list_slice i j ts))
    = mset (forest_oids ts) + mset (forest_oids new)"
proof -
  have "ts = take i ts @ list_slice i j ts @ drop j ts"
    using assms by (metis append.assoc append_take_drop_id le_add_diff_inverse list_slice_def take_add)
  then have "mset (forest_oids ts) = mset (forest_oids (take i ts)) + mset (forest_oids (list_slice i j ts))
      + mset (forest_oids (drop j ts))"
    by (metis (no_types, lifting) concat_append map_append mset_append union_assoc)
  then show ?thesis by (simp add: list_splice_def)
qed

lemma mset_splice_forest:
  "distinct (forest_oids ts) \<Longrightarrow> p \<in> set (forest_oids ts) \<Longrightarrow> i \<le> j \<Longrightarrow> j \<le> length (forest_subs p ts)
   \<Longrightarrow> mset (forest_oids (map (splice_tree p i j new) ts)) + mset (forest_oids (list_slice i j (forest_subs p ts)))
     = mset (forest_oids ts) + mset (forest_oids new)"
proof (induction ts rule: forest_induct)
  case (Cons x ts us)
  consider "p = x" | "p \<noteq> x" "p \<in> set (forest_oids ts)" | "p \<noteq> x" "p \<in> set (forest_oids us)"
    using Cons.prems(2) by auto
  then show ?case
  proof cases
    case 1
    then have "p \<notin> set (forest_oids us)" using Cons.prems(1) by auto
    with 1 show ?thesis
      using Cons.prems forest_mset_splice [of i j ts new]
      by (simp add: splice_absent subs_absent add.assoc add.left_commute)
  next
    case 2
    then have no: "p \<notin> set (forest_oids us)" using Cons.prems(1) by auto
    then have "mset (forest_oids (map (splice_tree p i j new) ts)) + mset (forest_oids (list_slice i j (forest_subs p ts)))
        = mset (forest_oids ts) + mset (forest_oids new)"
      using Cons.IH(1) Cons.prems 2 by (simp add: subs_absent)
    with 2 no show ?thesis by (simp add: splice_absent subs_absent ac_simps)
  next
    case 3
    then have no: "p \<notin> set (forest_oids ts)" using Cons.prems(1) by auto
    then have "mset (forest_oids (map (splice_tree p i j new) us)) + mset (forest_oids (list_slice i j (forest_subs p us)))
        = mset (forest_oids us) + mset (forest_oids new)"
      using Cons.IH(2) Cons.prems 3 by (simp add: subs_absent)
    with 3 no show ?thesis by (simp add: splice_absent subs_absent ac_simps)
  qed
qed simp

lemma mset_splice:
  assumes "distinct (oids t)" "p \<in> set (oids t)" "i \<le> j" "j \<le> length (subs_of p t)"
  shows "mset (oids (splice_tree p i j new t)) + mset (forest_oids (list_slice i j (subs_of p t)))
    = mset (oids t) + mset (forest_oids new)"
  using mset_splice_forest [of "[t]" p i j new] assms by simp

lemma splice_oids:
  assumes "distinct (oids t)" "p \<in> set (oids t)" "i \<le> j" "j \<le> length (subs_of p t)"
    and "distinct (forest_oids new)" "set (forest_oids new) \<inter> set (oids t) = {}"
  shows "distinct (oids (splice_tree p i j new t))"
    and "set (oids (splice_tree p i j new t))
      = (set (oids t) - set (forest_oids (list_slice i j (subs_of p t)))) \<union> set (forest_oids new)"
proof -
  let ?R = "forest_oids (list_slice i j (subs_of p t))"
  have eq: "mset (oids (splice_tree p i j new t)) + mset ?R = mset (oids t @ forest_oids new)"
    using mset_splice [OF assms(1-4)] by simp
  have d: "distinct (oids t @ forest_oids new)" using assms(1,5,6) by auto
  have dd: "distinct (oids (splice_tree p i j new t) @ ?R)"
    using eq d by (metis mset_append mset_eq_imp_distinct_iff)
  then show "distinct (oids (splice_tree p i j new t))" by simp
  have "set ?R \<subseteq> set (oids t)"
    using subs_inside [of p "[t]"] slice_inside [of i j "subs_of p t"] by simp
  moreover have "set (oids (splice_tree p i j new t)) \<union> set ?R = set (oids t) \<union> set (forest_oids new)"
    using arg_cong [OF eq, of set_mset] by simp
  moreover have "set (oids (splice_tree p i j new t)) \<inter> set ?R = {}" using dd by auto
  ultimately show "set (oids (splice_tree p i j new t)) = (set (oids t) - set ?R) \<union> set (forest_oids new)"
    using assms(6) by blast
qed

section \<open>Links around a node\<close>

lemma linked_subs_forest:
  "list_all (linked h q) ts \<Longrightarrow> distinct (forest_oids ts) \<Longrightarrow> p \<in> set (forest_oids ts)
   \<Longrightarrow> list_all (linked h (Some p)) (forest_subs p ts) \<and> ln_children (obj h p) = map t_oid (forest_subs p ts)"
proof (induction ts arbitrary: q rule: forest_induct)
  case (Cons x ts us)
  consider "p = x" | "p \<noteq> x" "p \<in> set (forest_oids ts)" | "p \<noteq> x" "p \<in> set (forest_oids us)"
    using Cons.prems(3) by auto
  then show ?case
  proof cases
    case 1
    then have "p \<notin> set (forest_oids us)" using Cons.prems(2) by auto
    with 1 show ?thesis using Cons.prems(1) by (simp add: subs_absent)
  next
    case 2
    then have "p \<notin> set (forest_oids us)" using Cons.prems(2) by auto
    with 2 show ?thesis using Cons.IH(1) [of "Some x"] Cons.prems(1,2) by (simp add: subs_absent)
  next
    case 3
    then have "p \<notin> set (forest_oids ts)" using Cons.prems(2) by auto
    with 3 show ?thesis using Cons.IH(2) [of q] Cons.prems(1,2) by (simp add: subs_absent)
  qed
qed simp

lemma linked_subs:
  assumes "linked h q t" "distinct (oids t)" "p \<in> set (oids t)"
  shows "list_all (linked h (Some p)) (subs_of p t)" and "ln_children (obj h p) = map t_oid (subs_of p t)"
  using linked_subs_forest [of h q "[t]" p] assms by simp_all

text \<open>An object of the tree whose parent is \<open>p\<close> is a child of \<open>p\<close>.\<close>

lemma parent_forest:
  "list_all (linked h q) ts \<Longrightarrow> x \<in> set (forest_oids ts) \<Longrightarrow> ln_parent (obj h x) = Some p
   \<Longrightarrow> q = Some p \<and> x \<in> t_oid ` set ts \<or> p \<in> set (forest_oids ts) \<and> x \<in> set (ln_children (obj h p))"
proof (induction ts arbitrary: q rule: forest_induct)
  case (Cons y ts us)
  consider "x = y" | "x \<in> set (forest_oids ts)" | "x \<in> set (forest_oids us)" using Cons.prems(2) by auto
  then show ?case
  proof cases
    case 1
    then show ?thesis using Cons.prems by simp
  next
    case 2
    then show ?thesis using Cons.IH(1) [of "Some y"] Cons.prems by auto
  next
    case 3
    then show ?thesis using Cons.IH(2) [of q] Cons.prems by auto
  qed
qed simp

lemma parent_in_tree:
  assumes "linked h None t" "x \<in> set (oids t)" "ln_parent (obj h x) = Some p"
  shows "p \<in> set (oids t) \<and> x \<in> set (ln_children (obj h p))"
  using parent_forest [of h None "[t]" x p] assms by simp

lemma roots_in_forest: "t_oid ` set ts \<subseteq> set (forest_oids ts)"
  by (induction ts rule: forest_induct) auto

lemma child_in_tree:
  assumes "linked h q t" "distinct (oids t)" "p \<in> set (oids t)" "x \<in> set (ln_children (obj h p))"
  shows "x \<in> set (oids t)" and "ln_parent (obj h x) = Some p"
proof -
  obtain s where s: "s \<in> set (subs_of p t)" "t_oid s = x" using assms(4) linked_subs(2) [OF assms(1-3)] by auto
  then have "x \<in> set (forest_oids (subs_of p t))" using roots_in_forest by blast
  then show "x \<in> set (oids t)" using subs_inside [of p "[t]"] by auto
  have "linked h (Some p) s" using linked_subs(1) [OF assms(1-3)] s(1) by (simp add: list_all_iff)
  then show "ln_parent (obj h x) = Some p" using s(2) by (cases s) simp
qed

lemma list_all_slice:
  assumes "list_all P xs" shows "list_all P (take i xs)" "list_all P (drop j xs)" "list_all P (list_slice i j xs)"
  using assms by (auto simp: list_all_iff list_slice_def dest!: in_set_takeD in_set_dropD)

lemma distinct_slice_parts:
  assumes "distinct (forest_oids ts)" "i \<le> j"
  shows "set (forest_oids (take i ts)) \<inter> set (forest_oids (list_slice i j ts)) = {}"
    and "set (forest_oids (drop j ts)) \<inter> set (forest_oids (list_slice i j ts)) = {}"
proof -
  have "drop i ts = list_slice i j ts @ drop j ts"
    using assms(2) by (metis append_take_drop_id drop_drop le_add_diff_inverse2 list_slice_def)
  then have "forest_oids ts = forest_oids (take i ts) @ forest_oids (list_slice i j ts) @ forest_oids (drop j ts)"
    by (metis append_take_drop_id concat_append map_append)
  with assms(1) show "set (forest_oids (take i ts)) \<inter> set (forest_oids (list_slice i j ts)) = {}"
    and "set (forest_oids (drop j ts)) \<inter> set (forest_oids (list_slice i j ts)) = {}"
    by auto
qed

lemma disjoint_below: "A \<inter> B = {} \<Longrightarrow> R \<subseteq> A \<Longrightarrow> B \<inter> R = {}"
  by blast

lemma linked_untouched:
  assumes "list_all (linked h q) vs" and "p \<notin> set (forest_oids vs)"
    and "set (forest_oids vs) \<subseteq> D" and "set (forest_oids vs) \<inter> R = {}"
    and "\<And>x. x \<in> D - R \<Longrightarrow> ln_parent (obj h' x) = ln_parent (obj h x)
        \<and> ln_children (obj h' x) = (if x = p then cs else ln_children (obj h x))"
  shows "list_all (linked h' q) vs"
proof (rule linked_cong [OF assms(1)])
  fix x assume "x \<in> set (forest_oids vs)"
  then have "x \<in> D - R" "x \<noteq> p" using assms(2-4) by blast+
  then show "ln_children (obj h' x) = ln_children (obj h x) \<and> ln_parent (obj h' x) = ln_parent (obj h x)"
    using assms(5) [of x] by simp
qed

lemma linked_splice_forest:
  assumes "list_all (linked h q) ts" "distinct (forest_oids ts)" "i \<le> j"
    and "\<And>x. x \<in> set (forest_oids ts) - set (forest_oids (list_slice i j (forest_subs p ts))) \<Longrightarrow> ln_parent (obj h' x) = ln_parent (obj h x)
        \<and> ln_children (obj h' x) = (if x = p then map t_oid (list_splice i j new (forest_subs p ts)) else ln_children (obj h x))"
    and "list_all (linked h' (Some p)) new"
  shows "list_all (linked h' q) (map (splice_tree p i j new) ts)"
  using assms(1,2,4)
proof (induction ts arbitrary: q rule: forest_induct)
  case (Cons x ts us)
  let ?R = "set (forest_oids (list_slice i j (forest_subs p (T x ts # us))))"
  let ?S = "set (forest_oids (T x ts # us)) - ?R"
  note keep = Cons.prems(3)
  note untouched = linked_untouched [where D = "set (forest_oids (T x ts # us))" and R = ?R, OF _ _ _ _ keep]
  have sub: "list_all (linked h (Some x)) ts" "list_all (linked h q) us" "ln_parent (obj h x) = q"
    "ln_children (obj h x) = map t_oid ts" using Cons.prems(1) by simp_all
  have dist: "distinct (forest_oids ts)" "distinct (forest_oids us)"
    "x \<notin> set (forest_oids ts)" "x \<notin> set (forest_oids us)"
    "set (forest_oids ts) \<inter> set (forest_oids us) = {}" using Cons.prems(2) by simp_all
  have R: "?R \<subseteq> set (forest_oids (if p = x then ts else forest_subs p ts)) \<union> set (forest_oids (forest_subs p us))"
    using slice_inside [of i j "forest_subs p (T x ts # us)"] by (simp split: if_splits)
  consider (top) "p = x" | (below) "p \<noteq> x" "p \<in> set (forest_oids ts)" | (none) "p \<notin> set (forest_oids (T x ts # us))"
    | (beside) "p \<noteq> x" "p \<in> set (forest_oids us)" by auto
  then show ?case
  proof cases
    case top
    have no: "p \<notin> set (forest_oids us)" using dist(4) top by simp
    have all: "forest_subs p (T x ts # us) = ts" using top subs_absent [OF no] by simp
    have Rts: "?R = set (forest_oids (list_slice i j ts))" "?R \<subseteq> set (forest_oids ts)"
      unfolding all by (rule refl, rule slice_inside)
    have apart: "set (forest_oids (take i ts)) \<inter> ?R = {}" "set (forest_oids (drop j ts)) \<inter> ?R = {}"
      unfolding all by (rule distinct_slice_parts [OF dist(1) assms(3)])+
    have parts: "set (forest_oids (take i ts)) \<subseteq> set (forest_oids ts)" "set (forest_oids (drop j ts)) \<subseteq> set (forest_oids ts)"
      by (auto dest: in_set_takeD in_set_dropD)
    have inside: "p \<notin> set (forest_oids vs)" "set (forest_oids vs) \<subseteq> set (forest_oids (T x ts # us))"
      if "set (forest_oids vs) \<subseteq> set (forest_oids ts)" for vs
      using that dist(3) top by auto
    have "list_all (linked h' (Some x)) (take i ts)"
      by (rule untouched [OF list_all_slice(1) [OF sub(1)] inside [OF parts(1)] apart(1)])
    moreover have "list_all (linked h' (Some x)) (drop j ts)"
      by (rule untouched [OF list_all_slice(2) [OF sub(1)] inside [OF parts(2)] apart(2)])
    ultimately have "list_all (linked h' (Some x)) (list_splice i j new ts)"
      using assms(5) top by (simp add: list_splice_def)
    moreover have "list_all (linked h' q) us"
    proof (rule untouched [OF sub(2) no])
      show "set (forest_oids us) \<inter> ?R = {}" by (rule disjoint_below [OF dist(5) Rts(2)])
    qed auto
    moreover have "ln_parent (obj h' x) = q" "ln_children (obj h' x) = map t_oid (list_splice i j new ts)"
    proof -
      have "x \<in> ?S"
      proof (rule DiffI)
        show "x \<notin> ?R" by (rule contra_subsetD [OF Rts(2) dist(3)])
      qed simp
      from keep [OF this, unfolded all] show "ln_parent (obj h' x) = q"
        "ln_children (obj h' x) = map t_oid (list_splice i j new ts)"
        using top sub(3) by simp_all
    qed
    ultimately show ?thesis using top no by (simp add: splice_absent)
  next
    case below
    then have no: "p \<notin> set (forest_oids us)" using dist(5) by blast
    then have Rts: "?R = set (forest_oids (list_slice i j (forest_subs p ts)))" "?R \<subseteq> set (forest_oids ts)"
      using R subs_inside [of p ts] below(1) by (simp_all add: subs_absent)
    have "list_all (linked h' (Some x)) (map (splice_tree p i j new) ts)"
      by (rule Cons.IH(1) [OF sub(1) dist(1)]) (use keep below(1) no Rts(1) in \<open>simp add: subs_absent\<close>)
    moreover have "list_all (linked h' q) us"
    proof (rule untouched [OF sub(2) no])
      show "set (forest_oids us) \<inter> ?R = {}" by (rule disjoint_below [OF dist(5) Rts(2)])
    qed auto
    moreover have "ln_parent (obj h' x) = q" "ln_children (obj h' x) = map t_oid ts"
    proof -
      have "x \<in> ?S"
      proof (rule DiffI)
        show "x \<notin> ?R" by (rule contra_subsetD [OF Rts(2) dist(3)])
      qed simp
      from keep [OF this] show "ln_parent (obj h' x) = q" "ln_children (obj h' x) = map t_oid ts"
        by (simp_all only: sub(3,4) below(1) [symmetric] if_False)
    qed
    ultimately show ?thesis using below(1) no by (simp add: splice_absent)
  next
    case none
    have "list_all (linked h' q) (T x ts # us)"
      by (rule untouched [OF Cons.prems(1) none order_refl]) (simp only: subs_absent [OF none], simp add: list_slice_def)
    then show ?thesis by (simp only: splice_absent [OF none])
  next
    case beside
    then have no: "p \<notin> set (forest_oids ts)" using dist(5) by blast
    then have Rus: "?R = set (forest_oids (list_slice i j (forest_subs p us)))" "?R \<subseteq> set (forest_oids us)"
      using R subs_inside [of p us] beside(1) by (simp_all add: subs_absent)
    have "list_all (linked h' q) (map (splice_tree p i j new) us)"
      by (rule Cons.IH(2) [OF sub(2) dist(2)]) (use keep beside(1) no Rus(1) in \<open>simp add: subs_absent\<close>)
    moreover have "list_all (linked h' q) [T x ts]"
    proof (rule untouched)
      have "set (forest_oids us) \<inter> set (forest_oids [T x ts]) = {}" using dist(4,5) by auto
      then show "set (forest_oids [T x ts]) \<inter> ?R = {}" by (rule disjoint_below [OF _ Rus(2)])
    qed (use Cons.prems(1) beside(1) no in auto)
    ultimately show ?thesis using beside(1) no by (simp add: splice_absent)
  qed
qed simp

lemma linked_splice:
  assumes "linked h q t" "distinct (oids t)" "i \<le> j"
    and "\<And>x. x \<in> set (oids t) - set (forest_oids (list_slice i j (subs_of p t))) \<Longrightarrow> ln_parent (obj h' x) = ln_parent (obj h x)
        \<and> ln_children (obj h' x) = (if x = p then map t_oid (list_splice i j new (subs_of p t)) else ln_children (obj h x))"
    and "list_all (linked h' (Some p)) new"
  shows "linked h' q (splice_tree p i j new t)"
  using linked_splice_forest [of h q "[t]" i j p h' new] assms by simp

end
