(* ===== verification/Validation.thy ===== *)
theory Validation
  imports Trees
begin

text \<open>
  \<open>tree_engine/core/validation.py\<close>: the preflight every operation that introduces content runs
  before anything is written. Six checks over the incoming fragment that all run to the end
  and accumulate their failures, then the plan of short id reassignments.

  The duck-typed arguments are the classes the engine passes: a \<open>TreeDocument\<close>, live nodes,
  and for a reference a \<open>NodeAddress\<close> or a bare id. Messages of failures are left out. The
  callables stay parameters; \<open>next_short_id\<close> threads its own state and may raise.
\<close>

section \<open>Results\<close>

record validation_error =
  ve_code :: error_code
  ve_node_id :: "uuid option"

record short_id_reassignment =
  sr_node_id :: uuid
  sr_old_short_id :: "int option"
  sr_new_short_id :: "int option"

record validation_result =
  vr_success :: bool
  vr_errors :: "validation_error list"
  vr_short_id_plan :: "short_id_reassignment list"

section \<open>Helpers\<close>

definition parse_uuid4 :: "uuid_argument \<Rightarrow> uuid option" where
  "parse_uuid4 v =
     (let candidate = (case v of UuidValue u \<Rightarrow> Some u | OtherValue s \<Rightarrow> uuid_of_string s)
      in (case candidate of
            None \<Rightarrow> None
          | Some u \<Rightarrow> if uuid_version u \<noteq> Some 4 then None else Some u))"

text \<open>The worklist of \<open>_iter_fragment_nodes\<close>; \<open>None\<close> is a loop that does not end.\<close>

partial_function (option) fragment_worklist :: "heap \<Rightarrow> oid list \<Rightarrow> oid list \<Rightarrow> oid list option" where
  "fragment_worklist h stack ordered =
     (case stack of
        [] \<Rightarrow> Some ordered
      | node # rest \<Rightarrow> fragment_worklist h (ln_children (obj h node) @ rest) (ordered @ [node]))"

definition iter_fragment_nodes :: "heap \<Rightarrow> oid \<Rightarrow> oid list option" where
  "iter_fragment_nodes h root = fragment_worklist h [root] []"

section \<open>Arguments\<close>

datatype touched_reference = AddressRef node_address | IdRef uuid

datatype index_argument = NoIndex | IntIndex int | BoolIndex bool

record 's preflight =
  pf_is_type_compatible :: "(heap \<Rightarrow> oid option \<Rightarrow> string option \<Rightarrow> oid \<Rightarrow> bool) option"
  pf_references :: "touched_reference list option"
  pf_loaded_documents :: "(uuid, tree_document) pydict option"
  pf_used_short_ids :: "int list option"
  pf_next_short_id :: "('s \<Rightarrow> (short_id_error + int) \<times> 's) option"

definition VALID_POSITIONS :: "string list" where
  "VALID_POSITIONS = [''first_child'', ''last_child'', ''child_index'', ''before'', ''after'']"

section \<open>The six checks\<close>

definition check_formats :: "heap \<Rightarrow> oid list \<Rightarrow> validation_error list" where
  "check_formats h nodes = concat (map (\<lambda>x.
     (let raw = ln_node_id (obj h x)
      in (if parse_uuid4 (UuidValue raw) = None
          then [\<lparr>ve_code = INVALID_SELECTOR, ve_node_id = Some raw\<rparr>] else []))) nodes)"

definition check_conflicts :: "tree_document \<Rightarrow> uuid option list \<Rightarrow> validation_error list" where
  "check_conflicts doc parsed_ids = concat (map (\<lambda>parsed.
     (case parsed of
        None \<Rightarrow> []
      | Some u \<Rightarrow> if dict_has (td_nodes_by_id doc) u
          then [\<lparr>ve_code = NODE_ID_CONFLICT, ve_node_id = Some u\<rparr>] else [])) parsed_ids)"

definition check_type :: "'s preflight \<Rightarrow> heap \<Rightarrow> oid option \<Rightarrow> string option \<Rightarrow> oid \<Rightarrow> validation_error list" where
  "check_type pf h parent position incoming =
     (case pf_is_type_compatible pf of
        None \<Rightarrow> []
      | Some compatible \<Rightarrow>
          if \<not> compatible h parent position incoming
          then [\<lparr>ve_code = INVALID_PARENT_TYPE, ve_node_id = Some (ln_node_id (obj h incoming))\<rparr>] else [])"

text \<open>The walk along \<open>parent\<close>: whether some ancestor carries an incoming id. It stops at a node
  it has already seen.\<close>

partial_function (option) ancestor_hit ::
  "heap \<Rightarrow> uuid list \<Rightarrow> uuid option list \<Rightarrow> oid list \<Rightarrow> oid option \<Rightarrow> bool option" where
  "ancestor_hit h raw_ids parsed_ids visited ancestor =
     (case ancestor of
        None \<Rightarrow> Some False
      | Some a \<Rightarrow>
          if a \<in> set visited then Some False
          else if ln_node_id (obj h a) \<in> set raw_ids
            \<or> (parse_uuid4 (UuidValue (ln_node_id (obj h a))) \<noteq> None
                \<and> parse_uuid4 (UuidValue (ln_node_id (obj h a))) \<in> set parsed_ids)
          then Some True
          else ancestor_hit h raw_ids parsed_ids (a # visited) (ln_parent (obj h a)))"

definition check_cycle ::
  "heap \<Rightarrow> oid list \<Rightarrow> uuid option list \<Rightarrow> oid option \<Rightarrow> oid \<Rightarrow> validation_error list option" where
  "check_cycle h nodes parsed_ids parent incoming =
     map_option (\<lambda>hit. if hit
         then [\<lparr>ve_code = CYCLE_DETECTED, ve_node_id = Some (ln_node_id (obj h incoming))\<rparr>] else [])
       (ancestor_hit h (map (\<lambda>x. ln_node_id (obj h x)) nodes) parsed_ids [] parent)"

definition target_map :: "tree_document \<Rightarrow> 's preflight \<Rightarrow> uuid option \<Rightarrow> (uuid, oid) pydict option" where
  "target_map doc pf ref_document_id =
     (if ref_document_id = None \<or> ref_document_id = Some (td_document_id doc)
      then Some (td_nodes_by_id doc)
      else map_option td_nodes_by_id
        (dict_get (case pf_loaded_documents pf of None \<Rightarrow> [] | Some d \<Rightarrow> d) (the ref_document_id)))"

definition reference_parts :: "touched_reference \<Rightarrow> uuid option \<times> uuid" where
  "reference_parts r = (case r of AddressRef a \<Rightarrow> (na_document_id a, na_node_id a) | IdRef u \<Rightarrow> (None, u))"

definition reference_resolves :: "tree_document \<Rightarrow> 's preflight \<Rightarrow> touched_reference \<Rightarrow> bool" where
  "reference_resolves doc pf r =
     (let (d, u) = reference_parts r
      in (case target_map doc pf d of None \<Rightarrow> False | Some m \<Rightarrow> dict_has m u))"

definition check_references :: "tree_document \<Rightarrow> 's preflight \<Rightarrow> validation_error list" where
  "check_references doc pf = concat (map (\<lambda>r.
     if reference_resolves doc pf r then []
     else [\<lparr>ve_code = UNRESOLVED_REFERENCE, ve_node_id = Some (snd (reference_parts r))\<rparr>])
     (case pf_references pf of None \<Rightarrow> [] | Some rs \<Rightarrow> rs))"

definition position_ok :: "string option \<Rightarrow> index_argument \<Rightarrow> bool" where
  "position_ok position index =
     (case position of
        None \<Rightarrow> True
      | Some p \<Rightarrow>
          if p \<notin> set VALID_POSITIONS then False
          else if p = ''child_index'' then (case index of IntIndex i \<Rightarrow> \<not> i < 0 | _ \<Rightarrow> False)
          else True)"

definition check_position :: "string option \<Rightarrow> index_argument \<Rightarrow> validation_error list" where
  "check_position position index =
     (if position_ok position index then [] else [\<lparr>ve_code = INVALID_POSITION, ve_node_id = None\<rparr>])"

section \<open>The plan\<close>

fun plan_loop ::
  "heap \<Rightarrow> int list \<Rightarrow> ('s \<Rightarrow> (short_id_error + int) \<times> 's) option \<Rightarrow> oid list \<Rightarrow> 's \<Rightarrow>
   (short_id_error + short_id_reassignment list) \<times> 's" where
  "plan_loop h used next [] s = (Inr [], s)"
| "plan_loop h used next (x # xs) s =
     (let old = ln_short_id (obj h x); u = ln_node_id (obj h x)
      in (if old \<noteq> None \<and> the old \<notin> set used then plan_loop h used next xs s
          else (case next of
            None \<Rightarrow> (case plan_loop h used next xs s of
                (Inl e, s') \<Rightarrow> (Inl e, s')
              | (Inr plan, s') \<Rightarrow>
                  (Inr (\<lparr>sr_node_id = u, sr_old_short_id = old, sr_new_short_id = None\<rparr> # plan), s'))
          | Some f \<Rightarrow> (case f s of
                (Inl e, s') \<Rightarrow> (Inl e, s')
              | (Inr i, s') \<Rightarrow> (case plan_loop h used next xs s' of
                    (Inl e, s'') \<Rightarrow> (Inl e, s'')
                  | (Inr plan, s'') \<Rightarrow>
                      (Inr (\<lparr>sr_node_id = u, sr_old_short_id = old, sr_new_short_id = Some i\<rparr> # plan), s''))))))"

text \<open>\<open>None\<close> is a call that does not return, the inner left side an allocator that raised.\<close>

definition validate_mutation ::
  "tree_document \<Rightarrow> oid \<Rightarrow> oid option \<Rightarrow> string option \<Rightarrow> index_argument \<Rightarrow> 's preflight \<Rightarrow> heap \<Rightarrow> 's \<Rightarrow>
   ((short_id_error + validation_result) \<times> 's) option" where
  "validate_mutation doc incoming parent position index pf h s =
     Option.bind (iter_fragment_nodes h incoming) (\<lambda>nodes.
       let parsed_ids = map (\<lambda>x. parse_uuid4 (UuidValue (ln_node_id (obj h x)))) nodes
       in Option.bind (check_cycle h nodes parsed_ids parent incoming) (\<lambda>cycles.
         let errors = check_formats h nodes @ check_conflicts doc parsed_ids
               @ check_type pf h parent position incoming @ cycles
               @ check_references doc pf @ check_position position index
         in if errors \<noteq> []
            then Some (Inr \<lparr>vr_success = False, vr_errors = errors, vr_short_id_plan = []\<rparr>, s)
            else Some (case plan_loop h (case pf_used_short_ids pf of None \<Rightarrow> [] | Some ids \<Rightarrow> ids)
                         (pf_next_short_id pf) nodes s of
                    (Inl e, s') \<Rightarrow> (Inl e, s')
                  | (Inr plan, s') \<Rightarrow>
                      (Inr \<lparr>vr_success = True, vr_errors = [], vr_short_id_plan = plan\<rparr>, s'))))"

section \<open>Every loop returns\<close>

lemma worklist_forest:
  "list_all (shaped h) ts \<Longrightarrow>
   fragment_worklist h (map t_oid ts @ rest) acc = fragment_worklist h rest (acc @ forest_oids ts)"
proof (induction ts arbitrary: rest acc rule: forest_induct)
  case (Cons x ts us)
  then have sub: "list_all (shaped h) ts" "list_all (shaped h) us" "ln_children (obj h x) = map t_oid ts" by simp_all
  show ?case
    by (subst fragment_worklist.simps)
      (use sub Cons.IH(1) [OF sub(1), of "map t_oid us @ rest" "acc @ [x]"] Cons.IH(2) [OF sub(2), of rest] in simp)
qed simp

lemma iter_fragment_tree: "shaped h t \<Longrightarrow> iter_fragment_nodes h (t_oid t) = Some (oids t)"
  using worklist_forest [of h "[t]" "[]" "[]"]
  by (simp add: iter_fragment_nodes_def fragment_worklist.simps [of h "[]"])

lemma chain_unique: "chain h a os \<Longrightarrow> chain h a os' \<Longrightarrow> os = os'"
proof (induction h a os arbitrary: os' rule: chain.induct)
  case (1 h p)
  then show ?case by (cases os') auto
next
  case (2 h p x os)
  then show ?case by (cases os') auto
qed

lemma chain_suffix: "chain h a (os @ x # os') \<Longrightarrow> chain h (Some x) (x # os')"
  by (induction os arbitrary: a) auto

lemma chain_distinct: "chain h a os \<Longrightarrow> distinct os"
proof (induction h a os rule: chain.induct)
  case (2 h p x os)
  have "x \<notin> set os"
  proof
    assume "x \<in> set os"
    then obtain us vs where "os = us @ x # vs" by (auto simp: in_set_conv_decomp)
    then have "chain h (Some x) (x # vs)" using 2(2) chain_suffix [of h p "x # us" x vs] by simp
    from chain_unique [OF this, of "x # os"] 2(2) \<open>os = us @ x # vs\<close> show False by simp
  qed
  then show ?case using 2 by simp
qed simp

abbreviation parsed_of :: "heap \<Rightarrow> oid list \<Rightarrow> uuid option list" where
  "parsed_of h nodes \<equiv> map (\<lambda>x. parse_uuid4 (UuidValue (ln_node_id (obj h x)))) nodes"

lemma parse_uuid4_value: "parse_uuid4 (UuidValue u) = (if is_uuid4 u then Some u else None)"
  by (simp add: parse_uuid4_def is_uuid4_def)

lemma ancestor_hit_chain:
  "chain h a os \<Longrightarrow> distinct os \<Longrightarrow> set os \<inter> set visited = {} \<Longrightarrow>
   ancestor_hit h (map (\<lambda>x. ln_node_id (obj h x)) nodes) (parsed_of h nodes) visited a
     = Some (\<exists>x \<in> set os. ln_node_id (obj h x) \<in> (\<lambda>x. ln_node_id (obj h x)) ` set nodes)"
proof (induction h a os arbitrary: visited rule: chain.induct)
  case (2 h p x os)
  then show ?case
    by (subst ancestor_hit.simps) (auto simp: parse_uuid4_value image_iff split: if_splits)
qed (simp add: ancestor_hit.simps)

text \<open>The walk stops at a node it has seen, so it ends on any heap, cyclic ones included.\<close>

lemma ancestor_hit_ends:
  assumes closed: "\<And>x q. x < n \<Longrightarrow> ln_parent (obj h x) = Some q \<Longrightarrow> q < n"
  shows "(\<forall>q. a = Some q \<longrightarrow> q < n) \<Longrightarrow> \<exists>hit. ancestor_hit h raw parsed visited a = Some hit"
proof (induction "card ({..<n} - set visited)" arbitrary: visited a rule: less_induct)
  case less
  show ?case
  proof (cases "\<exists>x. a = Some x \<and> x \<notin> set visited")
    case True
    then obtain x where x: "a = Some x" "x \<notin> set visited" by blast
    have "card ({..<n} - set (x # visited)) < card ({..<n} - set visited)"
      by (rule psubset_card_mono) (use x less.prems in auto)
    from less.hyps [OF this, of "ln_parent (obj h x)"] closed [of x] less.prems x(1)
    obtain hit where "ancestor_hit h raw parsed (x # visited) (ln_parent (obj h x)) = Some hit" by blast
    then show ?thesis by (subst ancestor_hit.simps) (auto simp: x intro: exI [of _ True])
  next
    case False
    then show ?thesis by (subst ancestor_hit.simps) (auto split: option.split)
  qed
qed

text \<open>
  C38. The preflight always returns: whenever the incoming fragment is a tree, whatever the links
  above the parent are, a cycle of parents included, as long as they stay inside the heap.
\<close>

theorem validate_mutation_returns:
  assumes "shaped h t" and "\<And>x q. x < next_oid h \<Longrightarrow> ln_parent (obj h x) = Some q \<Longrightarrow> q < next_oid h"
    and "\<And>q. parent = Some q \<Longrightarrow> q < next_oid h"
  shows "\<exists>outcome. validate_mutation doc (t_oid t) parent position index pf h s = Some outcome"
proof -
  obtain hit where "ancestor_hit h (map (\<lambda>x. ln_node_id (obj h x)) (oids t)) (parsed_of h (oids t)) [] parent = Some hit"
    using ancestor_hit_ends [of "next_oid h" h parent] assms(2,3) by blast
  then show ?thesis
    by (simp add: validate_mutation_def iter_fragment_tree [OF assms(1)] check_cycle_def Let_def)
qed

section \<open>What the checks decide\<close>

text \<open>The six conditions, by the code that reports each; \<open>ancestors\<close> is the chain from the parent up.\<close>

definition violated ::
  "tree_document \<Rightarrow> heap \<Rightarrow> otree \<Rightarrow> oid list \<Rightarrow> oid option \<Rightarrow> string option \<Rightarrow> index_argument \<Rightarrow> 's preflight \<Rightarrow>
   error_code \<Rightarrow> bool" where
  "violated doc h t ancestors parent position index pf c \<longleftrightarrow>
     (c = INVALID_SELECTOR \<and> (\<exists>x \<in> set (oids t). \<not> is_uuid4 (ln_node_id (obj h x))))
   \<or> (c = NODE_ID_CONFLICT \<and> (\<exists>x \<in> set (oids t). is_uuid4 (ln_node_id (obj h x))
        \<and> dict_has (td_nodes_by_id doc) (ln_node_id (obj h x))))
   \<or> (c = INVALID_PARENT_TYPE \<and> (\<exists>f. pf_is_type_compatible pf = Some f \<and> \<not> f h parent position (t_oid t)))
   \<or> (c = CYCLE_DETECTED \<and> (\<exists>a \<in> set ancestors. \<exists>x \<in> set (oids t). ln_node_id (obj h a) = ln_node_id (obj h x)))
   \<or> (c = UNRESOLVED_REFERENCE \<and> (\<exists>rs. pf_references pf = Some rs \<and> (\<exists>r \<in> set rs. \<not> reference_resolves doc pf r)))
   \<or> (c = INVALID_POSITION \<and> \<not> position_ok position index)"

lemma check_codes:
  "ve_code ` set (check_formats h nodes) = {c. c = INVALID_SELECTOR \<and> (\<exists>x \<in> set nodes. \<not> is_uuid4 (ln_node_id (obj h x)))}"
  "ve_code ` set (check_conflicts doc (parsed_of h nodes)) = {c. c = NODE_ID_CONFLICT \<and>
     (\<exists>x \<in> set nodes. is_uuid4 (ln_node_id (obj h x)) \<and> dict_has (td_nodes_by_id doc) (ln_node_id (obj h x)))}"
  "ve_code ` set (check_type pf h parent position incoming) = {c. c = INVALID_PARENT_TYPE \<and>
     (\<exists>f. pf_is_type_compatible pf = Some f \<and> \<not> f h parent position incoming)}"
  "ve_code ` set (check_references doc pf) = {c. c = UNRESOLVED_REFERENCE \<and>
     (\<exists>rs. pf_references pf = Some rs \<and> (\<exists>r \<in> set rs. \<not> reference_resolves doc pf r))}"
  "ve_code ` set (check_position position index) = {c. c = INVALID_POSITION \<and> \<not> position_ok position index}"
proof -
  show "ve_code ` set (check_type pf h parent position incoming) = {c. c = INVALID_PARENT_TYPE \<and>
     (\<exists>f. pf_is_type_compatible pf = Some f \<and> \<not> f h parent position incoming)}"
    by (cases "pf_is_type_compatible pf") (auto simp: check_type_def)
  show "ve_code ` set (check_references doc pf) = {c. c = UNRESOLVED_REFERENCE \<and>
     (\<exists>rs. pf_references pf = Some rs \<and> (\<exists>r \<in> set rs. \<not> reference_resolves doc pf r))}"
    by (cases "pf_references pf") (auto simp: check_references_def image_UN)
qed (auto simp: check_formats_def check_conflicts_def check_position_def
    Let_def parse_uuid4_value image_UN split: option.splits if_splits)

lemma check_cycle_tree:
  assumes "chain h parent os"
  obtains cycles where "check_cycle h nodes (parsed_of h nodes) parent incoming = Some cycles"
    and "ve_code ` set cycles = {c. c = CYCLE_DETECTED \<and> (\<exists>a \<in> set os. \<exists>x \<in> set nodes. ln_node_id (obj h a) = ln_node_id (obj h x))}"
  using ancestor_hit_chain [OF assms chain_distinct [OF assms], of "[]" nodes]
  by (auto simp: check_cycle_def)

lemma validate_mutation_outcome:
  assumes "shaped h t" and "chain h parent ancestors"
  shows "\<exists>outcome s'. validate_mutation doc (t_oid t) parent position index pf h s = Some (outcome, s') \<and>
    (if \<exists>c. violated doc h t ancestors parent position index pf c
     then s' = s \<and> (\<exists>errors. outcome = Inr \<lparr>vr_success = False, vr_errors = errors, vr_short_id_plan = []\<rparr>
       \<and> ve_code ` set errors = Collect (violated doc h t ancestors parent position index pf))
     else \<forall>v. outcome = Inr v \<longrightarrow> vr_success v \<and> vr_errors v = [])"
proof -
  let ?V = "violated doc h t ancestors parent position index pf"
  obtain cycles where cycles: "check_cycle h (oids t) (parsed_of h (oids t)) parent (t_oid t) = Some cycles"
    "ve_code ` set cycles = {c. c = CYCLE_DETECTED \<and> (\<exists>a \<in> set ancestors. \<exists>x \<in> set (oids t). ln_node_id (obj h a) = ln_node_id (obj h x))}"
    by (rule check_cycle_tree [OF assms(2)])
  define errors where "errors = check_formats h (oids t) @ check_conflicts doc (parsed_of h (oids t))
    @ check_type pf h parent position (t_oid t) @ cycles @ check_references doc pf @ check_position position index"
  have run: "validate_mutation doc (t_oid t) parent position index pf h s =
     (if errors \<noteq> [] then Some (Inr \<lparr>vr_success = False, vr_errors = errors, vr_short_id_plan = []\<rparr>, s)
      else Some (case plan_loop h (case pf_used_short_ids pf of None \<Rightarrow> [] | Some ids \<Rightarrow> ids)
                         (pf_next_short_id pf) (oids t) s of
                    (Inl e, s') \<Rightarrow> (Inl e, s')
                  | (Inr plan, s') \<Rightarrow> (Inr \<lparr>vr_success = True, vr_errors = [], vr_short_id_plan = plan\<rparr>, s')))"
    by (simp add: validate_mutation_def iter_fragment_tree [OF assms(1)] cycles(1) Let_def errors_def)
  have codes: "ve_code ` set errors = Collect ?V"
    unfolding errors_def set_append image_Un check_codes cycles(2)
    by (rule set_eqI) (simp only: violated_def Un_iff mem_Collect_eq)
  have "errors \<noteq> [] \<longleftrightarrow> (\<exists>c. ?V c)"
  proof -
    have "errors \<noteq> [] \<longleftrightarrow> ve_code ` set errors \<noteq> {}" by simp
    then show ?thesis unfolding codes by blast
  qed
  then show ?thesis
    using codes run by (auto split: prod.splits sum.splits)
qed

text \<open>
  C16. The preflight reports exactly what is wrong: on a fragment that is a tree and a parent whose
  ancestors end at a root, every one of the six conditions that fails is reported under its
  own code, nothing else is reported, all of them at once; the call succeeds when none fails,
  and a rejection comes with no plan and before the allocator was asked for anything.
\<close>

theorem validate_mutation_reports_exactly:
  assumes "shaped h t" and "chain h parent ancestors"
  shows "\<exists>outcome s'. validate_mutation doc (t_oid t) parent position index pf h s = Some (outcome, s') \<and>
    (if \<exists>c. violated doc h t ancestors parent position index pf c
     then s' = s \<and> (\<exists>errors. outcome = Inr \<lparr>vr_success = False, vr_errors = errors, vr_short_id_plan = []\<rparr>
       \<and> ve_code ` set errors = Collect (violated doc h t ancestors parent position index pf))
     else \<forall>v. outcome = Inr v \<longrightarrow> vr_success v \<and> vr_errors v = [])"
  by (rule validate_mutation_outcome [OF assms])

section \<open>A source of fresh ids\<close>

text \<open>
  What the plan relies on: the allocator, asked \<open>n\<close> more times, succeeds and never repeats itself.
  \<open>taken\<close> are the ids it has given away.
\<close>

locale id_source =
  fixes next_id :: "'s \<Rightarrow> (short_id_error + int) \<times> 's"
    and ready :: "nat \<Rightarrow> 's \<Rightarrow> bool"
    and taken :: "'s \<Rightarrow> int set"
  assumes next_fresh: "ready (Suc n) s \<Longrightarrow>
    \<exists>i s'. next_id s = (Inr i, s') \<and> ready n s' \<and> i \<notin> taken s \<and> taken s' = insert i (taken s)"

definition needs_short_id :: "heap \<Rightarrow> int list \<Rightarrow> oid \<Rightarrow> bool" where
  "needs_short_id h used x = (case ln_short_id (obj h x) of None \<Rightarrow> True | Some i \<Rightarrow> i \<in> set used)"

text \<open>The plan that gives the nodes \<open>xs\<close> the ids in order.\<close>

definition plan_for :: "heap \<Rightarrow> oid list \<Rightarrow> int list \<Rightarrow> short_id_reassignment list" where
  "plan_for h xs ids = map (\<lambda>(x, i). \<lparr>sr_node_id = ln_node_id (obj h x), sr_old_short_id = ln_short_id (obj h x),
                              sr_new_short_id = Some i\<rparr>) (zip xs ids)"

lemma plan_step:
  "plan_loop h used (Some f) (x # xs) s =
     (if needs_short_id h used x
      then (case f s of
          (Inl e, s') \<Rightarrow> (Inl e, s')
        | (Inr i, s') \<Rightarrow> map_prod (map_sum id (\<lambda>plan. \<lparr>sr_node_id = ln_node_id (obj h x),
              sr_old_short_id = ln_short_id (obj h x), sr_new_short_id = Some i\<rparr> # plan)) id
            (plan_loop h used (Some f) xs s'))
      else plan_loop h used (Some f) xs s)"
  by (cases "ln_short_id (obj h x)")
    (auto simp: needs_short_id_def Let_def split: prod.splits sum.splits)

declare plan_loop.simps(2) [simp del]

context id_source begin

lemma plan_loop_fresh:
  "ready (length (filter (needs_short_id h used) xs) + n) s \<Longrightarrow>
   \<exists>ids s'. plan_loop h used (Some next_id) xs s = (Inr (plan_for h (filter (needs_short_id h used) xs) ids), s')
     \<and> length ids = length (filter (needs_short_id h used) xs) \<and> distinct ids \<and> set ids \<inter> taken s = {}
     \<and> taken s' = taken s \<union> set ids \<and> ready n s'"
proof (induction xs arbitrary: s)
  case Nil
  then show ?case by (auto simp: plan_for_def)
next
  case (Cons x xs)
  show ?case
  proof (cases "needs_short_id h used x")
    case False
    then show ?thesis using Cons by (simp add: plan_step)
  next
    case True
    then obtain i s1 where i: "next_id s = (Inr i, s1)" "ready (length (filter (needs_short_id h used) xs) + n) s1"
      "i \<notin> taken s" "taken s1 = insert i (taken s)"
      using next_fresh [of "length (filter (needs_short_id h used) xs) + n" s] Cons.prems by auto
    obtain ids s' where ids: "plan_loop h used (Some next_id) xs s1 = (Inr (plan_for h (filter (needs_short_id h used) xs) ids), s')"
      "length ids = length (filter (needs_short_id h used) xs)" "distinct ids" "set ids \<inter> taken s1 = {}"
      "taken s' = taken s1 \<union> set ids" "ready n s'"
      using Cons.IH [OF i(2)] by blast
    show ?thesis
      by (rule exI [of _ "i # ids"], rule exI [of _ s'])
        (use i ids True in \<open>auto simp: plan_step plan_for_def\<close>)
  qed
qed

end

text \<open>
  \<open>facade._next_short_id\<close> is the allocator of the public operations: the document's own map, asked
  under a newly minted placeholder id. Its state is the map and the count of minted ids.
\<close>

definition next_short_id_of ::
  "(nat \<Rightarrow> uuid) \<Rightarrow> short_id_map \<times> nat \<Rightarrow> (short_id_error + int) \<times> (short_id_map \<times> nat)" where
  "next_short_id_of gen = (\<lambda>(m, k). let (r, m') = allocate (gen k) m in (r, (m', k + 1)))"

text \<open>The next \<open>n\<close> ids to be minted are distinct and unknown to the map.\<close>

definition fresh_stream :: "(nat \<Rightarrow> uuid) \<Rightarrow> nat \<Rightarrow> short_id_map \<times> nat \<Rightarrow> bool" where
  "fresh_stream gen n = (\<lambda>(m, k). sid_inv m \<and> inj_on gen {k..<k + n} \<and> (\<forall>j \<in> {k..<k + n}. get_short_id m (gen j) = None))"

definition given_away :: "short_id_map \<times> nat \<Rightarrow> int set" where
  "given_away = (\<lambda>(m, k). {i. i < next_short_id m})"

interpretation facade_ids: id_source "next_short_id_of gen" "fresh_stream gen" given_away for gen
proof
  fix n s assume inv: "fresh_stream gen (Suc n) s"
  obtain m k where s: "s = (m, k)" by (cases s)
  have free: "sid_inv m" "dict_get (by_node m) (gen k) = None" using inv by (simp_all add: s fresh_stream_def get_short_id_def)
  obtain m' where m': "allocate (gen k) m = (Inr (next_short_id m), m')" "sid_inv m'"
    "next_short_id m' = next_short_id m + 1"
    "\<And>v. get_short_id m' v = (if v = gen k then Some (next_short_id m) else get_short_id m v)"
    by (rule allocate_new [OF free]) blast
  have inj: "inj_on gen {k..<k + Suc n}" using inv by (simp add: s fresh_stream_def)
  have "gen j \<noteq> gen k" if "Suc k \<le> j" "j < Suc (k + n)" for j
    using inj_onD [OF inj, of j k] that by auto
  moreover have "inj_on gen {Suc k..<Suc (k + n)}" by (rule inj_on_subset [OF inj]) auto
  ultimately have "fresh_stream gen n (m', Suc k)"
    using inv m'(2,4) by (simp add: s fresh_stream_def)
  then show "\<exists>i s'. next_short_id_of gen s = (Inr i, s') \<and> fresh_stream gen n s' \<and> i \<notin> given_away s
      \<and> given_away s' = insert i (given_away s)"
    using m'(1,3) by (intro exI [of _ "next_short_id m"] exI [of _ "(m', Suc k)"])
      (auto simp: s next_short_id_of_def given_away_def)
qed

lemma validate_mutation_accepts:
  assumes "shaped h t" and "chain h parent ancestors"
    and "\<And>c. \<not> violated doc h t ancestors parent position index pf c"
  shows "validate_mutation doc (t_oid t) parent position index pf h s
    = Some (case plan_loop h (case pf_used_short_ids pf of None \<Rightarrow> [] | Some ids \<Rightarrow> ids) (pf_next_short_id pf) (oids t) s of
        (Inl e, s') \<Rightarrow> (Inl e, s')
      | (Inr plan, s') \<Rightarrow> (Inr \<lparr>vr_success = True, vr_errors = [], vr_short_id_plan = plan\<rparr>, s'))"
proof -
  obtain cycles where cycles: "check_cycle h (oids t) (parsed_of h (oids t)) parent (t_oid t) = Some cycles"
    "ve_code ` set cycles = {c. c = CYCLE_DETECTED \<and> (\<exists>a \<in> set ancestors. \<exists>x \<in> set (oids t). ln_node_id (obj h a) = ln_node_id (obj h x))}"
    by (rule check_cycle_tree [OF assms(2)])
  note no = assms(3) [unfolded violated_def]
  have "ve_code ` set (check_formats h (oids t)) = {}"
    unfolding check_codes using no [of INVALID_SELECTOR] by simp
  moreover have "ve_code ` set (check_conflicts doc (parsed_of h (oids t))) = {}"
    unfolding check_codes using no [of NODE_ID_CONFLICT] by simp
  moreover have "ve_code ` set (check_type pf h parent position (t_oid t)) = {}"
    unfolding check_codes using no [of INVALID_PARENT_TYPE] by simp
  moreover have "ve_code ` set cycles = {}"
    unfolding cycles(2) using no [of CYCLE_DETECTED] by simp
  moreover have "ve_code ` set (check_references doc pf) = {}"
    unfolding check_codes using no [of UNRESOLVED_REFERENCE] by simp
  moreover have "ve_code ` set (check_position position index) = {}"
    unfolding check_codes using no [of INVALID_POSITION] by simp
  ultimately show ?thesis
    by (simp add: validate_mutation_def iter_fragment_tree [OF assms(1)] cycles(1) Let_def)
qed

lemma fresh_stream_mono:
  assumes "fresh_stream gen n s" and "n' \<le> n"
  shows "fresh_stream gen n' s"
proof -
  obtain m k where s: "s = (m, k)" by (cases s)
  have "inj_on gen {k..<k + n}" using assms(1) by (simp add: s fresh_stream_def)
  then have "inj_on gen {k..<k + n'}" by (rule inj_on_subset) (use assms(2) in auto)
  then show ?thesis using assms by (simp add: s fresh_stream_def)
qed

lemma accepted_plan:
  assumes "shaped h t" and "chain h parent ancestors"
    and "\<And>c. \<not> violated doc h t ancestors parent position index pf c"
    and "pf_next_short_id pf = Some (next_short_id_of gen)" and "used = (case pf_used_short_ids pf of None \<Rightarrow> [] | Some ids \<Rightarrow> ids)"
    and "fresh_stream gen (length (oids t) + n) (m, k)"
  shows "\<exists>ids m' k'. validate_mutation doc (t_oid t) parent position index pf h (m, k)
      = Some (Inr \<lparr>vr_success = True, vr_errors = [],
          vr_short_id_plan = plan_for h (filter (needs_short_id h used) (oids t)) ids\<rparr>, (m', k'))
    \<and> length ids = length (filter (needs_short_id h used) (oids t)) \<and> distinct ids
    \<and> (\<forall>i \<in> set ids. next_short_id m \<le> i \<and> i < next_short_id m') \<and> next_short_id m \<le> next_short_id m' \<and> fresh_stream gen n (m', k')"
proof -
  let ?xs = "filter (needs_short_id h used) (oids t)"
  have "length ?xs \<le> length (oids t)" by simp
  then have "fresh_stream gen (length ?xs + n) (m, k)" by (intro fresh_stream_mono [OF assms(6)]) simp
  from facade_ids.plan_loop_fresh [OF this] obtain ids m' k' where ids:
    "plan_loop h used (Some (next_short_id_of gen)) (oids t) (m, k) = (Inr (plan_for h ?xs ids), (m', k'))"
    "length ids = length ?xs" "distinct ids" "set ids \<inter> given_away (m, k) = {}"
    "given_away (m', k') = given_away (m, k) \<union> set ids" "fresh_stream gen n (m', k')"
    by auto
  have "next_short_id m \<le> i \<and> i < next_short_id m'" if "i \<in> set ids" for i
  proof -
    have "i \<notin> given_away (m, k)" using ids(4) that by blast
    moreover have "i \<in> given_away (m', k')" using ids(5) that by simp
    ultimately show ?thesis by (simp add: given_away_def)
  qed
  moreover have "next_short_id m - 1 \<in> given_away (m', k')" using ids(5) by (simp add: given_away_def)
  then have "next_short_id m \<le> next_short_id m'" by (simp add: given_away_def)
  moreover have "validate_mutation doc (t_oid t) parent position index pf h (m, k)
      = Some (Inr \<lparr>vr_success = True, vr_errors = [], vr_short_id_plan = plan_for h ?xs ids\<rparr>, (m', k'))"
    using validate_mutation_accepts [OF assms(1-3)] ids(1) by (simp add: assms(4,5))
  ultimately show ?thesis using ids(2,3,6) by blast
qed

text \<open>
  C19. The plan of an accepted fragment, with the engine's own allocator: it names exactly the nodes
  that come without a short id or with one in use, in document order, each with a new id;
  these are distinct, none was ever issued by the document before, released ones included,
  and the document's map stays consistent. A node with a free short id keeps it.
\<close>

theorem plan_gives_fresh_short_ids:
  assumes "shaped h t" and "chain h parent ancestors"
    and "\<And>c. \<not> violated doc h t ancestors parent position index pf c"
    and "pf_next_short_id pf = Some (next_short_id_of gen)" and "pf_used_short_ids pf = Some used"
    and "fresh_stream gen (length (oids t)) (m, k)"
  shows "\<exists>ids m' k'. validate_mutation doc (t_oid t) parent position index pf h (m, k)
      = Some (Inr \<lparr>vr_success = True, vr_errors = [],
          vr_short_id_plan = plan_for h (filter (needs_short_id h used) (oids t)) ids\<rparr>, (m', k'))
    \<and> length ids = length (filter (needs_short_id h used) (oids t)) \<and> distinct ids
    \<and> (\<forall>i \<in> set ids. next_short_id m \<le> i \<and> i < next_short_id m') \<and> next_short_id m \<le> next_short_id m' \<and> sid_inv m'"
proof -
  have "fresh_stream gen (length (oids t) + 0) (m, k)" using assms(6) by simp
  from accepted_plan [OF assms(1-4) _ this, of used] show ?thesis
    by (auto simp: assms(5) fresh_stream_def)
qed

section \<open>A document to try it on\<close>

text \<open>A root 0 with leaves 1 and 2, and a detached fragment 3 with one leaf 4, under UUID4 ids.\<close>

definition v4 :: "nat \<Rightarrow> uuid" where
  "v4 x = word_of_nat (302240678275694148452352 + x)"

definition work_node :: "oid \<Rightarrow> live_node" where
  "work_node x = \<lparr>ln_kind = ''k'', ln_fields = [], ln_children = (if x = 0 then [1, 2] else if x = 3 then [4] else []),
     ln_node_id = v4 x, ln_short_id = (if x = 4 then Some 9 else if x = 3 then None else Some (int x + 1)),
     ln_extended_type = None, ln_buffer_range = Some (if x = 0 then (0, 10) else if x = 1 then (0, 4) else (4, 10)),
     ln_references = [], ln_parent = (if x = 1 \<or> x = 2 then Some 0 else if x = 4 then Some 3 else None)\<rparr>"

definition work_heap :: heap where
  "work_heap = \<lparr>objects = work_node, next_oid = 5, minted = 0\<rparr>"

definition work_doc :: tree_document where
  "work_doc = \<lparr>td_document_id = v4 100, td_document_version = 1, td_root = 0, td_source_format_id = ''json'',
     td_format_id = ''json'', td_source_bytes = [], td_path = None,
     td_short_id_map = \<lparr>by_short = [(1, v4 0), (2, v4 1), (3, v4 2)], by_node = [(v4 0, 1), (v4 1, 2), (v4 2, 3)], next_short_id = 4\<rparr>,
     td_nodes_by_id = [(v4 0, 0), (v4 1, 1), (v4 2, 2)], td_short_id_index = [(1, v4 0), (2, v4 1), (3, v4 2)],
     td_parent_index = [(v4 0, None), (v4 1, Some (v4 0)), (v4 2, Some (v4 0))]\<rparr>"

definition work_preflight :: "(short_id_map \<times> nat) preflight" where
  "work_preflight = \<lparr>pf_is_type_compatible = None, pf_references = Some [IdRef (v4 1)], pf_loaded_documents = None,
     pf_used_short_ids = Some [1, 2, 3], pf_next_short_id = Some (next_short_id_of (\<lambda>k. v4 (200 + k)))\<rparr>"

lemmas work_defs = work_node_def work_heap_def work_doc_def work_preflight_def

lemma v4_uuid4: "is_uuid4 (v4 0)" "is_uuid4 (v4 1)" "is_uuid4 (v4 2)" "is_uuid4 (v4 3)" "is_uuid4 (v4 4)"
  by (simp_all add: v4_def is_uuid4_def uuid_version_def)

lemma v4_inj: "x < 1000 \<Longrightarrow> y < 1000 \<Longrightarrow> v4 x = v4 y \<longleftrightarrow> x = y"
  by (simp add: v4_def word_of_nat_eq_iff take_bit_nat_def)

lemma work_shaped: "shaped work_heap (T 3 [T 4 []])" "linked work_heap None (T 0 [T 1 [], T 2 []])"
  by (simp_all add: work_defs)

lemma work_chain: "chain work_heap (Some 0) [0]"
  by (simp add: work_defs)

lemma work_accepted:
  "\<not> violated work_doc work_heap (T 3 [T 4 []]) [0] (Some 0) (Some ''last_child'') NoIndex work_preflight c"
  using v4_uuid4
  by (simp add: violated_def work_defs v4_inj reference_resolves_def reference_parts_def target_map_def
      position_ok_def VALID_POSITIONS_def)

theorem validate_mutation_returns_witness:
  "\<exists>outcome. validate_mutation work_doc (t_oid (T 3 [T 4 []])) (Some 0) (Some ''last_child'') NoIndex work_preflight
     work_heap (td_short_id_map work_doc, 0) = Some outcome"
proof (rule validate_mutation_returns [OF work_shaped(1)])
  fix x q assume "ln_parent (obj work_heap x) = Some q"
  then show "q < next_oid work_heap" by (auto simp: work_defs split: if_splits)
next
  fix q :: oid assume "Some 0 = Some q"
  then show "q < next_oid work_heap" by (simp add: work_heap_def)
qed

theorem validate_mutation_reports_exactly_witness:
  "\<exists>v s'. validate_mutation work_doc 3 (Some 3) (Some ''last_child'') NoIndex work_preflight work_heap (td_short_id_map work_doc, 0)
      = Some (Inr v, s') \<and> ve_code ` set (vr_errors v) = {CYCLE_DETECTED}"
proof -
  have chain: "chain work_heap (Some 3) [3]" by (simp add: work_defs)
  have codes: "violated work_doc work_heap (T 3 [T 4 []]) [3] (Some 3) (Some ''last_child'') NoIndex work_preflight c
      \<longleftrightarrow> c = CYCLE_DETECTED" for c
    using v4_uuid4
    by (auto simp: violated_def work_defs v4_inj reference_resolves_def reference_parts_def target_map_def
        position_ok_def VALID_POSITIONS_def)
  show ?thesis
    using validate_mutation_reports_exactly [OF work_shaped(1) chain, of work_doc "Some ''last_child''" NoIndex work_preflight
        "(td_short_id_map work_doc, 0)"]
    by (auto simp: codes)
qed

theorem plan_gives_fresh_short_ids_witness:
  "\<exists>i m' k'. validate_mutation work_doc 3 (Some 0) (Some ''last_child'') NoIndex work_preflight work_heap (td_short_id_map work_doc, 0)
     = Some (Inr \<lparr>vr_success = True, vr_errors = [],
         vr_short_id_plan = [\<lparr>sr_node_id = v4 3, sr_old_short_id = None, sr_new_short_id = Some i\<rparr>]\<rparr>, (m', k')) \<and> 4 \<le> i"
proof -
  have "sid_inv (td_short_id_map work_doc)" by (simp add: work_doc_def sid_inv_def dict_wf_def v4_inj)
  then have "fresh_stream (\<lambda>k. v4 (200 + k)) (length (oids (T 3 [T 4 []]))) (td_short_id_map work_doc, 0)"
    by (auto simp: fresh_stream_def inj_on_def v4_inj get_short_id_def work_doc_def)
  from plan_gives_fresh_short_ids [OF work_shaped(1) work_chain work_accepted _ _ this, of "[1, 2, 3]"]
  obtain ids m' k' where ids: "validate_mutation work_doc 3 (Some 0) (Some ''last_child'') NoIndex work_preflight work_heap (td_short_id_map work_doc, 0)
      = Some (Inr \<lparr>vr_success = True, vr_errors = [],
          vr_short_id_plan = plan_for work_heap (filter (needs_short_id work_heap [1, 2, 3]) [3, 4]) ids\<rparr>, (m', k'))"
    "length ids = length (filter (needs_short_id work_heap [1, 2, 3]) [3, 4])"
    "\<forall>i \<in> set ids. next_short_id (td_short_id_map work_doc) \<le> i"
    by (auto simp: work_preflight_def)
  have need: "filter (needs_short_id work_heap [1, 2, 3]) [3, 4] = [3]" by (simp add: needs_short_id_def work_defs)
  then obtain i where "ids = [i]" using ids(2) by (cases ids) auto
  then show ?thesis
    using ids(1,3) unfolding need by (auto simp: plan_for_def work_heap_def work_node_def work_doc_def)
qed

end
