(* ===== verification/Operations.thy ===== *)
theory Operations
  imports Validation
begin

text \<open>
  \<open>tree_engine/core/operations.py\<close>: insertion, deletion and range replacement on the live tree.
  Every operation returns the document and the heap it leaves on every path, the raising
  ones included; \<open>None\<close> is a traversal of a cyclic structure that does not return.
\<close>

section \<open>Arguments and results\<close>

datatype mutation_failure = MutationError "validation_error list" | AllocatorRaised short_id_error

record mutation_result =
  mr_node_id :: "uuid option"
  mr_short_id :: "int option"
  mr_position :: "nat option"
  mr_remap :: "short_id_reassignment list"
  mr_removed :: "node_address list"
  mr_inserted :: "node_address list"

text \<open>A reference to a node: the object itself, a \<open>UUID\<close>, a string, or a short id.\<close>

datatype node_ref = NodeRef oid | UuidRef uuid | TextRef string | ShortRef int

type_synonym 's outcome = "(mutation_failure + mutation_result) \<times> tree_document \<times> heap \<times> 's"

definition rejection :: "error_code \<Rightarrow> mutation_failure" where
  "rejection c = MutationError [\<lparr>ve_code = c, ve_node_id = None\<rparr>]"

section \<open>Helpers\<close>

text \<open>\<open>UUID(str(value))\<close>: the text of a node is its \<open>repr\<close>, which is no UUID.\<close>

definition parse_uuid :: "node_ref \<Rightarrow> uuid option" where
  "parse_uuid r = (case r of
       NodeRef _ \<Rightarrow> None
     | UuidRef u \<Rightarrow> Some u
     | TextRef s \<Rightarrow> uuid_of_string s
     | ShortRef i \<Rightarrow> uuid_of_string (py_str_int i))"

definition node_with_short_id :: "tree_document \<Rightarrow> heap \<Rightarrow> int \<Rightarrow> oid option" where
  "node_with_short_id doc h i = find (\<lambda>x. ln_short_id (obj h x) = Some i) (map snd (td_nodes_by_id doc))"

definition resolve_ref :: "tree_document \<Rightarrow> heap \<Rightarrow> node_ref \<Rightarrow> oid option" where
  "resolve_ref doc h r =
     (let stored = (case r of
                      NodeRef x \<Rightarrow> if dict_get (td_nodes_by_id doc) (ln_node_id (obj h x)) = Some x then Some x else None
                    | _ \<Rightarrow> None)
      in if stored \<noteq> None then stored
         else (case Option.bind (parse_uuid r) (dict_get (td_nodes_by_id doc)) of
              Some x \<Rightarrow> Some x
            | None \<Rightarrow> (case r of
                  ShortRef i \<Rightarrow> (case dict_get (td_short_id_index doc) i of
                      Some u \<Rightarrow> dict_get (td_nodes_by_id doc) u
                    | None \<Rightarrow> node_with_short_id doc h i)
                | _ \<Rightarrow> None)))"

definition address_of :: "tree_document \<Rightarrow> heap \<Rightarrow> oid \<Rightarrow> node_address" where
  "address_of doc h x = \<lparr>na_node_id = ln_node_id (obj h x), na_document_id = Some (td_document_id doc)\<rparr>"

definition fragment_nodes :: "heap \<Rightarrow> oid \<Rightarrow> oid list option" where
  "fragment_nodes h root = fragment_worklist h [root] []"

definition set_children :: "oid \<Rightarrow> oid list \<Rightarrow> heap \<Rightarrow> heap" where
  "set_children x children h = put x ((obj h x)\<lparr>ln_children := children\<rparr>) h"

definition set_parent :: "oid option \<Rightarrow> oid \<Rightarrow> heap \<Rightarrow> heap" where
  "set_parent parent x h = put x ((obj h x)\<lparr>ln_parent := parent\<rparr>) h"

definition apply_short_id_plan :: "oid list \<Rightarrow> short_id_reassignment list \<Rightarrow> heap \<Rightarrow> heap" where
  "apply_short_id_plan nodes plan h =
     (let by_id = fold (\<lambda>x d. dict_set (ln_node_id (obj h x)) x d) nodes []
      in fold (\<lambda>entry h. case dict_get by_id (sr_node_id entry) of
                 None \<Rightarrow> h
               | Some x \<Rightarrow> put x ((obj h x)\<lparr>ln_short_id := sr_new_short_id entry\<rparr>) h) plan h)"

definition register_node :: "heap \<Rightarrow> oid \<Rightarrow> tree_document \<Rightarrow> tree_document" where
  "register_node h x doc =
     (let u = ln_node_id (obj h x)
      in doc\<lparr>td_nodes_by_id := dict_set u x (td_nodes_by_id doc),
             td_short_id_index := (case ln_short_id (obj h x) of
                 None \<Rightarrow> td_short_id_index doc | Some i \<Rightarrow> dict_set i u (td_short_id_index doc))\<rparr>)"

definition register_fragment :: "heap \<Rightarrow> oid list \<Rightarrow> tree_document \<Rightarrow> tree_document" where
  "register_fragment h nodes doc = fold (register_node h) nodes doc"

definition unregister_node :: "heap \<Rightarrow> oid \<Rightarrow> tree_document \<Rightarrow> tree_document" where
  "unregister_node h x doc =
     doc\<lparr>td_nodes_by_id := dict_del (ln_node_id (obj h x)) (td_nodes_by_id doc),
         td_short_id_index := (case ln_short_id (obj h x) of
             None \<Rightarrow> td_short_id_index doc | Some i \<Rightarrow> dict_del i (td_short_id_index doc))\<rparr>"

definition unregister_subtree :: "oid \<Rightarrow> tree_document \<times> heap \<Rightarrow> (tree_document \<times> heap) option" where
  "unregister_subtree root = (\<lambda>(doc, h). map_option (\<lambda>nodes.
     (fold (unregister_node h) nodes doc, set_parent None root h)) (fragment_nodes h root))"

fun unregister_all :: "oid list \<Rightarrow> tree_document \<times> heap \<Rightarrow> (tree_document \<times> heap) option" where
  "unregister_all [] s = Some s"
| "unregister_all (x # xs) s = Option.bind (unregister_subtree x s) (unregister_all xs)"

definition range_byte_length :: "heap \<Rightarrow> oid list \<Rightarrow> int" where
  "range_byte_length h nodes =
     (let ranges = map (\<lambda>x. ln_buffer_range (obj h x)) nodes
      in if ranges = [] \<or> list_ex (\<lambda>r. r = None) ranges then 0
         else snd (the (last ranges)) - fst (the (hd ranges)))"

definition shrink_range :: "oid \<Rightarrow> int \<Rightarrow> heap \<Rightarrow> heap" where
  "shrink_range x removed_length h =
     (case ln_buffer_range (obj h x) of
        None \<Rightarrow> h
      | Some (a, b) \<Rightarrow> put x ((obj h x)\<lparr>ln_buffer_range := Some (a, b - removed_length)\<rparr>) h)"

definition shift_node :: "int \<Rightarrow> live_node \<Rightarrow> live_node" where
  "shift_node delta n =
     (case ln_buffer_range n of None \<Rightarrow> n | Some (a, b) \<Rightarrow> n\<lparr>ln_buffer_range := Some (a + delta, b + delta)\<rparr>)"

text \<open>\<open>_shift_subtree\<close> over a list of roots.\<close>

partial_function (option) shift_subtrees :: "int \<Rightarrow> oid list \<Rightarrow> heap \<Rightarrow> heap option" where
  "shift_subtrees delta os h =
     (case os of
        [] \<Rightarrow> Some h
      | x # rest \<Rightarrow>
          (let h = put x (shift_node delta (obj h x)) h
           in Option.bind (shift_subtrees delta (ln_children (obj h x)) h) (shift_subtrees delta rest)))"

section \<open>Resolving a range of siblings\<close>

text \<open>The module \<open>move\<close> repeats this code over a resolver of its own, so the resolver is an argument.\<close>

fun resolve_targets :: "(node_ref \<Rightarrow> oid option) \<Rightarrow> node_ref list \<Rightarrow> oid list option" where
  "resolve_targets resolve [] = Some []"
| "resolve_targets resolve (r # rs) =
     (case resolve r of None \<Rightarrow> None | Some x \<Rightarrow> map_option ((#) x) (resolve_targets resolve rs))"

definition contiguous_range ::
  "(node_ref \<Rightarrow> oid option) \<Rightarrow> heap \<Rightarrow> node_ref list \<Rightarrow> error_code + (oid list \<times> oid \<times> nat \<times> nat)" where
  "contiguous_range resolve h refs =
     (if refs = [] then Inl NODE_NOT_FOUND
      else (case resolve_targets resolve refs of
        None \<Rightarrow> Inl NODE_NOT_FOUND
      | Some resolved \<Rightarrow> (case ln_parent (obj h (hd resolved)) of
          None \<Rightarrow> Inl NODE_NOT_FOUND
        | Some p \<Rightarrow>
            if \<not> list_all (\<lambda>x. ln_parent (obj h x) = Some p) (tl resolved) then Inl INVALID_POSITION
            else (let siblings = ln_children (obj h p)
                  in (case list_index (hd resolved) siblings of
                        None \<Rightarrow> Inl NODE_NOT_FOUND
                      | Some start \<Rightarrow>
                          let stop = start + length resolved
                          in if list_slice start stop siblings \<noteq> resolved then Inl INVALID_POSITION
                             else Inr (resolved, p, start, stop))))))"

definition resolve_contiguous_range ::
  "tree_document \<Rightarrow> heap \<Rightarrow> node_ref list \<Rightarrow> error_code + (oid list \<times> oid \<times> nat \<times> nat)" where
  "resolve_contiguous_range doc h = contiguous_range (resolve_ref doc h) h"

section \<open>Insertion\<close>

definition index_value :: "index_argument \<Rightarrow> int option" where
  "index_value index = (case index of NoIndex \<Rightarrow> None | IntIndex i \<Rightarrow> Some i | BoolIndex b \<Rightarrow> Some (if b then 1 else 0))"

text \<open>Where the node goes: the parent and the index among its children.\<close>

definition attach_point ::
  "(node_ref \<Rightarrow> oid option) \<Rightarrow> heap \<Rightarrow> string \<Rightarrow> node_ref option \<Rightarrow> node_ref option \<Rightarrow> index_argument \<Rightarrow> error_code + (oid \<times> nat)" where
  "attach_point resolve h position parent sibling index =
     (let parent_node = Option.bind parent resolve;
          sibling_node = Option.bind sibling resolve
      in if position \<in> {''before'', ''after''} then
           (case sibling_node of
              None \<Rightarrow> Inl NODE_NOT_FOUND
            | Some sib \<Rightarrow>
                (case (if parent_node = None then ln_parent (obj h sib) else parent_node) of
                   None \<Rightarrow> Inl NODE_NOT_FOUND
                 | Some p \<Rightarrow>
                     (case list_index sib (ln_children (obj h p)) of
                        None \<Rightarrow> Inl INVALID_POSITION
                      | Some anchor \<Rightarrow> Inr (p, if position = ''before'' then anchor else anchor + 1))))
         else if position \<in> {''first_child'', ''last_child'', ''child_index''} then
           (case parent_node of
              None \<Rightarrow> Inl NODE_NOT_FOUND
            | Some p \<Rightarrow>
                let n = length (ln_children (obj h p))
                in Inr (p, if position = ''first_child'' then 0
                           else if position = ''last_child'' then n
                           else (case index_value index of
                                   None \<Rightarrow> 0 | Some i \<Rightarrow> nat (max 0 (min i (int n))))))
         else Inl INVALID_POSITION)"

definition insert_point ::
  "tree_document \<Rightarrow> heap \<Rightarrow> string \<Rightarrow> node_ref option \<Rightarrow> node_ref option \<Rightarrow> index_argument \<Rightarrow> error_code + (oid \<times> nat)" where
  "insert_point doc h = attach_point (resolve_ref doc h) h"

definition insert_node ::
  "tree_document \<Rightarrow> oid \<Rightarrow> string \<Rightarrow> node_ref option \<Rightarrow> node_ref option \<Rightarrow> index_argument \<Rightarrow> 's preflight \<Rightarrow>
   heap \<Rightarrow> 's \<Rightarrow> 's outcome option" where
  "insert_node doc incoming position parent sibling index pf h s =
     (case insert_point doc h position parent sibling index of
        Inl c \<Rightarrow> Some (Inl (rejection c), doc, h, s)
      | Inr (p, i) \<Rightarrow>
          Option.bind (validate_mutation doc incoming (Some p) (Some position) index pf h s) (\<lambda>(result, s').
            case result of
              Inl e \<Rightarrow> Some (Inl (AllocatorRaised e), doc, h, s')
            | Inr v \<Rightarrow>
                if \<not> vr_success v then Some (Inl (MutationError (vr_errors v)), doc, h, s')
                else map_option (\<lambda>nodes.
                  let h1 = apply_short_id_plan nodes (vr_short_id_plan v) h;
                      h2 = set_children p (list_insert i incoming (ln_children (obj h1 p))) h1;
                      h3 = set_parent (Some p) incoming h2;
                      doc' = register_fragment h3 nodes doc
                  in (Inr \<lparr>mr_node_id = Some (ln_node_id (obj h3 incoming)), mr_short_id = ln_short_id (obj h3 incoming),
                           mr_position = Some i, mr_remap = vr_short_id_plan v, mr_removed = [],
                           mr_inserted = [address_of doc' h3 incoming]\<rparr>, doc', h3, s'))
                 (fragment_nodes h incoming)))"

section \<open>Deletion\<close>

text \<open>The writes of \<open>delete\<close>, once the run is resolved.\<close>

definition remove_range ::
  "oid list \<Rightarrow> oid \<Rightarrow> nat \<Rightarrow> nat \<Rightarrow> tree_document \<Rightarrow> heap \<Rightarrow> (tree_document \<times> heap) option" where
  "remove_range resolved p start stop doc h =
     (let removed_length = range_byte_length h resolved;
          siblings = ln_children (obj h p);
          remaining = take start siblings @ drop stop siblings;
          h1 = set_children p remaining h
      in Option.bind
           (if removed_length \<noteq> 0
            then shift_subtrees (- removed_length) (drop start remaining) (shrink_range p removed_length h1)
            else Some h1) (\<lambda>h2. unregister_all resolved (doc, h2)))"

definition delete_nodes :: "tree_document \<Rightarrow> node_ref list \<Rightarrow> heap \<Rightarrow> 's \<Rightarrow> 's outcome option" where
  "delete_nodes doc targets h s =
     (case resolve_contiguous_range doc h targets of
        Inl c \<Rightarrow> Some (Inl (rejection c), doc, h, s)
      | Inr (resolved, p, start, stop) \<Rightarrow>
          let removed = map (address_of doc h) resolved
          in map_option (\<lambda>(doc', h').
               (Inr \<lparr>mr_node_id = Some (ln_node_id (obj h' p)), mr_short_id = ln_short_id (obj h' p),
                     mr_position = Some start, mr_remap = [], mr_removed = removed, mr_inserted = []\<rparr>, doc', h', s))
             (remove_range resolved p start stop doc h))"

section \<open>Range replacement\<close>

fun fragments_of :: "heap \<Rightarrow> oid list \<Rightarrow> oid list option" where
  "fragments_of h [] = Some []"
| "fragments_of h (r # rs) =
     Option.bind (fragment_nodes h r) (\<lambda>ns. map_option ((@) ns) (fragments_of h rs))"

text \<open>One preflight per root, all run to the end: the errors and the plans in order.\<close>

fun preflight_all ::
  "tree_document \<Rightarrow> oid list \<Rightarrow> oid \<Rightarrow> string \<Rightarrow> nat \<Rightarrow> 's preflight \<Rightarrow> heap \<Rightarrow> 's \<Rightarrow>
   ((short_id_error + (validation_error list \<times> short_id_reassignment list)) \<times> 's) option" where
  "preflight_all doc [] p position start pf h s = Some (Inr ([], []), s)"
| "preflight_all doc (r # rs) p position start pf h s =
     Option.bind (validate_mutation doc r (Some p) (Some position) (IntIndex (int start)) pf h s) (\<lambda>(result, s').
       case result of
         Inl e \<Rightarrow> Some (Inl e, s')
       | Inr v \<Rightarrow> map_option (\<lambda>(rest, s'').
           (map_sum id (\<lambda>(es, plan). if \<not> vr_success v then (vr_errors v @ es, plan)
                                      else (es, vr_short_id_plan v @ plan)) rest, s''))
         (preflight_all doc rs p position start pf h s'))"

definition replace_range ::
  "tree_document \<Rightarrow> node_ref list \<Rightarrow> oid list \<Rightarrow> 's preflight \<Rightarrow> heap \<Rightarrow> 's \<Rightarrow> 's outcome option" where
  "replace_range doc targets incoming pf h s =
     (case resolve_contiguous_range doc h targets of
        Inl c \<Rightarrow> Some (Inl (rejection c), doc, h, s)
      | Inr (resolved, p, start, stop) \<Rightarrow>
          if incoming = [] then Some (Inl (rejection INVALID_SELECTOR), doc, h, s)
          else Option.bind (fragments_of h incoming) (\<lambda>nodes.
            if \<not> distinct (map (\<lambda>x. ln_node_id (obj h x)) nodes)
            then Some (Inl (rejection NODE_ID_CONFLICT), doc, h, s)
            else Option.bind (preflight_all doc incoming p ''child_index'' start pf h s) (\<lambda>(result, s').
              case result of
                Inl e \<Rightarrow> Some (Inl (AllocatorRaised e), doc, h, s')
              | Inr (errors, plan) \<Rightarrow>
                  if errors \<noteq> [] then Some (Inl (MutationError errors), doc, h, s')
                  else
                    let removed = map (address_of doc h) resolved;
                        h1 = apply_short_id_plan nodes plan h;
                        h2 = fold (set_parent (Some p)) incoming h1;
                        siblings = ln_children (obj h2 p);
                        h3 = set_children p (take start siblings @ incoming @ drop stop siblings) h2
                    in map_option (\<lambda>(doc1, h4).
                         let doc2 = register_fragment h4 nodes doc1
                         in (Inr \<lparr>mr_node_id = Some (ln_node_id (obj h4 p)), mr_short_id = ln_short_id (obj h4 p),
                                  mr_position = Some start, mr_remap = plan, mr_removed = removed,
                                  mr_inserted = map (address_of doc2 h4) incoming\<rparr>, doc2, h4, s'))
                       (unregister_all resolved (doc, h3)))))"

section \<open>The tables of a document\<close>

text \<open>The node table and the short id index hold exactly the nodes of \<open>S\<close>.\<close>

definition table_ok :: "tree_document \<Rightarrow> heap \<Rightarrow> oid set \<Rightarrow> bool" where
  "table_ok doc h S \<longleftrightarrow> dict_wf (td_nodes_by_id doc) \<and> dict_wf (td_short_id_index doc)
     \<and> (\<forall>u x. dict_get (td_nodes_by_id doc) u = Some x \<longleftrightarrow> x \<in> S \<and> ln_node_id (obj h x) = u)
     \<and> (\<forall>i u. dict_get (td_short_id_index doc) i = Some u
          \<longleftrightarrow> (\<exists>x \<in> S. ln_short_id (obj h x) = Some i \<and> ln_node_id (obj h x) = u))"

text \<open>No two nodes of \<open>S\<close> share an id or a short id.\<close>

definition separate :: "heap \<Rightarrow> oid set \<Rightarrow> bool" where
  "separate h S \<longleftrightarrow> (\<forall>x \<in> S. \<forall>y \<in> S. ln_node_id (obj h x) = ln_node_id (obj h y)
     \<or> ln_short_id (obj h x) = ln_short_id (obj h y) \<and> ln_short_id (obj h x) \<noteq> None \<longrightarrow> x = y)"

lemma table_ok_get:
  assumes "table_ok doc h S"
  shows "dict_get (td_nodes_by_id doc) u = Some x \<longleftrightarrow> x \<in> S \<and> ln_node_id (obj h x) = u"
  using assms by (simp add: table_ok_def)

lemma table_ok_short:
  assumes "table_ok doc h S"
  shows "dict_get (td_short_id_index doc) i = Some u
    \<longleftrightarrow> (\<exists>x \<in> S. ln_short_id (obj h x) = Some i \<and> ln_node_id (obj h x) = u)"
  using assms by (simp add: table_ok_def)

lemma table_ok_separate:
  assumes "table_ok doc h S" shows "separate h S"
proof -
  have id: "x = y" if "x \<in> S" "y \<in> S" "ln_node_id (obj h x) = ln_node_id (obj h y)" for x y
    using table_ok_get [OF assms, of "ln_node_id (obj h x)"] that by (metis option.inject)
  have "x = y" if "x \<in> S" "y \<in> S" "ln_short_id (obj h x) = ln_short_id (obj h y)" "ln_short_id (obj h x) = Some i" for x y i
  proof -
    have "dict_get (td_short_id_index doc) i = Some (ln_node_id (obj h x))"
      "dict_get (td_short_id_index doc) i = Some (ln_node_id (obj h y))"
      using that by (auto simp: table_ok_short [OF assms])
    then show ?thesis using id that(1,2) by simp
  qed
  with id show ?thesis unfolding separate_def by blast
qed

lemma separate_subset: "separate h S \<Longrightarrow> S' \<subseteq> S \<Longrightarrow> separate h S'"
  unfolding separate_def by blast

lemma table_ok_cong:
  assumes "table_ok doc h S"
    and "\<And>x. x \<in> S \<Longrightarrow> ln_node_id (obj h' x) = ln_node_id (obj h x) \<and> ln_short_id (obj h' x) = ln_short_id (obj h x)"
  shows "table_ok doc h' S"
  using assms by (simp add: table_ok_def cong: conj_cong)

lemma register_node_ok:
  assumes "table_ok doc h S" and "separate h (insert x S)"
  shows "table_ok (register_node h x doc) h (insert x S)"
proof -
  have id: "y = x" if "y \<in> S" "ln_node_id (obj h y) = ln_node_id (obj h x)" for y
    using assms(2) that by (simp add: separate_def)
  have short: "y = x" if "y \<in> S" "ln_short_id (obj h y) = Some i" "ln_short_id (obj h x) = Some i" for y i
    using assms(2) that by (simp add: separate_def)
  have "dict_get (td_nodes_by_id (register_node h x doc)) u = Some y
      \<longleftrightarrow> y \<in> insert x S \<and> ln_node_id (obj h y) = u" for u y
    using id [of y] table_ok_get [OF assms(1), of u y]
    by (cases "u = ln_node_id (obj h x)") (auto simp: register_node_def Let_def dict_simps)
  moreover have "dict_get (td_short_id_index (register_node h x doc)) i = Some u
      \<longleftrightarrow> (\<exists>y \<in> insert x S. ln_short_id (obj h y) = Some i \<and> ln_node_id (obj h y) = u)" for i u
  proof (cases "ln_short_id (obj h x) = Some i")
    case True
    then show ?thesis using short [of _ i] by (auto simp: register_node_def Let_def dict_simps)
  next
    case False
    then have "dict_get (td_short_id_index (register_node h x doc)) i = dict_get (td_short_id_index doc) i"
      by (auto simp: register_node_def Let_def dict_simps split: option.split)
    then show ?thesis using False by (simp add: table_ok_short [OF assms(1)])
  qed
  moreover have "dict_wf (td_nodes_by_id (register_node h x doc))" "dict_wf (td_short_id_index (register_node h x doc))"
    using assms(1) by (auto simp: table_ok_def register_node_def Let_def split: option.split)
  ultimately show ?thesis by (simp only: table_ok_def simp_thms)
qed

lemma register_fragment_ok:
  "table_ok doc h S \<Longrightarrow> separate h (S \<union> set ns) \<Longrightarrow> table_ok (register_fragment h ns doc) h (S \<union> set ns)"
proof (induction ns arbitrary: doc S)
  case (Cons x ns)
  have "separate h (insert x S)" by (rule separate_subset [OF Cons.prems(2)]) auto
  with Cons.prems(1) have "table_ok (register_node h x doc) h (insert x S)" by (rule register_node_ok)
  from Cons.IH [OF this] Cons.prems(2) show ?case by (simp add: register_fragment_def)
qed (simp add: register_fragment_def)

lemma unregister_node_ok:
  assumes "table_ok doc h S" and "x \<in> S"
  shows "table_ok (unregister_node h x doc) h (S - {x})"
proof -
  have sep: "separate h S" by (rule table_ok_separate [OF assms(1)])
  have id: "y = x" if "y \<in> S" "ln_node_id (obj h y) = ln_node_id (obj h x)" for y
    using sep that assms(2) unfolding separate_def by blast
  have short: "y = x" if "y \<in> S" "ln_short_id (obj h y) = Some i" "ln_short_id (obj h x) = Some i" for y i
    using sep that assms(2) unfolding separate_def by (metis option.distinct(1))
  have "dict_get (td_nodes_by_id (unregister_node h x doc)) u = Some y
      \<longleftrightarrow> y \<in> S - {x} \<and> ln_node_id (obj h y) = u" for u y
    using id [of y] table_ok_get [OF assms(1), of u y]
    by (cases "u = ln_node_id (obj h x)") (auto simp: unregister_node_def dict_simps)
  moreover have "dict_get (td_short_id_index (unregister_node h x doc)) i = Some u
      \<longleftrightarrow> (\<exists>y \<in> S - {x}. ln_short_id (obj h y) = Some i \<and> ln_node_id (obj h y) = u)" for i u
  proof (cases "ln_short_id (obj h x) = Some i")
    case True
    then show ?thesis using short [of _ i] by (auto simp: unregister_node_def dict_simps)
  next
    case False
    then have "dict_get (td_short_id_index (unregister_node h x doc)) i = dict_get (td_short_id_index doc) i"
      by (auto simp: unregister_node_def dict_simps split: option.split)
    then show ?thesis using False by (auto simp: table_ok_short [OF assms(1)])
  qed
  moreover have "dict_wf (td_nodes_by_id (unregister_node h x doc))" "dict_wf (td_short_id_index (unregister_node h x doc))"
    using assms(1) by (auto simp: table_ok_def unregister_node_def split: option.split)
  ultimately show ?thesis by (simp only: table_ok_def simp_thms)
qed

lemma unregister_nodes_ok:
  "table_ok doc h S \<Longrightarrow> distinct ns \<Longrightarrow> set ns \<subseteq> S \<Longrightarrow> table_ok (fold (unregister_node h) ns doc) h (S - set ns)"
proof (induction ns arbitrary: doc S)
  case (Cons x ns)
  have "table_ok (unregister_node h x doc) h (S - {x})" using Cons.prems by (intro unregister_node_ok) auto
  from Cons.IH [OF this] Cons.prems have "table_ok (fold (unregister_node h) ns (unregister_node h x doc)) h (S - {x} - set ns)"
    by auto
  moreover have "S - {x} - set ns = S - set (x # ns)" by auto
  ultimately show ?case by simp
qed simp

text \<open>A document tracks a tree: its objects are linked as the tree and its tables hold them.\<close>

definition tracks :: "tree_document \<Rightarrow> heap \<Rightarrow> otree \<Rightarrow> bool" where
  "tracks doc h t \<longleftrightarrow> linked h None t \<and> td_root doc = t_oid t \<and> distinct (oids t) \<and> table_ok doc h (set (oids t))"

lemma tracksD:
  assumes "tracks doc h t"
  shows "linked h None t" "td_root doc = t_oid t" "distinct (oids t)" "table_ok doc h (set (oids t))"
  using assms by (simp_all add: tracks_def)

lemma register_keeps [simp]:
  "td_root (register_fragment h ns doc) = td_root doc"
  "td_document_id (register_fragment h ns doc) = td_document_id doc"
  "td_document_version (register_fragment h ns doc) = td_document_version doc"
  "td_short_id_map (register_fragment h ns doc) = td_short_id_map doc"
  by (induction ns arbitrary: doc) (simp_all add: register_fragment_def register_node_def Let_def)

lemma unregister_keeps [simp]:
  "td_root (fold (unregister_node h) ns doc) = td_root doc"
  "td_document_id (fold (unregister_node h) ns doc) = td_document_id doc"
  "td_document_version (fold (unregister_node h) ns doc) = td_document_version doc"
  "td_short_id_map (fold (unregister_node h) ns doc) = td_short_id_map doc"
  by (induction ns arbitrary: doc) (simp_all add: unregister_node_def)

section \<open>What the arguments resolve to\<close>

lemma node_with_short_id_in:
  assumes "table_ok doc h S" and "node_with_short_id doc h i = Some x"
  shows "x \<in> S"
proof -
  have "x \<in> set (map snd (td_nodes_by_id doc))" using assms(2) by (auto simp: node_with_short_id_def find_Some_iff)
  then obtain u where "(u, x) \<in> set (td_nodes_by_id doc)" by auto
  then have "dict_get (td_nodes_by_id doc) u = Some x" using assms(1) by (simp add: table_ok_def dict_mem_get)
  then show ?thesis by (simp add: table_ok_get [OF assms(1)])
qed

lemma resolve_ref_in: "table_ok doc h S \<Longrightarrow> resolve_ref doc h r = Some x \<Longrightarrow> x \<in> S"
  by (auto simp: resolve_ref_def Let_def bind_eq_Some_conv table_ok_get dest: node_with_short_id_in
      split: if_splits option.splits node_ref.splits)

text \<open>An object of the table, its id, and its short id resolve to the object.\<close>

lemma resolve_ref_node: "table_ok doc h S \<Longrightarrow> x \<in> S \<Longrightarrow> resolve_ref doc h (NodeRef x) = Some x"
  using table_ok_get [of doc h S "ln_node_id (obj h x)" x] by (auto simp: resolve_ref_def)

lemma tracked_children:
  assumes "tracks doc h t" and "p \<in> set (oids t)"
  shows "ln_children (obj h p) = map t_oid (subs_of p t)" and "list_all (linked h (Some p)) (subs_of p t)"
  using linked_subs [of h None t p] assms by (simp_all add: tracks_def)

lemma attach_point_in:
  assumes "tracks doc h t" and "\<And>r x. resolve r = Some x \<Longrightarrow> x \<in> set (oids t)"
    and "attach_point resolve h position parent sibling index = Inr (p, i)"
  shows "p \<in> set (oids t)" and "i \<le> length (subs_of p t)"
    and "position \<in> set VALID_POSITIONS"
proof -
  note link = tracksD(1) [OF assms(1)]
  have par: "q \<in> set (oids t)" if "Option.bind parent resolve = Some q" for q
    using that assms(2) by (auto simp: bind_eq_Some_conv)
  have sib: "q \<in> set (oids t)" if "Option.bind sibling resolve = Some s" "ln_parent (obj h s) = Some q" for q s
    using that assms(2) parent_in_tree [OF link] by (auto simp: bind_eq_Some_conv)
  show p: "p \<in> set (oids t)"
    using assms(3) par sib
    by (auto simp: attach_point_def Let_def split: if_splits option.splits)
  have len: "length (ln_children (obj h p)) = length (subs_of p t)" using tracked_children(1) [OF assms(1) p] by simp
  have anchor: "j < length (ln_children (obj h p))" if "list_index s (ln_children (obj h p)) = Some j" for s j
    using list_index_SomeD [OF that] by simp
  show "i \<le> length (subs_of p t)"
    using assms(3) anchor unfolding len [symmetric]
    by (fastforce simp: attach_point_def Let_def split: if_splits option.splits)
  show "position \<in> set VALID_POSITIONS"
    using assms(3) by (auto simp: attach_point_def Let_def VALID_POSITIONS_def split: if_splits)
qed

lemma insert_point_in:
  assumes "tracks doc h t" and "insert_point doc h position parent sibling index = Inr (p, i)"
  shows "p \<in> set (oids t)" and "i \<le> length (subs_of p t)"
  using attach_point_in [OF assms(1) resolve_ref_in [OF tracksD(4) [OF assms(1)]] assms(2) [unfolded insert_point_def]]
  by simp_all

lemma resolve_targets_in:
  "(\<And>r x. resolve r = Some x \<Longrightarrow> x \<in> S) \<Longrightarrow> resolve_targets resolve rs = Some xs \<Longrightarrow> set xs \<subseteq> S \<and> length xs = length rs"
  by (induction rs arbitrary: xs) (auto split: option.splits)

lemma contiguous_in:
  assumes "tracks doc h t" and "\<And>r x. resolve r = Some x \<Longrightarrow> x \<in> set (oids t)"
    and "contiguous_range resolve h refs = Inr (xs, p, i, j)"
  shows "p \<in> set (oids t)" and "i < j" and "j \<le> length (subs_of p t)"
    and "xs = map t_oid (list_slice i j (subs_of p t))" and "xs \<noteq> []"
proof -
  obtain rs: "refs \<noteq> []" "resolve_targets resolve refs = Some xs" "ln_parent (obj h (hd xs)) = Some p"
      "list_index (hd xs) (ln_children (obj h p)) = Some i" "j = i + length xs"
      "list_slice i j (ln_children (obj h p)) = xs"
    using assms(3) by (auto simp: contiguous_range_def Let_def split: if_splits option.splits)
  have inside: "set xs \<subseteq> set (oids t) \<and> length xs = length refs" by (rule resolve_targets_in [OF assms(2) rs(2)])
  then show xs: "xs \<noteq> []" using rs(1) by auto
  then have "hd xs \<in> set (oids t)" using inside by (auto dest: hd_in_set)
  then show p: "p \<in> set (oids t)" using parent_in_tree [OF tracksD(1) [OF assms(1)] _ rs(3)] by blast
  show "i < j" using rs(5) xs by simp
  note kids = tracked_children(1) [OF assms(1) p]
  show "xs = map t_oid (list_slice i j (subs_of p t))"
    using rs(6) by (simp add: kids list_slice_def drop_map take_map)
  have "length xs = min (j - i) (length (ln_children (obj h p)) - i)"
    using rs(6) by (metis length_list_slice)
  moreover have "i < length (ln_children (obj h p))" using list_index_SomeD [OF rs(4)] by simp
  ultimately have "j \<le> length (ln_children (obj h p))" using rs(5) by simp
  then show "j \<le> length (subs_of p t)" by (simp add: kids)
qed

lemma contiguous_range_in:
  assumes "tracks doc h t" and "resolve_contiguous_range doc h refs = Inr (xs, p, i, j)"
  shows "p \<in> set (oids t)" and "i < j" and "j \<le> length (subs_of p t)"
    and "xs = map t_oid (list_slice i j (subs_of p t))" and "xs \<noteq> []"
  using contiguous_in [OF assms(1) resolve_ref_in [OF tracksD(4) [OF assms(1)]] assms(2) [unfolded resolve_contiguous_range_def]]
  by simp_all

section \<open>Applying the plan\<close>

lemma apply_plan_loop:
  assumes "distinct xs" and "length ids = length xs" and "inj_on (\<lambda>x. ln_node_id (obj h0 x)) (set nodes)"
    and "set xs \<subseteq> set nodes" and "\<And>u. dict_get d u = find (\<lambda>x. ln_node_id (obj h0 x) = u) nodes"
  shows "fold (\<lambda>entry h. case dict_get d (sr_node_id entry) of None \<Rightarrow> h
              | Some x \<Rightarrow> put x ((obj h x)\<lparr>ln_short_id := sr_new_short_id entry\<rparr>) h) (plan_for h0 xs ids) h
    = h\<lparr>objects := \<lambda>x. case map_of (zip xs ids) x of None \<Rightarrow> obj h x | Some i \<Rightarrow> (obj h x)\<lparr>ln_short_id := Some i\<rparr>\<rparr>"
  using assms(1,2,4)
proof (induction xs arbitrary: ids h)
  case Nil
  then show ?case by (simp add: plan_for_def)
next
  case (Cons x xs)
  then obtain i js where ids: "ids = i # js" by (cases ids) auto
  have "find (\<lambda>y. ln_node_id (obj h0 y) = ln_node_id (obj h0 x)) nodes = Some x"
  proof -
    obtain y where y: "find (\<lambda>y. ln_node_id (obj h0 y) = ln_node_id (obj h0 x)) nodes = Some y"
      using Cons.prems(3) by (cases "find (\<lambda>y. ln_node_id (obj h0 y) = ln_node_id (obj h0 x)) nodes") (auto simp: find_None_iff)
    then have "y \<in> set nodes" "ln_node_id (obj h0 y) = ln_node_id (obj h0 x)" by (auto simp: find_Some_iff)
    then show ?thesis using y Cons.prems(3) assms(3) by (auto dest: inj_onD)
  qed
  then have "fold (\<lambda>entry h. case dict_get d (sr_node_id entry) of None \<Rightarrow> h
              | Some x \<Rightarrow> put x ((obj h x)\<lparr>ln_short_id := sr_new_short_id entry\<rparr>) h) (plan_for h0 (x # xs) ids) h
    = fold (\<lambda>entry h. case dict_get d (sr_node_id entry) of None \<Rightarrow> h
              | Some x \<Rightarrow> put x ((obj h x)\<lparr>ln_short_id := sr_new_short_id entry\<rparr>) h) (plan_for h0 xs js)
        (put x ((obj h x)\<lparr>ln_short_id := Some i\<rparr>) h)"
    by (simp add: ids plan_for_def assms(5))
  also have "\<dots> = h\<lparr>objects := \<lambda>y. case map_of (zip (x # xs) ids) y of None \<Rightarrow> obj h y
      | Some i \<Rightarrow> (obj h y)\<lparr>ln_short_id := Some i\<rparr>\<rparr>"
  proof (subst Cons.IH)
    have "map_of (zip xs js) x = None"
      using Cons.prems(1,2) by (simp add: ids)
    then have "(\<lambda>y. case map_of (zip xs js) y of None \<Rightarrow> obj (put x ((obj h x)\<lparr>ln_short_id := Some i\<rparr>) h) y
          | Some i' \<Rightarrow> (obj (put x ((obj h x)\<lparr>ln_short_id := Some i\<rparr>) h) y)\<lparr>ln_short_id := Some i'\<rparr>)
        = (\<lambda>y. case map_of (zip (x # xs) ids) y of None \<Rightarrow> obj h y | Some i \<Rightarrow> (obj h y)\<lparr>ln_short_id := Some i\<rparr>)"
      by (intro ext) (auto simp: ids split: option.split)
    then show "put x ((obj h x)\<lparr>ln_short_id := Some i\<rparr>) h
        \<lparr>objects := \<lambda>y. case map_of (zip xs js) y of None \<Rightarrow> obj (put x ((obj h x)\<lparr>ln_short_id := Some i\<rparr>) h) y
          | Some i' \<Rightarrow> (obj (put x ((obj h x)\<lparr>ln_short_id := Some i\<rparr>) h) y)\<lparr>ln_short_id := Some i'\<rparr>\<rparr>
      = h\<lparr>objects := \<lambda>y. case map_of (zip (x # xs) ids) y of None \<Rightarrow> obj h y
          | Some i \<Rightarrow> (obj h y)\<lparr>ln_short_id := Some i\<rparr>\<rparr>"
      by (simp only:) (simp add: put_def)
  qed (use Cons.prems in \<open>auto simp: ids\<close>)
  finally show ?case .
qed

lemma id_table:
  "inj_on f (set nodes) \<Longrightarrow> dict_get (fold (\<lambda>x d. dict_set (f x) x d) nodes []) u = find (\<lambda>x. f x = u) nodes"
proof -
  assume inj: "inj_on f (set nodes)"
  have "dict_get (fold (\<lambda>x d. dict_set (f x) x d) nodes d) u
      = (case find (\<lambda>x. f x = u) nodes of None \<Rightarrow> dict_get d u | Some x \<Rightarrow> Some x)" for d
    using inj
  proof (induction nodes arbitrary: d)
    case (Cons y nodes)
    have "z = y" if "find (\<lambda>x. f x = f y) nodes = Some z" for z
    proof -
      have "z \<in> set nodes" "f z = f y" using that by (auto simp: find_Some_iff)
      then show ?thesis using inj_onD [OF Cons.prems, of z y] by simp
    qed
    then show ?case using Cons by (auto simp: dict_simps split: option.splits)
  qed simp
  from this [of "[]"] show ?thesis by (simp split: option.split)
qed

text \<open>The nodes of the plan get its ids, all other objects stay as they are.\<close>

lemma apply_plan:
  assumes "distinct nodes" and "inj_on (\<lambda>x. ln_node_id (obj h x)) (set nodes)"
    and "length ids = length (filter (needs_short_id h used) nodes)"
  defines "assigned \<equiv> map_of (zip (filter (needs_short_id h used) nodes) ids)"
  shows "apply_short_id_plan nodes (plan_for h (filter (needs_short_id h used) nodes) ids) h
    = h\<lparr>objects := \<lambda>x. case assigned x of None \<Rightarrow> obj h x | Some i \<Rightarrow> (obj h x)\<lparr>ln_short_id := Some i\<rparr>\<rparr>"
  unfolding apply_short_id_plan_def Let_def assigned_def
  by (rule apply_plan_loop [where h0 = h and nodes = nodes])
    (use assms(1-3) id_table [OF assms(2)] in simp_all)

section \<open>The shared effect on the tree\<close>

text \<open>
  The objects of a tree with the range \<open>i\<close> to \<open>j\<close> below \<open>p\<close> replaced: links as spliced, ids and
  short ids of the old nodes as before, tables holding what is left and what is new.
\<close>

lemma splice_tracks:
  assumes "tracks doc h t" and "p \<in> set (oids t)" and "i \<le> j" and "j \<le> length (subs_of p t)"
    and "distinct (forest_oids new)" and "set (forest_oids new) \<inter> set (oids t) = {}"
    and "\<And>x. x \<in> set (oids t) - set (forest_oids (list_slice i j (subs_of p t))) \<Longrightarrow> ln_parent (obj h' x) = ln_parent (obj h x)
        \<and> ln_children (obj h' x) = (if x = p then map t_oid (list_splice i j new (subs_of p t)) else ln_children (obj h x))"
    and "list_all (linked h' (Some p)) new"
    and "td_root doc' = td_root doc"
    and "table_ok doc' h' (set (oids t) - set (forest_oids (list_slice i j (subs_of p t))) \<union> set (forest_oids new))"
  shows "tracks doc' h' (splice_tree p i j new t)"
proof -
  note t = tracksD [OF assms(1)]
  show ?thesis
    using linked_splice [OF t(1,3) assms(3,7,8)] splice_oids [OF t(3) assms(2-6)] assms(9,10) t(2)
    by (simp add: tracks_def)
qed

text \<open>
  What the operations ask of the fragments \<open>new\<close> they are given: trees of distinct nodes with
  distinct ids; and of the short ids they come with: that the document has issued them, and that
  one which is kept is not in the index and not shared. No short id at all is the usual case.
\<close>

definition incoming_ok :: "tree_document \<Rightarrow> heap \<Rightarrow> int list \<Rightarrow> short_id_map \<Rightarrow> otree list \<Rightarrow> bool" where
  "incoming_ok doc h used m new \<longleftrightarrow> list_all (\<lambda>t. \<exists>q. linked h q t) new \<and> distinct (forest_oids new)
     \<and> inj_on (\<lambda>x. ln_node_id (obj h x)) (set (forest_oids new))
     \<and> (\<forall>x \<in> set (forest_oids new). \<forall>i. ln_short_id (obj h x) = Some i \<longrightarrow> i < next_short_id m \<and>
          (i \<notin> set used \<longrightarrow> dict_get (td_short_id_index doc) i = None
             \<and> (\<forall>y \<in> set (forest_oids new). ln_short_id (obj h y) = Some i \<longrightarrow> y = x)))"

definition index_issued :: "tree_document \<Rightarrow> short_id_map \<Rightarrow> bool" where
  "index_issued doc m \<longleftrightarrow> list_all (\<lambda>(i, _). i < next_short_id m) (td_short_id_index doc)"

lemma index_issuedD: "index_issued doc m \<Longrightarrow> dict_get (td_short_id_index doc) i = Some u \<Longrightarrow> i < next_short_id m"
  by (auto simp: index_issued_def list_all_iff dest!: map_of_SomeD)

lemma zip_get_inj:
  assumes "distinct ids" and "length ids = length xs" and "map_of (zip xs ids) x = Some i" and "map_of (zip xs ids) y = Some i"
  shows "x = y"
proof -
  have "(x, i) \<in> set (zip xs ids)" "(y, i) \<in> set (zip xs ids)" using assms(3,4) by (auto dest: map_of_SomeD)
  then obtain a b where "a < length xs" "b < length xs" "xs ! a = x" "xs ! b = y" "ids ! a = i" "ids ! b = i"
    by (auto simp: set_zip)
  then show ?thesis using assms(1,2) by (metis nth_eq_iff_index_eq)
qed

text \<open>With the planned ids given out, no two nodes share an id or a short id.\<close>

lemma planned_separate:
  assumes "table_ok doc h S" and "index_issued doc m" and "incoming_ok doc h used m new"
    and "\<And>x. x \<in> set (forest_oids new) \<Longrightarrow> \<not> dict_has (td_nodes_by_id doc) (ln_node_id (obj h x))"
    and "xs = filter (needs_short_id h used) (forest_oids new)" and "length ids = length xs" and "distinct ids"
    and "\<And>i. i \<in> set ids \<Longrightarrow> next_short_id m \<le> i"
    and "\<And>x. ln_node_id (obj h1 x) = ln_node_id (obj h x)"
    and "\<And>x. ln_short_id (obj h1 x) = (case map_of (zip xs ids) x of None \<Rightarrow> ln_short_id (obj h x) | Some i \<Rightarrow> Some i)"
  shows "separate h1 (S \<union> set (forest_oids new))"
proof -
  let ?N = "set (forest_oids new)"
  have apart: "x \<notin> ?N" if "x \<in> S" for x
    using assms(4) [of x] table_ok_get [OF assms(1), of "ln_node_id (obj h x)" x] that by auto
  have id: "x = y" if "x \<in> S \<union> ?N" "y \<in> S \<union> ?N" "ln_node_id (obj h x) = ln_node_id (obj h y)" for x y
  proof -
    have has: "dict_has (td_nodes_by_id doc) (ln_node_id (obj h z))" if "z \<in> S" for z
      using table_ok_get [OF assms(1), of "ln_node_id (obj h z)" z] that by simp
    note prem = that
    consider "x \<in> S" "y \<in> S" | "x \<in> ?N" "y \<in> ?N" | "x \<in> S" "y \<in> ?N" | "x \<in> ?N" "y \<in> S" using prem(1,2) by blast
    then show ?thesis
    proof cases
      case 1
      then show ?thesis using table_ok_separate [OF assms(1)] that(3) unfolding separate_def by blast
    next
      case 2
      then show ?thesis using assms(3) that(3) by (auto simp: incoming_ok_def dest: inj_onD)
    next
      case 3
      then show ?thesis using has [of x] assms(4) [of y] that(3) by simp
    next
      case 4
      then show ?thesis using has [of y] assms(4) [of x] that(3) by simp
    qed
  qed
  let ?a = "map_of (zip xs ids)"
  have given: "next_short_id m \<le> i" if "?a x = Some i" for x i
    using that assms(8) by (auto dest!: map_of_SomeD set_zip_rightD)
  have old: "(x \<in> S \<or> x \<in> ?N) \<longrightarrow> i < next_short_id m" if "ln_short_id (obj h x) = Some i" for x i
    using that index_issuedD [OF assms(2), of i "ln_node_id (obj h x)"] table_ok_short [OF assms(1), of i] assms(3)
    by (auto simp: incoming_ok_def)
  have kept: "dict_get (td_short_id_index doc) i = None \<and> (\<forall>y \<in> ?N. ln_short_id (obj h y) = Some i \<longrightarrow> y = x)"
    if "x \<in> ?N" "?a x = None" "ln_short_id (obj h x) = Some i" for x i
  proof -
    have "x \<notin> set xs" using that(2) assms(6) by simp
    then have "i \<notin> set used" using that(1,3) by (auto simp: assms(5) needs_short_id_def)
    then show ?thesis using assms(3) that(1,3) unfolding incoming_ok_def by blast
  qed
  have "x = y" if "x \<in> S \<union> ?N" "y \<in> S \<union> ?N" "ln_short_id (obj h1 x) = Some i" "ln_short_id (obj h1 y) = Some i" for x y i
  proof -
    have mixed: False if "x \<in> S \<union> ?N" "y \<in> S \<union> ?N" "?a x = Some i" "?a y = None" "ln_short_id (obj h y) = Some i" for x y
      using given [OF that(3)] old [OF that(5)] that(2) by auto
    have both: "x = y" if "x \<in> S" "y \<in> ?N" "?a y = None" "ln_short_id (obj h y) = Some i" "ln_short_id (obj h x) = Some i" for x y
      using kept [OF that(2-4)] table_ok_short [OF assms(1), of i "ln_node_id (obj h x)"] that(1,5) by auto
    note prem = that
    consider "?a x = Some i" "?a y = Some i" | "?a x = Some i" "?a y = None" "ln_short_id (obj h y) = Some i"
      | "?a x = None" "?a y = Some i" "ln_short_id (obj h x) = Some i"
      | "?a x = None" "?a y = None" "ln_short_id (obj h x) = Some i" "ln_short_id (obj h y) = Some i"
      using prem(3,4) assms(10) by (cases "?a x"; cases "?a y") auto
    then show ?thesis
    proof cases
      case 1
      then show ?thesis using zip_get_inj [OF assms(7,6)] by blast
    next
      case 2
      then show ?thesis using mixed [of x y] that(1,2) by blast
    next
      case 3
      then show ?thesis using mixed [of y x] that(1,2) by blast
    next
      case 4
      consider "x \<in> S" "y \<in> S" | "x \<in> ?N" "y \<in> ?N" | "x \<in> S" "y \<in> ?N" | "x \<in> ?N" "y \<in> S" using prem(1,2) by blast
      then show ?thesis
      proof cases
        case 1
        then show ?thesis using table_ok_separate [OF assms(1)] 4(3,4) unfolding separate_def by (metis option.distinct(1))
      next
        case 2
        then show ?thesis using kept [of y i] 4 by blast
      next
        case 3
        then show ?thesis using both 4 by blast
      next
        case both': 4
        then show ?thesis using both [of y x] 4 by simp
      qed
    qed
  qed
  with id show ?thesis unfolding separate_def assms(9) by (metis not_None_eq)
qed

section \<open>Insertion is insertion into the tree\<close>

lemma set_children_simps [simp]:
  "ln_children (obj (set_children p cs h) x) = (if x = p then cs else ln_children (obj h x))"
  "ln_parent (obj (set_children p cs h) x) = ln_parent (obj h x)"
  "ln_node_id (obj (set_children p cs h) x) = ln_node_id (obj h x)"
  "ln_short_id (obj (set_children p cs h) x) = ln_short_id (obj h x)"
  "ln_buffer_range (obj (set_children p cs h) x) = ln_buffer_range (obj h x)"
  by (simp_all add: set_children_def)

lemma set_parent_simps [simp]:
  "ln_parent (obj (set_parent q c h) x) = (if x = c then q else ln_parent (obj h x))"
  "ln_children (obj (set_parent q c h) x) = ln_children (obj h x)"
  "ln_node_id (obj (set_parent q c h) x) = ln_node_id (obj h x)"
  "ln_short_id (obj (set_parent q c h) x) = ln_short_id (obj h x)"
  "ln_buffer_range (obj (set_parent q c h) x) = ln_buffer_range (obj h x)"
  by (simp_all add: set_parent_def)

lemma fragment_nodes_tree: "shaped h t \<Longrightarrow> fragment_nodes h (t_oid t) = Some (oids t)"
  using iter_fragment_tree [of h t] by (simp add: fragment_nodes_def iter_fragment_nodes_def)

text \<open>Giving the root of a linked tree another parent.\<close>

lemma linked_new_parent:
  assumes "linked h q t" and "distinct (oids t)"
    and "\<And>x. x \<in> set (oids t) \<Longrightarrow> ln_children (obj h' x) = ln_children (obj h x)
      \<and> ln_parent (obj h' x) = (if x = t_oid t then p else ln_parent (obj h x))"
  shows "linked h' p t"
proof (cases t)
  case (T c cs)
  have "list_all (linked h' (Some c)) cs"
  proof (rule linked_cong)
    show "list_all (linked h (Some c)) cs" using assms(1) T by simp
    fix x assume "x \<in> set (forest_oids cs)"
    then have "x \<in> set (oids t)" "x \<noteq> c" using assms(2) T by auto
    then show "ln_children (obj h' x) = ln_children (obj h x) \<and> ln_parent (obj h' x) = ln_parent (obj h x)"
      using assms(3) [of x] T by simp
  qed
  then show ?thesis using assms(1) assms(3) [of c] T by simp
qed

lemma member_unique:
  "distinct (forest_oids ts) \<Longrightarrow> r \<in> set ts \<Longrightarrow> r' \<in> set ts \<Longrightarrow> x \<in> set (oids r) \<Longrightarrow> x \<in> set (oids r') \<Longrightarrow> r = r'"
  by (induction ts) auto

lemma member_distinct: "distinct (forest_oids ts) \<Longrightarrow> r \<in> set ts \<Longrightarrow> distinct (oids r)"
  by (induction ts) auto

lemma linked_new_parents:
  assumes "list_all (\<lambda>r. \<exists>q. linked h q r) rs" and "distinct (forest_oids rs)"
    and "\<And>x. x \<in> set (forest_oids rs) \<Longrightarrow> ln_children (obj h' x) = ln_children (obj h x)
      \<and> ln_parent (obj h' x) = (if x \<in> t_oid ` set rs then p else ln_parent (obj h x))"
  shows "list_all (linked h' p) rs"
  unfolding list_all_iff
proof
  fix r assume r: "r \<in> set rs"
  then obtain q where "linked h q r" using assms(1) by (auto simp: list_all_iff)
  then show "linked h' p r"
  proof (rule linked_new_parent)
    show "distinct (oids r)" by (rule member_distinct [OF assms(2) r])
    fix x assume x: "x \<in> set (oids r)"
    then have "x \<in> t_oid ` set rs \<longleftrightarrow> x = t_oid r"
      using member_unique [OF assms(2) r _ x] r root_in_oids by blast
    moreover have "x \<in> set (forest_oids rs)" using r x by auto
    ultimately show "ln_children (obj h' x) = ln_children (obj h x) \<and> ln_parent (obj h' x) = (if x = t_oid r then p else ln_parent (obj h x))"
      using assms(3) [of x] by simp
  qed
qed

text \<open>The new objects are not those of the document, as their ids are not in its table.\<close>

lemma incoming_apart:
  assumes "table_ok doc h S" and "\<And>x. x \<in> N \<Longrightarrow> \<not> dict_has (td_nodes_by_id doc) (ln_node_id (obj h x))"
  shows "N \<inter> S = {}"
  using assms(2) table_ok_get [OF assms(1)] by (metis disjoint_iff option.distinct(1))

lemma accepted_ids_new:
  assumes "\<And>c. \<not> violated doc h t ancestors parent position index pf c" and "x \<in> set (oids t)"
  shows "\<not> dict_has (td_nodes_by_id doc) (ln_node_id (obj h x))"
proof -
  have "is_uuid4 (ln_node_id (obj h x))" using assms(1) [of INVALID_SELECTOR] assms(2) by (auto simp: violated_def)
  then show ?thesis using assms(1) [of NODE_ID_CONFLICT] assms(2) by (auto simp: violated_def)
qed

lemma accepted_no_cycle:
  assumes "\<And>c. \<not> violated doc h t ancestors parent position index pf c" and "a \<in> set ancestors"
  shows "a \<notin> set (oids t)"
  using assms(1) [of CYCLE_DETECTED] assms(2) by (auto simp: violated_def)

text \<open>What registering the new nodes does to the index of short ids.\<close>

lemma register_index:
  assumes "index_issued doc m" and "next_short_id m \<le> next_short_id m'"
    and "\<And>x i. x \<in> set ns \<Longrightarrow> ln_short_id (obj h x) = Some i \<Longrightarrow> i < next_short_id m'"
  shows "index_issued (register_fragment h ns doc) m'"
proof -
  have "index_issued doc m'" using assms(1,2) by (auto simp: index_issued_def list_all_iff)
  then show ?thesis using assms(3)
  proof (induction ns arbitrary: doc)
    case (Cons x ns)
    have "set (dict_set k v d) \<subseteq> insert (k, v) (set d)" for k v and d :: "(int, uuid) pydict"
      by (induction d) auto
    then have "index_issued (register_node h x doc) m'"
      using Cons.prems(1) Cons.prems(2) [of x]
      by (fastforce simp: index_issued_def list_all_iff register_node_def Let_def split: option.split)
    then have "index_issued (register_fragment h ns (register_node h x doc)) m'"
      by (rule Cons.IH) (use Cons.prems(2) in auto)
    then show ?case by (simp add: register_fragment_def)
  qed (simp add: register_fragment_def)
qed

lemma insert_accepted:
  assumes "tracks doc h t" and "incoming_ok doc h used m [new]" and "index_issued doc m"
    and "used = (case pf_used_short_ids pf of None \<Rightarrow> [] | Some ids \<Rightarrow> ids)"
    and "pf_next_short_id pf = Some (next_short_id_of gen)" and "fresh_stream gen (length (oids new) + n) (m, k)"
    and "insert_point doc h position parent sibling index = Inr (p, i)" and "chain h (Some p) os"
    and "\<And>c. \<not> violated doc h new os (Some p) (Some position) index pf c"
  obtains r doc' h' m' k' where "insert_node doc (t_oid new) position parent sibling index pf h (m, k) = Some (Inr r, doc', h', (m', k'))"
    and "tracks doc' h' (splice_tree p i i [new] t)" and "index_issued doc' m'" and "fresh_stream gen n (m', k')"
    and "mr_position r = Some i" and "mr_node_id r = Some (ln_node_id (obj h (t_oid new)))"
    and "mr_short_id r = ln_short_id (obj h' (t_oid new))"
    and "\<forall>x. x \<notin> set (oids t) \<union> set (oids new) \<longrightarrow> obj h' x = obj h x"
    and "\<forall>x \<in> set (oids t). ln_short_id (obj h' x) = ln_short_id (obj h x)"
    and "\<forall>e \<in> set (mr_remap r). \<exists>s. sr_new_short_id e = Some s \<and> next_short_id m \<le> s \<and> s < next_short_id m'"
    and "next_short_id m \<le> next_short_id m'"
proof -
  let ?N = "oids new" let ?S = "set (oids t)"
  let ?xs = "filter (needs_short_id h used) ?N"
  obtain q where q: "linked h q new" using assms(2) by (auto simp: incoming_ok_def)
  have N: "distinct ?N" "inj_on (\<lambda>x. ln_node_id (obj h x)) (set ?N)" using assms(2) by (simp_all add: incoming_ok_def)
  have sh: "shaped h new" using linked_shaped [of h q "[new]"] q by simp
  obtain ids m' k' where v: "validate_mutation doc (t_oid new) (Some p) (Some position) index pf h (m, k)
      = Some (Inr \<lparr>vr_success = True, vr_errors = [], vr_short_id_plan = plan_for h ?xs ids\<rparr>, (m', k'))"
    "length ids = length ?xs" "distinct ids" "\<And>i. i \<in> set ids \<Longrightarrow> next_short_id m \<le> i \<and> i < next_short_id m'" "fresh_stream gen n (m', k')"
    "next_short_id m \<le> next_short_id m'"
    using accepted_plan [OF sh assms(8,9,5,4,6)] by blast
  note new = accepted_ids_new [OF assms(9)]
  note tab = tracksD(4) [OF assms(1)]
  have apart: "set ?N \<inter> ?S = {}" by (rule incoming_apart [OF tab new])
  have p: "p \<in> ?S" "i \<le> length (subs_of p t)" by (rule insert_point_in [OF assms(1,7)])+
  let ?a = "map_of (zip ?xs ids)"
  define h1 where "h1 = apply_short_id_plan ?N (plan_for h ?xs ids) h"
  have h1: "h1 = h\<lparr>objects := \<lambda>x. case ?a x of None \<Rightarrow> obj h x | Some i \<Rightarrow> (obj h x)\<lparr>ln_short_id := Some i\<rparr>\<rparr>"
    unfolding h1_def by (rule apply_plan [OF N v(2)])
  have same: "ln_children (obj h1 x) = ln_children (obj h x)" "ln_parent (obj h1 x) = ln_parent (obj h x)"
    "ln_node_id (obj h1 x) = ln_node_id (obj h x)"
    "ln_short_id (obj h1 x) = (case ?a x of None \<Rightarrow> ln_short_id (obj h x) | Some i \<Rightarrow> Some i)" for x
    by (simp_all add: h1 split: option.split)
  define h3 where "h3 = set_parent (Some p) (t_oid new) (set_children p (list_insert i (t_oid new) (ln_children (obj h1 p))) h1)"
  define doc' where "doc' = register_fragment h3 ?N doc"
  have outside: "?a x = None" if "x \<in> ?S" for x
    using that apart by (auto simp: map_of_eq_None_iff dest!: set_zip_leftD)
  have sep: "separate h3 (?S \<union> set ?N)"
    using planned_separate [OF tab assms(3,2), of ?xs ids h3] new v(2-4) by (simp add: h3_def same)
  have "table_ok doc h3 ?S"
    by (rule table_ok_cong [OF tab]) (simp add: h3_def same outside)
  then have tab': "table_ok doc' h3 (?S \<union> set ?N)" unfolding doc'_def by (rule register_fragment_ok [OF _ sep])
  have "tracks doc' h3 (splice_tree p i i [new] t)"
  proof (rule splice_tracks [OF assms(1) p(1) order_refl p(2)])
    show "distinct (forest_oids [new])" "set (forest_oids [new]) \<inter> ?S = {}" using N(1) apart by simp_all
    show "td_root doc' = td_root doc" by (simp add: doc'_def)
    show "table_ok doc' h3 (?S - set (forest_oids (list_slice i i (subs_of p t))) \<union> set (forest_oids [new]))"
      using tab' by simp
    show "list_all (linked h3 (Some p)) [new]"
      using apart p(1) by (auto intro!: linked_new_parent [OF q N(1)] simp: h3_def same)
    fix x assume "x \<in> ?S - set (forest_oids (list_slice i i (subs_of p t)))"
    then have "x \<noteq> t_oid new" using apart root_in_oids [of new] by (auto simp: disjoint_iff)
    then show "ln_parent (obj h3 x) = ln_parent (obj h x)
        \<and> ln_children (obj h3 x) = (if x = p then map t_oid (list_splice i i [new] (subs_of p t)) else ln_children (obj h x))"
      using tracked_children(1) [OF assms(1) p(1)]
      by (simp add: h3_def same splice_insert map_list_splice)
  qed
  moreover have "index_issued doc' m'"
    unfolding doc'_def
  proof (rule register_index [OF assms(3)])
    show "next_short_id m \<le> next_short_id m'" by (rule v(6))
    fix x j assume "x \<in> set ?N" "ln_short_id (obj h3 x) = Some j"
    moreover from this have "j < next_short_id m" if "?a x = None"
      using assms(2) that by (simp add: incoming_ok_def h3_def same)
    ultimately show "j < next_short_id m'"
      using v(4) [of j] v(6) by (cases "?a x") (auto simp: h3_def same dest!: map_of_SomeD set_zip_rightD)
  qed
  moreover have "ln_node_id (obj h3 x) = ln_node_id (obj h1 x)" "ln_short_id (obj h3 x) = ln_short_id (obj h1 x)" for x
    by (simp_all add: h3_def)
  then have "insert_node doc (t_oid new) position parent sibling index pf h (m, k)
      = Some (Inr \<lparr>mr_node_id = Some (ln_node_id (obj h3 (t_oid new))), mr_short_id = ln_short_id (obj h3 (t_oid new)),
               mr_position = Some i, mr_remap = plan_for h ?xs ids, mr_removed = [],
               mr_inserted = [address_of doc' h3 (t_oid new)]\<rparr>, doc', h3, (m', k'))"
    using assms(7) v(1) fragment_nodes_tree [OF sh]
    by (simp add: insert_node_def Let_def h1_def [symmetric] h3_def [symmetric] doc'_def [symmetric])
  moreover have "obj h3 x = obj h x" if "x \<notin> ?S \<union> set ?N" for x
  proof -
    have "?a x = None" using that by (auto simp: map_of_eq_None_iff dest!: set_zip_leftD)
    moreover have "x \<noteq> t_oid new" "x \<noteq> p" using that p(1) root_in_oids [of new] by auto
    ultimately show ?thesis by (simp add: h3_def set_parent_def set_children_def h1)
  qed
  moreover have "\<exists>s. sr_new_short_id e = Some s \<and> next_short_id m \<le> s \<and> s < next_short_id m'" if "e \<in> set (plan_for h ?xs ids)" for e
    using that v(4) by (auto simp: plan_for_def dest: set_zip_rightD)
  ultimately show ?thesis
    using v(5,6) by (intro that) (assumption | simp add: h3_def same outside)+
qed

lemma insert_rejected:
  assumes "shaped h new" and "insert_point doc h position parent sibling index = Inr (p, i)" and "chain h (Some p) os"
    and "violated doc h new os (Some p) (Some position) index pf c"
  shows "\<exists>errors. insert_node doc (t_oid new) position parent sibling index pf h s = Some (Inl (MutationError errors), doc, h, s)
    \<and> ve_code ` set errors = Collect (violated doc h new os (Some p) (Some position) index pf)"
proof -
  have "\<exists>c. violated doc h new os (Some p) (Some position) index pf c" using assms(4) by blast
  then obtain errors where "validate_mutation doc (t_oid new) (Some p) (Some position) index pf h s
      = Some (Inr \<lparr>vr_success = False, vr_errors = errors, vr_short_id_plan = []\<rparr>, s)"
    "ve_code ` set errors = Collect (violated doc h new os (Some p) (Some position) index pf)"
    using validate_mutation_outcome [OF assms(1,3), of doc "Some position" index pf s]
    by (simp only: if_True) blast
  then show ?thesis using assms(2) by (simp add: insert_node_def)
qed

text \<open>
  C2. Insertion refines insertion into the tree. On a document that tracks a tree, with the engine's
  allocator, inserting a fragment of distinct fresh nodes always returns. If the place does
  not resolve or the preflight finds a violation, the document, the heap and the allocator are
  as before and the errors are not empty. Otherwise the document tracks the tree with the
  fragment as a child of the resolved parent at the resolved index: links, node table and
  short id index are again exact, and the result names the node and the index.
\<close>

theorem insert_refines_tree_insertion:
  assumes "tracks doc h t" and "incoming_ok doc h used m [new]" and "index_issued doc m"
    and "used = (case pf_used_short_ids pf of None \<Rightarrow> [] | Some ids \<Rightarrow> ids)"
    and "pf_next_short_id pf = Some (next_short_id_of gen)" and "fresh_stream gen (length (oids new) + n) (m, k)"
  shows "\<exists>result doc' h' s'. insert_node doc (t_oid new) position parent sibling index pf h (m, k) = Some (result, doc', h', s') \<and>
    (case result of
       Inl e \<Rightarrow> doc' = doc \<and> h' = h \<and> s' = (m, k) \<and> (\<exists>errors. e = MutationError errors \<and> errors \<noteq> [])
         \<and> (\<forall>p i. insert_point doc h position parent sibling index = Inr (p, i) \<longrightarrow>
              (\<exists>os c. chain h (Some p) os \<and> violated doc h new os (Some p) (Some position) index pf c))
     | Inr r \<Rightarrow> \<exists>p i. insert_point doc h position parent sibling index = Inr (p, i)
         \<and> p \<in> set (oids t) \<and> i \<le> length (subs_of p t)
         \<and> tracks doc' h' (splice_tree p i i [new] t) \<and> index_issued doc' (fst s') \<and> fresh_stream gen n s'
         \<and> mr_position r = Some i \<and> mr_node_id r = Some (ln_node_id (obj h (t_oid new))))"
proof (cases "insert_point doc h position parent sibling index")
  case (Inl c)
  then show ?thesis by (simp add: insert_node_def rejection_def)
next
  case (Inr pi)
  obtain p i where pi: "insert_point doc h position parent sibling index = Inr (p, i)" using Inr by (cases pi) simp
  note point = insert_point_in [OF assms(1) pi]
  obtain os where os: "chain h (Some p) (p # os)" by (rule chain_in_tree [OF tracksD(1) [OF assms(1)] point(1)])
  show ?thesis
  proof (cases "\<exists>c. violated doc h new (p # os) (Some p) (Some position) index pf c")
    case True
    obtain q where "linked h q new" using assms(2) by (auto simp: incoming_ok_def)
    then have sh: "shaped h new" using linked_shaped [of h q "[new]"] by simp
    obtain c where c: "violated doc h new (p # os) (Some p) (Some position) index pf c" using True by blast
    obtain errors where errors: "insert_node doc (t_oid new) position parent sibling index pf h (m, k)
        = Some (Inl (MutationError errors), doc, h, (m, k))"
      "ve_code ` set errors = Collect (violated doc h new (p # os) (Some p) (Some position) index pf)"
      using insert_rejected [OF sh pi os c] by blast
    have "errors \<noteq> []" using errors(2) c by auto
    moreover have "\<exists>os c. chain h (Some p) os \<and> violated doc h new os (Some p) (Some position) index pf c"
      using os c by blast
    ultimately show ?thesis using errors(1) pi by simp
  next
    case False
    then have no: "\<not> violated doc h new (p # os) (Some p) (Some position) index pf c" for c by blast
    obtain r doc' h' m' k' where res: "insert_node doc (t_oid new) position parent sibling index pf h (m, k) = Some (Inr r, doc', h', (m', k'))"
      "tracks doc' h' (splice_tree p i i [new] t)" "index_issued doc' m'" "fresh_stream gen n (m', k')" "mr_position r = Some i"
      "mr_node_id r = Some (ln_node_id (obj h (t_oid new)))" "mr_short_id r = ln_short_id (obj h' (t_oid new))"
      by (rule insert_accepted [OF assms pi os no])
    show ?thesis
    proof (intro exI conjI)
      show "case Inr r :: mutation_failure + mutation_result of
       Inl e \<Rightarrow> doc' = doc \<and> h' = h \<and> (m', k') = (m, k) \<and> (\<exists>errors. e = MutationError errors \<and> errors \<noteq> [])
         \<and> (\<forall>p i. insert_point doc h position parent sibling index = Inr (p, i) \<longrightarrow>
              (\<exists>os c. chain h (Some p) os \<and> violated doc h new os (Some p) (Some position) index pf c))
     | Inr r \<Rightarrow> \<exists>p i. insert_point doc h position parent sibling index = Inr (p, i)
         \<and> p \<in> set (oids t) \<and> i \<le> length (subs_of p t)
         \<and> tracks doc' h' (splice_tree p i i [new] t) \<and> index_issued doc' (fst (m', k')) \<and> fresh_stream gen n (m', k')
         \<and> mr_position r = Some i \<and> mr_node_id r = Some (ln_node_id (obj h (t_oid new)))"
        unfolding sum.case fst_conv using pi point(1,2) res(2,3,4,5,6) by blast
    qed (rule res(1))
  qed
qed

lemma v4_eq: "x < 5 \<Longrightarrow> y < 5 \<Longrightarrow> v4 x = v4 y \<longleftrightarrow> x = y"
  by (simp add: v4_inj)

lemma work_tracks: "tracks work_doc work_heap (T 0 [T 1 [], T 2 []])"
proof -
  have "table_ok work_doc work_heap {0, 1, 2}"
    unfolding table_ok_def work_defs dict_wf_def
    by (auto simp: v4_inj split: if_splits) (metis gr0I)+
  then have "table_ok work_doc work_heap (set (oids (T 0 [T 1 [], T 2 []])))" by simp
  then show ?thesis unfolding tracks_def by (intro conjI work_shaped(2)) (simp_all add: work_doc_def)
qed

lemma work_incoming: "incoming_ok work_doc work_heap [1, 2, 3] ((td_short_id_map work_doc)\<lparr>next_short_id := 10\<rparr>) [T 3 [T 4 []]]"
  by (auto simp: incoming_ok_def work_defs v4_inj)

lemma work_fresh: "fresh_stream (\<lambda>k. v4 (200 + k)) 2 ((td_short_id_map work_doc)\<lparr>next_short_id := 10\<rparr>, 0)"
proof -
  have "sid_inv ((td_short_id_map work_doc)\<lparr>next_short_id := 10\<rparr>)" by (simp add: work_doc_def sid_inv_def dict_wf_def v4_inj)
  then show ?thesis by (auto simp: fresh_stream_def inj_on_def v4_inj get_short_id_def work_doc_def)
qed

theorem insert_refines_tree_insertion_witness:
  "\<exists>r doc' h' s'. insert_node work_doc 3 ''after'' None (Some (ShortRef 2)) NoIndex work_preflight work_heap
      ((td_short_id_map work_doc)\<lparr>next_short_id := 10\<rparr>, 0) = Some (Inr r, doc', h', s')
    \<and> tracks doc' h' (T 0 [T 1 [], T 3 [T 4 []], T 2 []]) \<and> mr_position r = Some 1"
proof -
  let ?m = "(td_short_id_map work_doc)\<lparr>next_short_id := 10\<rparr>"
  have point: "insert_point work_doc work_heap ''after'' None (Some (ShortRef 2)) NoIndex = Inr (0, 1)"
  proof -
    have "uuid_of_string (py_str_int 2) = None" by code_simp
    then show ?thesis by (simp add: insert_point_def attach_point_def resolve_ref_def parse_uuid_def Let_def work_defs v4_inj)
  qed
  have index: "index_issued work_doc ?m" by (simp add: index_issued_def work_doc_def)
  have chains: "os = [0]" if "chain work_heap (Some 0) os" for os
    using chain_unique [OF that work_chain] .
  have ok: "\<not> violated work_doc work_heap (T 3 [T 4 []]) [0] (Some 0) (Some ''after'') NoIndex work_preflight c" for c
    using work_accepted [of c] by (simp add: violated_def work_preflight_def position_ok_def VALID_POSITIONS_def)
  have args: "[1, 2, 3] = (case pf_used_short_ids work_preflight of None \<Rightarrow> [] | Some ids \<Rightarrow> ids)"
    "pf_next_short_id work_preflight = Some (next_short_id_of (\<lambda>k. v4 (200 + k)))"
    "fresh_stream (\<lambda>k. v4 (200 + k)) (length (oids (T 3 [T 4 []])) + 0) (?m, 0)"
    using work_fresh by (simp_all add: work_preflight_def numeral_2_eq_2)
  note fact = insert_refines_tree_insertion [OF work_tracks work_incoming index args,
    of "''after''" None "Some (ShortRef 2)" NoIndex]
  then obtain result doc' h' s' where run: "insert_node work_doc (t_oid (T 3 [T 4 []])) ''after'' None (Some (ShortRef 2)) NoIndex
      work_preflight work_heap (?m, 0) = Some (result, doc', h', s')" by blast
  note res = fact [unfolded run]
  show ?thesis
  proof (cases result)
    case (Inl e)
    then show ?thesis using res point chains ok by auto
  next
    case (Inr r)
    then show ?thesis using res run point by (auto simp: list_splice_def)
  qed
qed

end
