(* ===== verification/Range_Operations.thy ===== *)
theory Range_Operations
  imports Operations
begin

text \<open>
  What \<open>delete\<close> and \<open>replace_range\<close> of \<open>tree_engine/core/operations.py\<close> do to the tree a document
  tracks; their definitions are in \<open>Operations\<close>.
\<close>

section \<open>Deletion is deletion from the tree\<close>

lemma shift_node_simps [simp]:
  "ln_children (shift_node d n) = ln_children n" "ln_parent (shift_node d n) = ln_parent n"
  "ln_node_id (shift_node d n) = ln_node_id n" "ln_short_id (shift_node d n) = ln_short_id n" "ln_fields (shift_node d n) = ln_fields n"
  "ln_buffer_range (shift_node d n) = map_option (\<lambda>(a, b). (a + d, b + d)) (ln_buffer_range n)"
  by (simp_all add: shift_node_def split: option.split prod.split)

lemma shift_forest:
  "list_all (shaped h) ts \<Longrightarrow> distinct (forest_oids ts) \<Longrightarrow>
   \<exists>h'. shift_subtrees d (map t_oid ts) h = Some h'
     \<and> (\<forall>x. obj h' x = (if x \<in> set (forest_oids ts) then shift_node d (obj h x) else obj h x))"
proof (induction ts arbitrary: h rule: forest_induct)
  case Nil
  then show ?case by (subst shift_subtrees.simps) simp
next
  case (Cons x ts us)
  let ?h = "put x (shift_node d (obj h x)) h"
  have sub: "list_all (shaped h) ts" "list_all (shaped h) us" "ln_children (obj h x) = map t_oid ts"
    "distinct (forest_oids ts)" "distinct (forest_oids us)" "x \<notin> set (forest_oids ts)" "x \<notin> set (forest_oids us)"
    "set (forest_oids ts) \<inter> set (forest_oids us) = {}"
    using Cons.prems by simp_all
  have "list_all (shaped ?h) ts" by (rule shaped_cong [OF sub(1)]) simp
  then obtain h1 where h1: "shift_subtrees d (map t_oid ts) ?h = Some h1"
    "\<And>y. obj h1 y = (if y \<in> set (forest_oids ts) then shift_node d (obj ?h y) else obj ?h y)"
    using Cons.IH(1) sub(4) by blast
  have "list_all (shaped h1) us" by (rule shaped_cong [OF sub(2)]) (simp add: h1(2))
  then obtain h2 where h2: "shift_subtrees d (map t_oid us) h1 = Some h2"
    "\<And>y. obj h2 y = (if y \<in> set (forest_oids us) then shift_node d (obj h1 y) else obj h1 y)"
    using Cons.IH(2) sub(5) by blast
  have "obj h2 y = (if y \<in> set (forest_oids (T x ts # us)) then shift_node d (obj h y) else obj h y)" for y
  proof -
    have disj: "y \<in> set (forest_oids ts) \<Longrightarrow> y \<notin> set (forest_oids us)" using sub(8) by blast
    consider "y = x" | "y \<noteq> x" "y \<in> set (forest_oids ts)" | "y \<noteq> x" "y \<in> set (forest_oids us)" "y \<notin> set (forest_oids ts)"
      | "y \<notin> set (forest_oids (T x ts # us))" by fastforce
    then show ?thesis
      by cases (use sub(6,7) disj in \<open>simp_all add: h1(2) h2(2)\<close>)
  qed
  moreover have "shift_subtrees d (map t_oid (T x ts # us)) h = Some h2"
    using h1(1) h2(1) sub(3) by (subst shift_subtrees.simps) (simp add: Let_def)
  ultimately show ?case by blast
qed

lemma unregister_forest:
  "table_ok doc h S \<Longrightarrow> list_all (shaped h) rs \<Longrightarrow> distinct (forest_oids rs) \<Longrightarrow> set (forest_oids rs) \<subseteq> S \<Longrightarrow>
   \<exists>doc' h'. unregister_all (map t_oid rs) (doc, h) = Some (doc', h') \<and> table_ok doc' h' (S - set (forest_oids rs))
     \<and> td_root doc' = td_root doc \<and> td_document_id doc' = td_document_id doc
     \<and> td_short_id_map doc' = td_short_id_map doc
     \<and> (index_issued doc m \<longrightarrow> index_issued doc' m)
     \<and> (\<forall>x. obj h' x = (if x \<in> t_oid ` set rs then (obj h x)\<lparr>ln_parent := None\<rparr> else obj h x))"
proof (induction rs arbitrary: doc h S)
  case (Cons r rs)
  let ?h = "set_parent None (t_oid r) h"
  let ?doc = "fold (unregister_node h) (oids r) doc"
  have sub: "shaped h r" "list_all (shaped h) rs" "distinct (oids r)" "distinct (forest_oids rs)" "set (oids r) \<subseteq> S"
    "set (oids r) \<inter> set (forest_oids rs) = {}" using Cons.prems(2-4) by auto
  have keep: "index_issued doc m \<longrightarrow> index_issued (fold (unregister_node h) ns doc) m" for ns and doc :: tree_document
  proof (induction ns arbitrary: doc)
    case (Cons x ns)
    have "set (dict_del k d) \<subseteq> set d" for k and d :: "(int, uuid) pydict" by (induction d) auto
    then have "index_issued doc m \<longrightarrow> index_issued (unregister_node h x doc) m"
      by (fastforce simp: index_issued_def list_all_iff unregister_node_def split: option.split)
    then show ?case using Cons by simp
  qed simp
  have "table_ok ?doc h (S - set (oids r))" by (rule unregister_nodes_ok [OF Cons.prems(1) sub(3,5)])
  then have tab: "table_ok ?doc ?h (S - set (oids r))" by (rule table_ok_cong) simp
  have "list_all (shaped ?h) rs" by (rule shaped_cong [OF sub(2)]) simp
  moreover have "set (forest_oids rs) \<subseteq> S - set (oids r)" using Cons.prems(4) sub(6) by auto
  ultimately obtain doc' h' where rest: "unregister_all (map t_oid rs) (?doc, ?h) = Some (doc', h')"
    "table_ok doc' h' (S - set (oids r) - set (forest_oids rs))"
    "td_root doc' = td_root doc" "td_document_id doc' = td_document_id doc" "td_short_id_map doc' = td_short_id_map doc"
    "index_issued doc m \<longrightarrow> index_issued doc' m"
    "\<And>x. obj h' x = (if x \<in> t_oid ` set rs then (obj ?h x)\<lparr>ln_parent := None\<rparr> else obj ?h x)"
    using Cons.IH [OF tab _ sub(4)] keep [of doc "oids r"] by auto
  have "S - set (oids r) - set (forest_oids rs) = S - set (forest_oids (r # rs))" by auto
  moreover have "unregister_all (map t_oid (r # rs)) (doc, h) = Some (doc', h')"
    using rest(1) fragment_nodes_tree [OF sub(1)] by (simp add: unregister_subtree_def)
  moreover have "obj h' x = (if x \<in> t_oid ` set (r # rs) then (obj h x)\<lparr>ln_parent := None\<rparr> else obj h x)" for x
    by (simp add: rest(7) set_parent_def)
  ultimately show ?case using rest(2-6) by auto
qed simp

text \<open>The objects around a range below \<open>p\<close>.\<close>

lemma range_parts:
  assumes "tracks doc h t" and "p \<in> set (oids t)" and "i \<le> j" and "j \<le> length (subs_of p t)"
  defines "subs \<equiv> subs_of p t"
  shows "list_all (shaped h) (drop j subs)" "distinct (forest_oids (drop j subs))"
    and "list_all (shaped h) (list_slice i j subs)" "distinct (forest_oids (list_slice i j subs))"
    and "p \<notin> set (forest_oids (drop j subs))" "p \<notin> set (forest_oids (list_slice i j subs))"
    and "set (forest_oids (list_slice i j subs)) \<subseteq> set (oids t)" "set (forest_oids (drop j subs)) \<subseteq> set (oids t)"
proof -
  note t = tracksD [OF assms(1)]
  note d = subs_distinct [OF t(3), of p, folded subs_def]
  have sh: "list_all (shaped h) subs"
    using linked_shaped tracked_children(2) [OF assms(1,2)] unfolding subs_def by blast
  then show "list_all (shaped h) (drop j subs)" "list_all (shaped h) (list_slice i j subs)" by (rule list_all_slice)+
  have drop: "set (forest_oids (drop j subs)) \<subseteq> set (forest_oids subs)" by (auto dest: in_set_dropD)
  then show "p \<notin> set (forest_oids (drop j subs))" "set (forest_oids (drop j subs)) \<subseteq> set (oids t)" using d by blast+
  show "p \<notin> set (forest_oids (list_slice i j subs))" "set (forest_oids (list_slice i j subs)) \<subseteq> set (oids t)"
    using slice_inside [of i j subs] d by blast+
  have split: "forest_oids subs = forest_oids (take i subs) @ forest_oids (list_slice i j subs) @ forest_oids (drop j subs)"
  proof -
    have "subs = take i subs @ list_slice i j subs @ drop j subs"
      using assms(3) by (metis append.assoc append_take_drop_id le_add_diff_inverse list_slice_def take_add)
    then show ?thesis by (metis concat_append map_append)
  qed
  show "distinct (forest_oids (drop j subs))" "distinct (forest_oids (list_slice i j subs))"
    using d(1) unfolding split by simp_all
qed

lemma slice_roots: "t_oid ` set (list_slice i j ts) \<subseteq> set (forest_oids (list_slice i j ts))"
  by (rule roots_in_forest)

text \<open>The byte ranges after a run of \<open>d\<close> bytes is gone: the parent shrinks, what follows moves left.\<close>

definition shifted_range :: "int \<Rightarrow> oid \<Rightarrow> oid set \<Rightarrow> heap \<Rightarrow> oid \<Rightarrow> (int \<times> int) option" where
  "shifted_range d p later h x =
     (if x = p then map_option (\<lambda>(a, b). (a, b - d)) (ln_buffer_range (obj h x))
      else if x \<in> later then map_option (\<lambda>(a, b). (a - d, b - d)) (ln_buffer_range (obj h x))
      else ln_buffer_range (obj h x))"

lemma shift_ranges:
  assumes "list_all (shaped h1) later" and "distinct (forest_oids later)" and "p \<notin> set (forest_oids later)"
  obtains h2 where "(if d \<noteq> 0 then shift_subtrees (- d) (map t_oid later) (shrink_range p d h1) else Some h1) = Some h2"
    and "\<And>x. ln_children (obj h2 x) = ln_children (obj h1 x)" "\<And>x. ln_parent (obj h2 x) = ln_parent (obj h1 x)"
    and "\<And>x. ln_node_id (obj h2 x) = ln_node_id (obj h1 x)" "\<And>x. ln_short_id (obj h2 x) = ln_short_id (obj h1 x)"
    and "\<And>x. ln_buffer_range (obj h2 x) = shifted_range d p (set (forest_oids later)) h1 x"
    and "\<And>x. ln_fields (obj h2 x) = ln_fields (obj h1 x)"
proof (cases "d = 0")
  case True
  then show ?thesis using that [of h1] by (simp add: shifted_range_def option.map_ident case_prod_unfold)
next
  case False
  have shrink: "obj (shrink_range p d h1) x = (if x = p then (obj h1 p)\<lparr>ln_buffer_range :=
      map_option (\<lambda>(a, b). (a, b - d)) (ln_buffer_range (obj h1 p))\<rparr> else obj h1 x)" for x
    by (cases "ln_buffer_range (obj h1 p)") (auto simp: shrink_range_def)
  have "list_all (shaped (shrink_range p d h1)) later"
    by (rule shaped_cong [OF assms(1)]) (auto simp: shrink)
  from shift_forest [OF this assms(2), of "- d"] obtain h2 where h2:
    "shift_subtrees (- d) (map t_oid later) (shrink_range p d h1) = Some h2"
    "\<And>x. obj h2 x = (if x \<in> set (forest_oids later) then shift_node (- d) (obj (shrink_range p d h1) x)
      else obj (shrink_range p d h1) x)"
    by blast
  show ?thesis
    by (rule that [of h2]) (use False h2(1) assms(3) in \<open>simp_all add: h2(2) shrink shifted_range_def\<close>)
qed

lemma remove_range_tracks:
  assumes "tracks doc h t" and "p \<in> set (oids t)" and "i < j" and "j \<le> length (subs_of p t)"
  defines "xs \<equiv> map t_oid (list_slice i j (subs_of p t))"
  obtains doc' h' where "remove_range xs p i j doc h = Some (doc', h')" and "tracks doc' h' (splice_tree p i j [] t)"
    and "list_all (linked h' None) (list_slice i j (subs_of p t))"
    and "\<And>x. ln_buffer_range (obj h' x) = shifted_range (range_byte_length h xs) p (set (forest_oids (drop j (subs_of p t)))) h x"
    and "\<And>x. ln_node_id (obj h' x) = ln_node_id (obj h x)" and "\<And>x. ln_short_id (obj h' x) = ln_short_id (obj h x)"
    and "td_document_id doc' = td_document_id doc" and "td_short_id_map doc' = td_short_id_map doc"
    and "\<And>x. ln_fields (obj h' x) = ln_fields (obj h x)"
proof -
  have le: "i \<le> j" using assms(3) by simp
  note range = assms(2-4) xs_def
  note parts = range_parts [OF assms(1) range(1) le range(3)]
  let ?subs = "subs_of p t" let ?R = "list_slice i j ?subs" let ?S = "set (oids t)"
  note kids = tracked_children [OF assms(1,2)]
  define d where "d = range_byte_length h xs"
  define h1 where "h1 = set_children p (take i (ln_children (obj h p)) @ drop j (ln_children (obj h p))) h"
  have obj1: "ln_children (obj h1 x) = (if x = p then map t_oid (list_splice i j [] ?subs) else ln_children (obj h x))"
    "ln_parent (obj h1 x) = ln_parent (obj h x)" "ln_node_id (obj h1 x) = ln_node_id (obj h x)"
    "ln_short_id (obj h1 x) = ln_short_id (obj h x)" "ln_buffer_range (obj h1 x) = ln_buffer_range (obj h x)" for x
    by (simp_all add: h1_def kids(1) list_splice_def take_map drop_map)
  have rest: "drop i (take i (ln_children (obj h p)) @ drop j (ln_children (obj h p))) = map t_oid (drop j ?subs)"
    using range(2,3) by (simp add: kids(1) drop_map min_def)
  have sh1: "list_all (shaped h1) (drop j ?subs)"
    by (rule shaped_cong [OF parts(1)]) (use parts(5) in \<open>auto simp: obj1\<close>)
  obtain h2 where h2: "(if d \<noteq> 0 then shift_subtrees (- d) (map t_oid (drop j ?subs)) (shrink_range p d h1) else Some h1) = Some h2"
    "\<And>x. ln_children (obj h2 x) = ln_children (obj h1 x)" "\<And>x. ln_parent (obj h2 x) = ln_parent (obj h1 x)"
    "\<And>x. ln_node_id (obj h2 x) = ln_node_id (obj h1 x)" "\<And>x. ln_short_id (obj h2 x) = ln_short_id (obj h1 x)"
    "\<And>x. ln_buffer_range (obj h2 x) = shifted_range d p (set (forest_oids (drop j ?subs))) h1 x"
    "\<And>x. ln_fields (obj h2 x) = ln_fields (obj h1 x)"
    by (rule shift_ranges [where d = d, OF sh1 parts(2,5)]) blast
  have tab2: "table_ok doc h2 ?S" by (rule table_ok_cong [OF tracksD(4) [OF assms(1)]]) (simp add: h2 obj1)
  have sh2: "list_all (shaped h2) ?R"
    by (rule shaped_cong [OF parts(3)]) (use parts(6) in \<open>auto simp: h2 obj1\<close>)
  obtain doc' h3 where un: "unregister_all xs (doc, h2) = Some (doc', h3)" "table_ok doc' h3 (?S - set (forest_oids ?R))"
    "td_root doc' = td_root doc" "td_short_id_map doc' = td_short_id_map doc" "td_document_id doc' = td_document_id doc"
    "\<And>x. obj h3 x = (if x \<in> t_oid ` set ?R then (obj h2 x)\<lparr>ln_parent := None\<rparr> else obj h2 x)"
    using unregister_forest [OF tab2 sh2 parts(4,7)] unfolding range(4) by blast
  have obj3: "ln_children (obj h3 x) = ln_children (obj h1 x)" "ln_buffer_range (obj h3 x) = ln_buffer_range (obj h2 x)" 
    "ln_parent (obj h3 x) = (if x \<in> t_oid ` set ?R then None else ln_parent (obj h x))" for x
    by (simp_all add: un(6) h2 obj1)
  have tracks: "tracks doc' h3 (splice_tree p i j [] t)"
  proof (rule splice_tracks [OF assms(1) range(1) le range(3)])
    fix x assume x: "x \<in> ?S - set (forest_oids ?R)"
    then have "x \<notin> t_oid ` set ?R" using slice_roots by blast
    then show "ln_parent (obj h3 x) = ln_parent (obj h x)
        \<and> ln_children (obj h3 x) = (if x = p then map t_oid (list_splice i j [] ?subs) else ln_children (obj h x))"
      by (simp add: obj3 obj1)
  qed (use un(2,3) in simp_all)
  have "list_all (linked h3 None) ?R"
  proof (rule linked_new_parents [OF _ parts(4)])
    show "list_all (\<lambda>r. \<exists>q. linked h q r) ?R" using list_all_slice(3) [OF kids(2)] by (auto simp: list_all_iff)
  qed (use parts(6) in \<open>auto simp: obj3 obj1\<close>)
  moreover have "remove_range xs p i j doc h = Some (doc', h3)"
  proof -
    have "remove_range xs p i j doc h =
        Option.bind (if d \<noteq> 0 then shift_subtrees (- d) (drop i (take i (ln_children (obj h p)) @ drop j (ln_children (obj h p))))
            (shrink_range p d h1) else Some h1) (\<lambda>h2. unregister_all xs (doc, h2))"
      by (simp only: remove_range_def Let_def d_def h1_def)
    then show ?thesis unfolding rest h2(1) by (simp add: un(1))
  qed
  moreover have "ln_buffer_range (obj h3 x) = shifted_range (range_byte_length h xs) p (set (forest_oids (drop j ?subs))) h x" for x
    by (simp add: obj3 h2 shifted_range_def obj1 d_def)
  moreover have "ln_fields (obj h3 x) = ln_fields (obj h x)" for x by (simp add: un(6) h2 h1_def set_children_def)
  ultimately show ?thesis
    using tracks un(4,5) by (intro that) (assumption | simp add: un(6) h2 obj1)+
qed

lemma delete_outcome:
  assumes "tracks doc h t"
  shows "\<exists>result doc' h'. delete_nodes doc targets h s = Some (result, doc', h', s) \<and>
    (case result of
       Inl e \<Rightarrow> doc' = doc \<and> h' = h \<and> (\<exists>c. resolve_contiguous_range doc h targets = Inl c \<and> e = rejection c)
     | Inr r \<Rightarrow> \<exists>xs p i j. resolve_contiguous_range doc h targets = Inr (xs, p, i, j)
         \<and> p \<in> set (oids t) \<and> i < j \<and> j \<le> length (subs_of p t) \<and> xs = map t_oid (list_slice i j (subs_of p t))
         \<and> tracks doc' h' (splice_tree p i j [] t) \<and> list_all (linked h' None) (list_slice i j (subs_of p t))
         \<and> mr_removed r = map (address_of doc h) xs \<and> mr_position r = Some i
         \<and> (\<forall>x. ln_buffer_range (obj h' x) =
              shifted_range (range_byte_length h xs) p (set (forest_oids (drop j (subs_of p t)))) h x))"
proof (cases "resolve_contiguous_range doc h targets")
  case (Inl c)
  then show ?thesis by (simp add: delete_nodes_def)
next
  case (Inr q)
  obtain xs p i j where q: "resolve_contiguous_range doc h targets = Inr (xs, p, i, j)" using Inr by (cases q) simp
  note range = contiguous_range_in [OF assms q]
  obtain doc' h' where res: "remove_range xs p i j doc h = Some (doc', h')" "tracks doc' h' (splice_tree p i j [] t)"
    "list_all (linked h' None) (list_slice i j (subs_of p t))"
    "\<And>x. ln_buffer_range (obj h' x) = shifted_range (range_byte_length h xs) p (set (forest_oids (drop j (subs_of p t)))) h x"
    unfolding range(4) by (rule remove_range_tracks [OF assms range(1-3)]) blast
  then show ?thesis using q range(1-4) by (simp add: delete_nodes_def Let_def)
qed

text \<open>
  C13. Deletion refines deletion from the tree. On a document that tracks a tree it always returns. If the
  targets do not resolve to a contiguous run of siblings nothing changes. Otherwise the
  document tracks the tree without these subtrees, which stay linked as trees of their own
  without parent; the addresses of the targets are reported in order. When all targets have a byte
  range, the range of the parent shrinks by the length removed and those of the subtrees after
  the run move left by it; no other range changes.
\<close>

theorem delete_refines_tree_deletion:
  assumes "tracks doc h t"
  shows "\<exists>result doc' h'. delete_nodes doc targets h s = Some (result, doc', h', s) \<and>
    (case result of
       Inl e \<Rightarrow> doc' = doc \<and> h' = h \<and> (\<exists>c. resolve_contiguous_range doc h targets = Inl c \<and> e = rejection c)
     | Inr r \<Rightarrow> \<exists>xs p i j. resolve_contiguous_range doc h targets = Inr (xs, p, i, j)
         \<and> p \<in> set (oids t) \<and> i < j \<and> j \<le> length (subs_of p t) \<and> xs = map t_oid (list_slice i j (subs_of p t))
         \<and> tracks doc' h' (splice_tree p i j [] t) \<and> list_all (linked h' None) (list_slice i j (subs_of p t))
         \<and> mr_removed r = map (address_of doc h) xs \<and> mr_position r = Some i
         \<and> (\<forall>x. ln_buffer_range (obj h' x) =
              shifted_range (range_byte_length h xs) p (set (forest_oids (drop j (subs_of p t)))) h x))"
  by (rule delete_outcome [OF assms])

section \<open>Range replacement is replacement in the tree\<close>

lemma fragments_of_forest: "list_all (shaped h) ts \<Longrightarrow> fragments_of h (map t_oid ts) = Some (forest_oids ts)"
  by (induction ts) (simp_all add: fragment_nodes_tree)

lemma plan_for_append:
  "length ids = length xs \<Longrightarrow> plan_for h xs ids @ plan_for h ys js = plan_for h (xs @ ys) (ids @ js)"
  by (simp add: plan_for_def)

abbreviation root_violated ::
  "tree_document \<Rightarrow> heap \<Rightarrow> oid list \<Rightarrow> oid \<Rightarrow> string \<Rightarrow> nat \<Rightarrow> 's preflight \<Rightarrow> otree \<Rightarrow> error_code \<Rightarrow> bool" where
  "root_violated doc h os p position start pf r c \<equiv>
     violated doc h r os (Some p) (Some position) (IntIndex (int start)) pf c"

text \<open>All preflights of a batch: the violations of all roots, or one plan for all nodes.\<close>

lemma preflight_all_outcome:
  assumes "chain h (Some p) os" and "pf_next_short_id pf = Some (next_short_id_of gen)"
    and "used = (case pf_used_short_ids pf of None \<Rightarrow> [] | Some ids \<Rightarrow> ids)"
  shows "list_all (shaped h) rs \<Longrightarrow> fresh_stream gen (length (forest_oids rs) + n) (m, k) \<Longrightarrow>
    \<exists>errors ids m' k'. preflight_all doc (map t_oid rs) p position start pf h (m, k) = Some (Inr (errors,
        plan_for h (filter (needs_short_id h used) (forest_oids
          (filter (\<lambda>r. \<forall>c. \<not> root_violated doc h os p position start pf r c) rs))) ids), (m', k'))
      \<and> ve_code ` set errors = {c. \<exists>r \<in> set rs. root_violated doc h os p position start pf r c}
      \<and> length ids = length (filter (needs_short_id h used) (forest_oids
          (filter (\<lambda>r. \<forall>c. \<not> root_violated doc h os p position start pf r c) rs)))
      \<and> distinct ids \<and> (\<forall>i \<in> set ids. next_short_id m \<le> i \<and> i < next_short_id m')
      \<and> next_short_id m \<le> next_short_id m' \<and> fresh_stream gen n (m', k')"
proof (induction rs arbitrary: m k)
  case Nil
  then show ?case by (auto simp: plan_for_def)
next
  case (Cons r rs)
  let ?V = "root_violated doc h os p position start pf"
  let ?ok = "\<lambda>r. \<forall>c. \<not> ?V r c"
  have sh: "shaped h r" "list_all (shaped h) rs" using Cons.prems(1) by simp_all
  have len: "fresh_stream gen (length (oids r) + (length (forest_oids rs) + n)) (m, k)"
    using Cons.prems(2) by (simp add: add.assoc)
  show ?case
  proof (cases "\<exists>c. ?V r c")
    case True
    then obtain es where es: "validate_mutation doc (t_oid r) (Some p) (Some position) (IntIndex (int start)) pf h (m, k)
        = Some (Inr \<lparr>vr_success = False, vr_errors = es, vr_short_id_plan = []\<rparr>, (m, k))"
      "ve_code ` set es = Collect (?V r)"
      using validate_mutation_outcome [OF sh(1) assms(1), of doc "Some position" "IntIndex (int start)" pf "(m, k)"]
      by (simp only: if_True) blast
    have "fresh_stream gen (length (forest_oids rs) + n) (m, k)" by (rule fresh_stream_mono [OF len]) simp
    from Cons.IH [OF sh(2) this] obtain errors ids m' k' where
      ih: "preflight_all doc (map t_oid rs) p position start pf h (m, k)
        = Some (Inr (errors, plan_for h (filter (needs_short_id h used) (forest_oids (filter ?ok rs))) ids), (m', k'))"
      "ve_code ` set errors = {c. \<exists>r \<in> set rs. ?V r c}"
      "length ids = length (filter (needs_short_id h used) (forest_oids (filter ?ok rs)))"
      "distinct ids" "\<forall>i \<in> set ids. next_short_id m \<le> i \<and> i < next_short_id m'"
      "next_short_id m \<le> next_short_id m'" "fresh_stream gen n (m', k')" by blast
    have skip: "filter ?ok (r # rs) = filter ?ok rs" using True by simp
    have "ve_code ` set (es @ errors) = {c. \<exists>r' \<in> set (r # rs). ?V r' c}"
      unfolding set_append image_Un es(2) ih(2) by auto
    then show ?thesis
      unfolding skip using es(1) ih(1,3-) by (intro exI [of _ "es @ errors"] exI [of _ ids] exI [of _ m'] exI [of _ k']) simp
  next
    case False
    then have ok: "\<not> ?V r c" for c by blast
    let ?xs = "filter (needs_short_id h used) (oids r)"
    obtain ids1 m1 k1 where v: "validate_mutation doc (t_oid r) (Some p) (Some position) (IntIndex (int start)) pf h (m, k)
        = Some (Inr \<lparr>vr_success = True, vr_errors = [], vr_short_id_plan = plan_for h ?xs ids1\<rparr>, (m1, k1))"
      "length ids1 = length ?xs" "distinct ids1" "\<forall>i \<in> set ids1. next_short_id m \<le> i \<and> i < next_short_id m1"
      "next_short_id m \<le> next_short_id m1" "fresh_stream gen (length (forest_oids rs) + n) (m1, k1)"
      using accepted_plan [OF sh(1) assms(1) ok assms(2,3) len] by blast
    from Cons.IH [OF sh(2) v(6)] obtain errors ids m' k' where
      ih: "preflight_all doc (map t_oid rs) p position start pf h (m1, k1)
        = Some (Inr (errors, plan_for h (filter (needs_short_id h used) (forest_oids (filter ?ok rs))) ids), (m', k'))"
      "ve_code ` set errors = {c. \<exists>r \<in> set rs. ?V r c}"
      "length ids = length (filter (needs_short_id h used) (forest_oids (filter ?ok rs)))"
      "distinct ids" "\<forall>i \<in> set ids. next_short_id m1 \<le> i \<and> i < next_short_id m'"
      "next_short_id m1 \<le> next_short_id m'" "fresh_stream gen n (m', k')" by blast
    have keep: "filter ?ok (r # rs) = r # filter ?ok rs" using ok by simp
    have "set ids1 \<inter> set ids = {}" using v(4) ih(5) by fastforce
    moreover have "preflight_all doc (map t_oid (r # rs)) p position start pf h (m, k)
        = Some (Inr (errors, plan_for h (filter (needs_short_id h used) (forest_oids (filter ?ok (r # rs)))) (ids1 @ ids)), (m', k'))"
      unfolding keep using v(1) ih(1) by (simp add: plan_for_append v(2))
    moreover have "ve_code ` set errors = {c. \<exists>r' \<in> set (r # rs). ?V r' c}" using ih(2) ok by auto
    moreover have "\<forall>i \<in> set (ids1 @ ids). next_short_id m \<le> i \<and> i < next_short_id m'"
      using v(4,5) ih(5,6) by fastforce
    ultimately show ?thesis
      using v(2,3,5) ih(3,4,6,7) unfolding keep
      by (intro exI [of _ errors] exI [of _ "ids1 @ ids"] exI [of _ m'] exI [of _ k']) simp
  qed
qed

lemma fold_set_parent:
  "obj (fold (set_parent q) cs h) x = (if x \<in> set cs then (obj h x)\<lparr>ln_parent := q\<rparr> else obj h x)"
  by (induction cs arbitrary: h) (auto simp: set_parent_def)

lemma replace_accepted:
  assumes "tracks doc h t" and "incoming_ok doc h used m new" and "index_issued doc m"
    and "used = (case pf_used_short_ids pf of None \<Rightarrow> [] | Some ids \<Rightarrow> ids)"
    and "pf_next_short_id pf = Some (next_short_id_of gen)" and "fresh_stream gen (length (forest_oids new) + n) (m, k)"
    and "resolve_contiguous_range doc h targets = Inr (xs, p, i, j)" and "chain h (Some p) os" and "new \<noteq> []"
    and "\<And>r c. r \<in> set new \<Longrightarrow> \<not> root_violated doc h os p ''child_index'' i pf r c"
  obtains r doc' h' m' k' where "replace_range doc targets (map t_oid new) pf h (m, k) = Some (Inr r, doc', h', (m', k'))"
    and "tracks doc' h' (splice_tree p i j new t)" and "list_all (linked h' None) (list_slice i j (subs_of p t))"
    and "mr_position r = Some i" and "mr_removed r = map (address_of doc h) xs" and "fresh_stream gen n (m', k')"
    and "\<forall>x \<in> set (oids t). ln_short_id (obj h' x) = ln_short_id (obj h x)"
    and "\<forall>e \<in> set (mr_remap r). \<exists>s. sr_new_short_id e = Some s \<and> next_short_id m \<le> s \<and> s < next_short_id m'"
proof -
  let ?N = "forest_oids new" let ?S = "set (oids t)" let ?R = "list_slice i j (subs_of p t)"
  let ?xs = "filter (needs_short_id h used) ?N"
  note range = contiguous_range_in [OF assms(1,7)]
  have le: "i \<le> j" using range(2) by simp
  note parts = range_parts [OF assms(1) range(1) le range(3)]
  note kids = tracked_children [OF assms(1) range(1)] and tab = tracksD(4) [OF assms(1)]
  have N: "distinct ?N" "inj_on (\<lambda>x. ln_node_id (obj h x)) (set ?N)" "list_all (\<lambda>t. \<exists>q. linked h q t) new"
    using assms(2) by (simp_all add: incoming_ok_def)
  have sh: "list_all (shaped h) new"
    using N(3) linked_shaped [of h _ "[_]"] by (fastforce simp: list_all_iff)
  have all_ok: "filter (\<lambda>r. \<forall>c. \<not> root_violated doc h os p ''child_index'' i pf r c) new = new"
    using assms(10) by (simp add: filter_id_conv)
  obtain errors ids m' k' where v: "preflight_all doc (map t_oid new) p ''child_index'' i pf h (m, k)
      = Some (Inr (errors, plan_for h ?xs ids), (m', k'))" "ve_code ` set errors = {c. \<exists>r \<in> set new. root_violated doc h os p ''child_index'' i pf r c}"
    "length ids = length ?xs" "distinct ids" "\<And>i. i \<in> set ids \<Longrightarrow> next_short_id m \<le> i \<and> i < next_short_id m'" "fresh_stream gen n (m', k')"
    using preflight_all_outcome [OF assms(8,5,4) sh assms(6), of doc "''child_index''" i] unfolding all_ok by blast
  have no_errors: "errors = []" using v(2) assms(10) by auto
  have ids_new: "\<not> dict_has (td_nodes_by_id doc) (ln_node_id (obj h x))" if "x \<in> set ?N" for x
  proof -
    have "\<exists>r \<in> set new. x \<in> set (oids r)" using that by auto
    then show ?thesis using accepted_ids_new [OF assms(10)] by blast
  qed
  have apart: "set ?N \<inter> ?S = {}" by (rule incoming_apart [OF tab ids_new])
  let ?a = "map_of (zip ?xs ids)"
  define h1 where "h1 = apply_short_id_plan ?N (plan_for h ?xs ids) h"
  have h1: "h1 = h\<lparr>objects := \<lambda>x. case ?a x of None \<Rightarrow> obj h x | Some i \<Rightarrow> (obj h x)\<lparr>ln_short_id := Some i\<rparr>\<rparr>"
    unfolding h1_def by (rule apply_plan [OF N(1,2) v(3)])
  define h2 where "h2 = fold (set_parent (Some p)) (map t_oid new) h1"
  define h3 where "h3 = set_children p (take i (ln_children (obj h2 p)) @ map t_oid new @ drop j (ln_children (obj h2 p))) h2"
  have new_roots: "t_oid ` set new \<subseteq> set ?N" by (rule roots_in_forest)
  have obj3: "ln_node_id (obj h3 x) = ln_node_id (obj h x)"
    "ln_short_id (obj h3 x) = (case ?a x of None \<Rightarrow> ln_short_id (obj h x) | Some i \<Rightarrow> Some i)"
    "ln_parent (obj h3 x) = (if x \<in> t_oid ` set new then Some p else ln_parent (obj h x))"
    "ln_children (obj h3 x) = (if x = p then map t_oid (list_splice i j new (subs_of p t)) else ln_children (obj h x))" for x
  proof -
    have one: "ln_children (obj h1 x) = ln_children (obj h x)" "ln_parent (obj h1 x) = ln_parent (obj h x)"
      "ln_node_id (obj h1 x) = ln_node_id (obj h x)"
      "ln_short_id (obj h1 x) = (case ?a x of None \<Rightarrow> ln_short_id (obj h x) | Some i \<Rightarrow> Some i)" for x
      by (cases "?a x"; simp add: h1)+
    have two: "ln_children (obj h2 x) = ln_children (obj h1 x)" "ln_node_id (obj h2 x) = ln_node_id (obj h1 x)"
      "ln_short_id (obj h2 x) = ln_short_id (obj h1 x)"
      "ln_parent (obj h2 x) = (if x \<in> t_oid ` set new then Some p else ln_parent (obj h1 x))" for x
      by (simp_all add: h2_def fold_set_parent)
    show "ln_node_id (obj h3 x) = ln_node_id (obj h x)" by (simp add: h3_def two one)
    show "ln_short_id (obj h3 x) = (case ?a x of None \<Rightarrow> ln_short_id (obj h x) | Some i \<Rightarrow> Some i)"
      by (simp add: h3_def two one)
    show "ln_parent (obj h3 x) = (if x \<in> t_oid ` set new then Some p else ln_parent (obj h x))"
      by (simp add: h3_def two one)
    show "ln_children (obj h3 x) = (if x = p then map t_oid (list_splice i j new (subs_of p t)) else ln_children (obj h x))"
      by (simp add: h3_def two one kids(1) list_splice_def take_map drop_map)
  qed
  have outside: "?a x = None" if "x \<in> ?S" for x
  proof -
    have "x \<notin> set ?xs" using that apart by (simp only: set_filter mem_Collect_eq) blast
    then show ?thesis using v(3) by simp
  qed
  have tab3: "table_ok doc h3 ?S" by (rule table_ok_cong [OF tab]) (simp add: obj3 outside)
  have sh3: "list_all (shaped h3) ?R"
    by (rule shaped_cong [OF parts(3)]) (use parts(6) in \<open>auto simp: obj3\<close>)
  obtain doc1 h4 where un: "unregister_all xs (doc, h3) = Some (doc1, h4)" "table_ok doc1 h4 (?S - set (forest_oids ?R))"
    "td_root doc1 = td_root doc" "\<And>x. obj h4 x = (if x \<in> t_oid ` set ?R then (obj h3 x)\<lparr>ln_parent := None\<rparr> else obj h3 x)"
    using unregister_forest [OF tab3 sh3 parts(4,7)] unfolding range(4) by blast
  define doc2 where "doc2 = register_fragment h4 ?N doc1"
  have obj4: "ln_node_id (obj h4 x) = ln_node_id (obj h x)" "ln_short_id (obj h4 x) = ln_short_id (obj h3 x)"
    "ln_children (obj h4 x) = ln_children (obj h3 x)"
    "ln_parent (obj h4 x) = (if x \<in> t_oid ` set ?R then None else ln_parent (obj h3 x))" for x
    by (simp_all add: un(4) obj3(1))
  have "separate h4 (?S \<union> set ?N)"
    using planned_separate [OF tab assms(3,2) ids_new _ v(3,4), of h4] v(5) by (simp add: obj4 obj3)
  then have "separate h4 (?S - set (forest_oids ?R) \<union> set ?N)" by (rule separate_subset) auto
  then have tab4: "table_ok doc2 h4 (?S - set (forest_oids ?R) \<union> set ?N)"
    unfolding doc2_def by (rule register_fragment_ok [OF un(2)])
  have not_R: "x \<notin> t_oid ` set ?R" if "x \<in> set ?N" for x
    using that slice_roots [of i j "subs_of p t"] parts(7) apart by blast
  have tracks: "tracks doc2 h4 (splice_tree p i j new t)"
  proof (rule splice_tracks [OF assms(1) range(1) le range(3) N(1) apart])
    show "list_all (linked h4 (Some p)) new"
    proof (rule linked_new_parents [OF N(3,1)])
      fix x assume x: "x \<in> set ?N"
      then have "x \<noteq> p" using apart range(1) by blast
      then show "ln_children (obj h4 x) = ln_children (obj h x)
          \<and> ln_parent (obj h4 x) = (if x \<in> t_oid ` set new then Some p else ln_parent (obj h x))"
        using not_R [OF x] by (simp add: obj4 obj3)
    qed
    fix x assume x: "x \<in> ?S - set (forest_oids ?R)"
    then have "x \<notin> t_oid ` set ?R" "x \<notin> t_oid ` set new" using slice_roots new_roots apart by blast+
    then show "ln_parent (obj h4 x) = ln_parent (obj h x)
        \<and> ln_children (obj h4 x) = (if x = p then map t_oid (list_splice i j new (subs_of p t)) else ln_children (obj h x))"
      by (simp add: obj4 obj3)
  qed (use tab4 un(3) in \<open>simp_all add: doc2_def\<close>)
  have detached: "list_all (linked h4 None) ?R"
  proof (rule linked_new_parents [OF _ parts(4)])
    show "list_all (\<lambda>r. \<exists>q. linked h q r) ?R" using list_all_slice(3) [OF kids(2)] by (auto simp: list_all_iff)
    fix x assume "x \<in> set (forest_oids ?R)"
    then have "x \<noteq> p" "x \<notin> t_oid ` set new" using parts(6,7) new_roots apart by blast+
    then show "ln_children (obj h4 x) = ln_children (obj h x) \<and> ln_parent (obj h4 x) = (if x \<in> t_oid ` set ?R then None else ln_parent (obj h x))"
      by (simp add: obj4 obj3)
  qed
  have "distinct (map (\<lambda>x. ln_node_id (obj h x)) ?N)" using N(1,2) by (simp add: distinct_map)
  then have "replace_range doc targets (map t_oid new) pf h (m, k) = Some (Inr
      \<lparr>mr_node_id = Some (ln_node_id (obj h4 p)), mr_short_id = ln_short_id (obj h4 p),
       mr_position = Some i, mr_remap = plan_for h ?xs ids, mr_removed = map (address_of doc h) xs,
       mr_inserted = map (address_of doc2 h4) (map t_oid new)\<rparr>, doc2, h4, (m', k'))"
    using assms(7,9) fragments_of_forest [OF sh] v(1) no_errors un(1)
    by (simp add: replace_range_def Let_def h1_def [symmetric] h2_def [symmetric] h3_def [symmetric] doc2_def [symmetric])
  then show ?thesis
    by (rule that [OF _ tracks detached _ _ v(6)])
      (use v(5) in \<open>auto simp: obj4 obj3 outside plan_for_def dest: set_zip_rightD\<close>)
qed

lemma replace_outcome:
  assumes "tracks doc h t" and "incoming_ok doc h used m new" and "index_issued doc m"
    and "used = (case pf_used_short_ids pf of None \<Rightarrow> [] | Some ids \<Rightarrow> ids)"
    and "pf_next_short_id pf = Some (next_short_id_of gen)" and "fresh_stream gen (length (forest_oids new)) (m, k)"
  shows "\<exists>result doc' h' m' k'. replace_range doc targets (map t_oid new) pf h (m, k) = Some (result, doc', h', (m', k')) \<and>
    (case result of
       Inl e \<Rightarrow> doc' = doc \<and> h' = h \<and> (\<exists>errors. e = MutationError errors \<and> errors \<noteq> [])
         \<and> (\<forall>xs p i j. resolve_contiguous_range doc h targets = Inr (xs, p, i, j) \<longrightarrow>
              new = [] \<or> (\<exists>os. chain h (Some p) os \<and> set os \<subseteq> set (oids t) \<and> (\<exists>r \<in> set new. \<exists>c.
                violated doc h r os (Some p) (Some ''child_index'') (IntIndex (int i)) pf c)))
     | Inr r \<Rightarrow> \<exists>xs p i j. resolve_contiguous_range doc h targets = Inr (xs, p, i, j)
         \<and> p \<in> set (oids t) \<and> i < j \<and> j \<le> length (subs_of p t) \<and> xs = map t_oid (list_slice i j (subs_of p t)) \<and> xs \<noteq> [] \<and> new \<noteq> []
         \<and> tracks doc' h' (splice_tree p i j new t) \<and> list_all (linked h' None) (list_slice i j (subs_of p t))
         \<and> mr_position r = Some i \<and> mr_removed r = map (address_of doc h) xs
         \<and> (\<forall>e \<in> set (mr_remap r). \<exists>s. sr_new_short_id e = Some s \<and> next_short_id m \<le> s \<and> s < next_short_id m'))"
proof (cases "resolve_contiguous_range doc h targets")
  case (Inl c)
  then show ?thesis by (simp add: replace_range_def rejection_def)
next
  case (Inr q)
  obtain xs p i j where q: "resolve_contiguous_range doc h targets = Inr (xs, p, i, j)" using Inr by (cases q) simp
  note range = contiguous_range_in [OF assms(1) q]
  obtain os where os: "chain h (Some p) (p # os)" "set (p # os) \<subseteq> set (oids t)"
    by (rule chain_in_tree [OF tracksD(1) [OF assms(1)] range(1)])
  have N: "distinct (forest_oids new)" "inj_on (\<lambda>x. ln_node_id (obj h x)) (set (forest_oids new))" "list_all (\<lambda>t. \<exists>q. linked h q t) new"
    using assms(2) by (simp_all add: incoming_ok_def)
  have sh: "list_all (shaped h) new"
    using N(3) linked_shaped [of h _ "[_]"] by (fastforce simp: list_all_iff)
  have dist: "distinct (map (\<lambda>x. ln_node_id (obj h x)) (forest_oids new))" using N(1,2) by (simp add: distinct_map)
  have fresh: "fresh_stream gen (length (forest_oids new) + 0) (m, k)" using assms(6) by simp
  consider "new = []" | "\<exists>r \<in> set new. \<exists>c. root_violated doc h (p # os) p ''child_index'' i pf r c"
    | "new \<noteq> []" "\<And>r c. r \<in> set new \<Longrightarrow> \<not> root_violated doc h (p # os) p ''child_index'' i pf r c" by blast
  then show ?thesis
  proof cases
    case 1
    then show ?thesis by (simp add: replace_range_def q rejection_def)
  next
    case 2
    then have "new \<noteq> []" by auto
    obtain errors plan m' k' where v: "preflight_all doc (map t_oid new) p ''child_index'' i pf h (m, k) = Some (Inr (errors, plan), (m', k'))"
      "ve_code ` set errors = {c. \<exists>r \<in> set new. root_violated doc h (p # os) p ''child_index'' i pf r c}"
      using preflight_all_outcome [OF os(1) assms(5,4) sh fresh, of doc "''child_index''" i] by blast
    have "errors \<noteq> []" using v(2) 2 by auto
    then have "replace_range doc targets (map t_oid new) pf h (m, k) = Some (Inl (MutationError errors), doc, h, (m', k'))"
      using q \<open>new \<noteq> []\<close> fragments_of_forest [OF sh] dist v(1) by (simp add: replace_range_def Let_def)
    moreover have "\<exists>os. chain h (Some p) os \<and> set os \<subseteq> set (oids t) \<and> (\<exists>r \<in> set new. \<exists>c. root_violated doc h os p ''child_index'' i pf r c)" using os 2 by blast
    ultimately show ?thesis using q \<open>errors \<noteq> []\<close> by simp
  next
    case 3
    obtain r doc' h' m' k' where res: "replace_range doc targets (map t_oid new) pf h (m, k) = Some (Inr r, doc', h', (m', k'))"
      "tracks doc' h' (splice_tree p i j new t)" "list_all (linked h' None) (list_slice i j (subs_of p t))"
      "mr_position r = Some i" "mr_removed r = map (address_of doc h) xs" "fresh_stream gen 0 (m', k')"
      "\<forall>e \<in> set (mr_remap r). \<exists>s. sr_new_short_id e = Some s \<and> next_short_id m \<le> s \<and> s < next_short_id m'"
      by (rule replace_accepted [OF assms(1-5) fresh q os(1) 3]) blast
    then show ?thesis using q range 3(1) by simp
  qed
qed

text \<open>
  C3. Range replacement refines replacement in the tree. On a document that tracks a tree, with the
  engine's allocator, replacing by fragments of distinct fresh nodes always returns. If the targets
  do not resolve, the batch is empty or some root violates the preflight, document and heap are
  as before and there is an error. Otherwise the document tracks the tree with the run replaced by
  the fragments in order, in one step, and the removed subtrees are trees of their own; the
  result names the removed addresses and the index.
\<close>

theorem replace_range_refines_tree_replacement:
  assumes "tracks doc h t" and "incoming_ok doc h used m new" and "index_issued doc m"
    and "used = (case pf_used_short_ids pf of None \<Rightarrow> [] | Some ids \<Rightarrow> ids)"
    and "pf_next_short_id pf = Some (next_short_id_of gen)" and "fresh_stream gen (length (forest_oids new)) (m, k)"
  shows "\<exists>result doc' h' s'. replace_range doc targets (map t_oid new) pf h (m, k) = Some (result, doc', h', s') \<and>
    (case result of
       Inl e \<Rightarrow> doc' = doc \<and> h' = h \<and> (\<exists>errors. e = MutationError errors \<and> errors \<noteq> [])
         \<and> (\<forall>xs p i j. resolve_contiguous_range doc h targets = Inr (xs, p, i, j) \<longrightarrow>
              new = [] \<or> (\<exists>os. chain h (Some p) os \<and> (\<exists>r \<in> set new. \<exists>c.
                violated doc h r os (Some p) (Some ''child_index'') (IntIndex (int i)) pf c)))
     | Inr r \<Rightarrow> \<exists>xs p i j. resolve_contiguous_range doc h targets = Inr (xs, p, i, j)
         \<and> xs = map t_oid (list_slice i j (subs_of p t)) \<and> xs \<noteq> [] \<and> new \<noteq> []
         \<and> tracks doc' h' (splice_tree p i j new t) \<and> list_all (linked h' None) (list_slice i j (subs_of p t))
         \<and> mr_position r = Some i \<and> mr_removed r = map (address_of doc h) xs)"
proof -
  obtain result doc' h' m' k' where run: "replace_range doc targets (map t_oid new) pf h (m, k) = Some (result, doc', h', (m', k'))"
    and res: "case result of
       Inl e \<Rightarrow> doc' = doc \<and> h' = h \<and> (\<exists>errors. e = MutationError errors \<and> errors \<noteq> [])
         \<and> (\<forall>xs p i j. resolve_contiguous_range doc h targets = Inr (xs, p, i, j) \<longrightarrow>
              new = [] \<or> (\<exists>os. chain h (Some p) os \<and> set os \<subseteq> set (oids t) \<and> (\<exists>r \<in> set new. \<exists>c.
                violated doc h r os (Some p) (Some ''child_index'') (IntIndex (int i)) pf c)))
     | Inr r \<Rightarrow> \<exists>xs p i j. resolve_contiguous_range doc h targets = Inr (xs, p, i, j) \<and> p \<in> set (oids t) \<and> i < j
         \<and> j \<le> length (subs_of p t) \<and> xs = map t_oid (list_slice i j (subs_of p t)) \<and> xs \<noteq> [] \<and> new \<noteq> []
         \<and> tracks doc' h' (splice_tree p i j new t) \<and> list_all (linked h' None) (list_slice i j (subs_of p t))
         \<and> mr_position r = Some i \<and> mr_removed r = map (address_of doc h) xs
         \<and> (\<forall>e \<in> set (mr_remap r). \<exists>s. sr_new_short_id e = Some s \<and> next_short_id m \<le> s \<and> s < next_short_id m')"
    using replace_outcome [OF assms, of targets] by blast
  show ?thesis
    by (intro exI conjI, rule run, use res in \<open>cases result\<close>) (simp; blast)+
qed

section \<open>On the example document\<close>

lemma work_range: "resolve_contiguous_range work_doc work_heap [NodeRef 1] = Inr ([1], 0, 0, 1)"
  by (simp add: resolve_contiguous_range_def contiguous_range_def resolve_ref_def Let_def work_defs v4_inj list_slice_def)

theorem delete_refines_tree_deletion_witness:
  "\<exists>r doc' h'. delete_nodes work_doc [NodeRef 1] work_heap () = Some (Inr r, doc', h', ())
     \<and> tracks doc' h' (T 0 [T 2 []]) \<and> ln_buffer_range (obj h' 0) = Some (0, 6) \<and> ln_buffer_range (obj h' 2) = Some (0, 6)"
proof -
  note del = delete_refines_tree_deletion [OF work_tracks, of "[NodeRef 1]" "()"]
  then obtain result doc' h' where run: "delete_nodes work_doc [NodeRef 1] work_heap () = Some (result, doc', h', ())" by blast
  note res = del [unfolded run work_range]
  have bytes: "range_byte_length work_heap [1] = 4" by (simp add: range_byte_length_def work_defs)
  show ?thesis
  proof (cases result)
    case (Inr r)
    then show ?thesis using res run bytes
      by (auto simp: list_splice_def list_slice_def shifted_range_def work_heap_def work_node_def)
  qed (use res in auto)
qed

theorem replace_range_refines_tree_replacement_witness:
  "\<exists>r doc' h' s'. replace_range work_doc [NodeRef 1] [3] work_preflight work_heap
      ((td_short_id_map work_doc)\<lparr>next_short_id := 10\<rparr>, 0) = Some (Inr r, doc', h', s')
    \<and> tracks doc' h' (T 0 [T 3 [T 4 []], T 2 []])"
proof -
  let ?m = "(td_short_id_map work_doc)\<lparr>next_short_id := 10\<rparr>"
  have index: "index_issued work_doc ?m" by (simp add: index_issued_def work_doc_def)
  have chains: "os = [0]" if "chain work_heap (Some 0) os" for os
    using chain_unique [OF that work_chain] .
  have ok: "\<not> violated work_doc work_heap (T 3 [T 4 []]) [0] (Some 0) (Some ''child_index'') (IntIndex 0) work_preflight c" for c
    using work_accepted [of c] by (simp add: violated_def work_preflight_def position_ok_def VALID_POSITIONS_def)
  have args: "[1, 2, 3] = (case pf_used_short_ids work_preflight of None \<Rightarrow> [] | Some ids \<Rightarrow> ids)"
    "pf_next_short_id work_preflight = Some (next_short_id_of (\<lambda>k. v4 (200 + k)))"
    "fresh_stream (\<lambda>k. v4 (200 + k)) (length (forest_oids [T 3 [T 4 []]])) (?m, 0)"
    using work_fresh by (simp_all add: work_preflight_def numeral_2_eq_2)
  note rep = replace_range_refines_tree_replacement [OF work_tracks work_incoming index args, of "[NodeRef 1]"]
  then obtain result doc' h' s' where run: "replace_range work_doc [NodeRef 1] (map t_oid [T 3 [T 4 []]]) work_preflight work_heap (?m, 0)
      = Some (result, doc', h', s')" by blast
  note res = rep [unfolded run work_range]
  show ?thesis
  proof (cases result)
    case (Inl e)
    then show ?thesis using res chains ok by auto
  next
    case (Inr r)
    then show ?thesis using res run by (auto simp: list_splice_def)
  qed
qed

end
