(* ===== verification/Move.thy ===== *)
theory Move
  imports Range_Operations
begin

text \<open>
  \<open>tree_engine/core/move.py\<close>: moving a run of siblings within a document or into another one. Every
  write goes through a changelog of undo actions, which a failure of the reference
  reconciliation runs in reverse.

  The documents are addressed by a handle, as source and target may be the same document. The
  lock coordinator and the reconciliation of references are parameters: the first may refuse,
  the second changes the world and may raise.
\<close>

section \<open>The world and its changelog\<close>

record world =
  w_docs :: "nat \<Rightarrow> tree_document"
  w_heap :: heap

text \<open>An attribute of a live node together with a value for it.\<close>

datatype node_attribute =
    Children "oid list" | Parent "oid option" | BufferRange "(int \<times> int) option" | ShortId "int option"

fun assign :: "node_attribute \<Rightarrow> live_node \<Rightarrow> live_node" where
  "assign (Children cs) n = n\<lparr>ln_children := cs\<rparr>"
| "assign (Parent p) n = n\<lparr>ln_parent := p\<rparr>"
| "assign (BufferRange r) n = n\<lparr>ln_buffer_range := r\<rparr>"
| "assign (ShortId i) n = n\<lparr>ln_short_id := i\<rparr>"

fun current :: "node_attribute \<Rightarrow> live_node \<Rightarrow> node_attribute" where
  "current (Children _) n = Children (ln_children n)"
| "current (Parent _) n = Parent (ln_parent n)"
| "current (BufferRange _) n = BufferRange (ln_buffer_range n)"
| "current (ShortId _) n = ShortId (ln_short_id n)"

datatype undo = Restore oid node_attribute | RestoreNode nat uuid "oid option" | RestoreIndex nat int "uuid option"

text \<open>The log, latest entry first.\<close>

type_synonym logged = "world \<times> undo list"

definition on_doc :: "nat \<Rightarrow> (tree_document \<Rightarrow> tree_document) \<Rightarrow> world \<Rightarrow> world" where
  "on_doc d f w = w\<lparr>w_docs := (w_docs w)(d := f (w_docs w d))\<rparr>"

definition restore_key :: "'k \<Rightarrow> 'v option \<Rightarrow> ('k, 'v) pydict \<Rightarrow> ('k, 'v) pydict" where
  "restore_key k old m = (case old of Some v \<Rightarrow> dict_set k v m | None \<Rightarrow> dict_del k m)"

definition log_setattr :: "oid \<Rightarrow> node_attribute \<Rightarrow> logged \<Rightarrow> logged" where
  "log_setattr x v = (\<lambda>(w, log).
     (w\<lparr>w_heap := put x (assign v (obj (w_heap w) x)) (w_heap w)\<rparr>,
      Restore x (current v (obj (w_heap w) x)) # log))"

definition log_node_set :: "nat \<Rightarrow> uuid \<Rightarrow> oid \<Rightarrow> logged \<Rightarrow> logged" where
  "log_node_set d u x = (\<lambda>(w, log).
     (on_doc d (\<lambda>doc. doc\<lparr>td_nodes_by_id := dict_set u x (td_nodes_by_id doc)\<rparr>) w,
      RestoreNode d u (dict_get (td_nodes_by_id (w_docs w d)) u) # log))"

definition log_index_set :: "nat \<Rightarrow> int \<Rightarrow> uuid \<Rightarrow> logged \<Rightarrow> logged" where
  "log_index_set d i u = (\<lambda>(w, log).
     (on_doc d (\<lambda>doc. doc\<lparr>td_short_id_index := dict_set i u (td_short_id_index doc)\<rparr>) w,
      RestoreIndex d i (dict_get (td_short_id_index (w_docs w d)) i) # log))"

definition log_node_pop :: "nat \<Rightarrow> uuid \<Rightarrow> logged \<Rightarrow> logged" where
  "log_node_pop d u = (\<lambda>(w, log).
     case dict_get (td_nodes_by_id (w_docs w d)) u of
       None \<Rightarrow> (w, log)
     | Some x \<Rightarrow> (on_doc d (\<lambda>doc. doc\<lparr>td_nodes_by_id := dict_del u (td_nodes_by_id doc)\<rparr>) w, RestoreNode d u (Some x) # log))"

definition log_index_pop :: "nat \<Rightarrow> int \<Rightarrow> logged \<Rightarrow> logged" where
  "log_index_pop d i = (\<lambda>(w, log).
     case dict_get (td_short_id_index (w_docs w d)) i of
       None \<Rightarrow> (w, log)
     | Some u \<Rightarrow> (on_doc d (\<lambda>doc. doc\<lparr>td_short_id_index := dict_del i (td_short_id_index doc)\<rparr>) w, RestoreIndex d i (Some u) # log))"

fun run_undo :: "undo \<Rightarrow> world \<Rightarrow> world" where
  "run_undo (Restore x v) w = w\<lparr>w_heap := put x (assign v (obj (w_heap w) x)) (w_heap w)\<rparr>"
| "run_undo (RestoreNode d u old) w =
     on_doc d (\<lambda>doc. doc\<lparr>td_nodes_by_id := restore_key u old (td_nodes_by_id doc)\<rparr>) w"
| "run_undo (RestoreIndex d i old) w =
     on_doc d (\<lambda>doc. doc\<lparr>td_short_id_index := restore_key i old (td_short_id_index doc)\<rparr>) w"

definition roll_back :: "logged \<Rightarrow> world" where
  "roll_back = (\<lambda>(w, log). fold run_undo log w)"

section \<open>Resolving the arguments\<close>

text \<open>\<open>move._resolve\<close>, which takes no text.\<close>

definition resolve_moved :: "tree_document \<Rightarrow> heap \<Rightarrow> node_ref \<Rightarrow> oid option" where
  "resolve_moved doc h r =
     (case r of
        NodeRef x \<Rightarrow> if dict_get (td_nodes_by_id doc) (ln_node_id (obj h x)) = Some x then Some x else None
      | UuidRef u \<Rightarrow> dict_get (td_nodes_by_id doc) u
      | TextRef _ \<Rightarrow> None
      | ShortRef i \<Rightarrow> (case dict_get (td_short_id_index doc) i of
            Some u \<Rightarrow> dict_get (td_nodes_by_id doc) u
          | None \<Rightarrow> node_with_short_id doc h i))"

definition resolve_source_range ::
  "tree_document \<Rightarrow> heap \<Rightarrow> node_ref list \<Rightarrow> error_code + (oid list \<times> oid \<times> nat \<times> nat)" where
  "resolve_source_range doc h = contiguous_range (resolve_moved doc h) h"

definition resolve_target_position ::
  "tree_document \<Rightarrow> heap \<Rightarrow> string \<Rightarrow> node_ref option \<Rightarrow> node_ref option \<Rightarrow> index_argument \<Rightarrow> error_code + (oid \<times> nat)" where
  "resolve_target_position doc h = attach_point (resolve_moved doc h) h"

section \<open>Detaching and attaching\<close>

text \<open>\<open>_shift\<close> over a list of roots.\<close>

partial_function (option) shift_logged :: "int \<Rightarrow> oid list \<Rightarrow> logged \<Rightarrow> logged option" where
  "shift_logged delta os s =
     (case os of
        [] \<Rightarrow> Some s
      | x # rest \<Rightarrow>
          (let s = (case ln_buffer_range (obj (w_heap (fst s)) x) of
                      None \<Rightarrow> s
                    | Some (a, b) \<Rightarrow> log_setattr x (BufferRange (Some (a + delta, b + delta))) s)
           in Option.bind (shift_logged delta (ln_children (obj (w_heap (fst s)) x)) s) (shift_logged delta rest)))"

definition unregister_logged :: "nat \<Rightarrow> oid \<Rightarrow> logged \<Rightarrow> logged" where
  "unregister_logged d x s =
     (let n = obj (w_heap (fst s)) x; s = log_node_pop d (ln_node_id n) s
      in (case ln_short_id n of None \<Rightarrow> s | Some i \<Rightarrow> log_index_pop d i s))"

fun detach_roots :: "nat \<Rightarrow> oid list \<Rightarrow> logged \<Rightarrow> logged option" where
  "detach_roots d [] s = Some s"
| "detach_roots d (r # rs) s =
     Option.bind (fragment_nodes (w_heap (fst s)) r) (\<lambda>nodes.
       detach_roots d rs (log_setattr r (Parent None) (fold (unregister_logged d) nodes s)))"

definition detach :: "nat \<Rightarrow> oid list \<Rightarrow> oid \<Rightarrow> nat \<Rightarrow> nat \<Rightarrow> logged \<Rightarrow> logged option" where
  "detach d resolved p start stop s =
     (let siblings = ln_children (obj (w_heap (fst s)) p);
          s = log_setattr p (Children (take start siblings @ drop stop siblings)) s;
          removed_length = range_byte_length (w_heap (fst s)) resolved;
          shrunk = (case ln_buffer_range (obj (w_heap (fst s)) p) of
                      None \<Rightarrow> s
                    | Some (a, b) \<Rightarrow> log_setattr p (BufferRange (Some (a, b - removed_length))) s)
      in Option.bind
           (if removed_length \<noteq> 0 then shift_logged (- removed_length) (drop stop siblings) shrunk else Some s)
           (detach_roots d resolved))"

definition register_logged :: "nat \<Rightarrow> oid \<Rightarrow> logged \<Rightarrow> logged" where
  "register_logged d x s =
     (let n = obj (w_heap (fst s)) x; s = log_node_set d (ln_node_id n) x s
      in (case ln_short_id n of None \<Rightarrow> s | Some i \<Rightarrow> log_index_set d i (ln_node_id n) s))"

fun attach_roots :: "nat \<Rightarrow> oid \<Rightarrow> oid list \<Rightarrow> logged \<Rightarrow> logged option" where
  "attach_roots d p [] s = Some s"
| "attach_roots d p (r # rs) s =
     (let s = log_setattr r (Parent (Some p)) s
      in Option.bind (fragment_nodes (w_heap (fst s)) r) (\<lambda>nodes.
           attach_roots d p rs (fold (register_logged d) nodes s)))"

definition attach :: "nat \<Rightarrow> oid \<Rightarrow> nat \<Rightarrow> oid list \<Rightarrow> logged \<Rightarrow> logged option" where
  "attach d p splice_index roots s =
     (let siblings = ln_children (obj (w_heap (fst s)) p)
      in attach_roots d p roots
           (log_setattr p (Children (take splice_index siblings @ roots @ drop splice_index siblings)) s))"

definition plan_logged :: "oid list \<Rightarrow> short_id_reassignment list \<Rightarrow> logged \<Rightarrow> logged" where
  "plan_logged nodes plan s =
     (let by_id = fold (\<lambda>x d. dict_set (ln_node_id (obj (w_heap (fst s)) x)) x d) nodes []
      in fold (\<lambda>entry s. case dict_get by_id (sr_node_id entry) of
                 None \<Rightarrow> s
               | Some x \<Rightarrow> log_setattr x (ShortId (sr_new_short_id entry)) s) plan s)"

section \<open>The operation\<close>

datatype 'x move_failure =
    MoveError "validation_error list" | MoveAllocatorRaised short_id_error | LockRefused | ReconcileRaised 'x

record 'delta move_result =
  mv_node_id :: uuid
  mv_short_id :: "int option"
  mv_position :: nat
  mv_remap :: "short_id_reassignment list"
  mv_removed :: "node_address list"
  mv_inserted :: "node_address list"
  mv_reference_delta :: "'delta option"

text \<open>The target as the preflight sees it: without the entries of the moved objects.\<close>

definition preflight_shim :: "tree_document \<Rightarrow> oid list \<Rightarrow> tree_document" where
  "preflight_shim doc moved = doc\<lparr>td_nodes_by_id := filter (\<lambda>(_, x). x \<notin> set moved) (td_nodes_by_id doc)\<rparr>"

definition move_rejection :: "error_code \<Rightarrow> 'x move_failure" where
  "move_rejection c = MoveError [\<lparr>ve_code = c, ve_node_id = None\<rparr>]"

record ('s, 'x, 'delta) move_hooks =
  mh_preflight :: "'s preflight"
  mh_lock :: "(uuid list \<Rightarrow> bool) option"
  mh_reconcile :: "(oid list \<Rightarrow> short_id_reassignment list \<Rightarrow> world \<Rightarrow> ('x + 'delta) \<times> world) option"

definition relocate ::
  "nat \<Rightarrow> nat \<Rightarrow> oid list \<Rightarrow> oid \<Rightarrow> nat \<Rightarrow> nat \<Rightarrow> oid \<Rightarrow> nat \<Rightarrow> oid list \<Rightarrow> short_id_reassignment list \<Rightarrow> world \<Rightarrow>
   logged option" where
  "relocate src tgt resolved src_parent start stop p splice_index nodes plan w =
     Option.bind (detach src resolved src_parent start stop (w, [])) (\<lambda>s.
       attach tgt p splice_index resolved (plan_logged nodes plan s))"

definition move ::
  "nat \<Rightarrow> node_ref list \<Rightarrow> string \<Rightarrow> nat \<Rightarrow> node_ref option \<Rightarrow> node_ref option \<Rightarrow> index_argument \<Rightarrow>
   ('s, 'x, 'delta) move_hooks \<Rightarrow> world \<Rightarrow> 's \<Rightarrow> (('x move_failure + 'delta move_result) \<times> world \<times> 's) option" where
  "move src targets position tgt parent sibling index hooks w s =
     (let h = w_heap w in
      case resolve_source_range (w_docs w src) h targets of
        Inl c \<Rightarrow> Some (Inl (move_rejection c), w, s)
      | Inr (resolved, src_parent, start, stop) \<Rightarrow>
          let doc_ids = sort (remdups [td_document_id (w_docs w src), td_document_id (w_docs w tgt)])
          in if (case mh_lock hooks of None \<Rightarrow> False | Some grants \<Rightarrow> \<not> grants doc_ids) then Some (Inl LockRefused, w, s)
             else (case resolve_target_position (w_docs w tgt) h position parent sibling index of
               Inl c \<Rightarrow> Some (Inl (move_rejection c), w, s)
             | Inr (p, splice_index) \<Rightarrow>
                 Option.bind (fragments_of h resolved) (\<lambda>nodes.
                 Option.bind (preflight_all (preflight_shim (w_docs w tgt) nodes) resolved p position splice_index
                     (mh_preflight hooks) h s) (\<lambda>(outcome, s').
                   case outcome of
                     Inl e \<Rightarrow> Some (Inl (MoveAllocatorRaised e), w, s')
                   | Inr (errors, plan) \<Rightarrow>
                       if errors \<noteq> [] then Some (Inl (MoveError errors), w, s')
                       else map_option (\<lambda>(w1, log).
                         let result = (\<lambda>delta w2. \<lparr>mv_node_id = ln_node_id (obj (w_heap w2) (hd resolved)),
                               mv_short_id = ln_short_id (obj (w_heap w2) (hd resolved)), mv_position = splice_index,
                               mv_remap = plan,
                               mv_removed = map (address_of (w_docs w2 src) (w_heap w2)) resolved,
                               mv_inserted = map (address_of (w_docs w2 tgt) (w_heap w2)) resolved,
                               mv_reference_delta = delta\<rparr>)
                         in (case mh_reconcile hooks of
                               None \<Rightarrow> (Inr (result None w1), w1, s')
                             | Some reconcile \<Rightarrow> (case reconcile resolved plan w1 of
                                   (Inl e, w2) \<Rightarrow> (Inl (ReconcileRaised e), roll_back (w2, log), s')
                                 | (Inr delta, w2) \<Rightarrow> (Inr (result (Some delta) w2), w2, s'))))
                       (relocate src tgt resolved src_parent start stop p splice_index nodes plan w)))))"

section \<open>The changelog restores the world\<close>

text \<open>Two worlds are the same up to the order of the dictionaries.\<close>

definition same_doc :: "tree_document \<Rightarrow> tree_document \<Rightarrow> bool" where
  "same_doc a b \<longleftrightarrow> map_of (td_nodes_by_id a) = map_of (td_nodes_by_id b)
     \<and> map_of (td_short_id_index a) = map_of (td_short_id_index b)
     \<and> a\<lparr>td_nodes_by_id := [], td_short_id_index := []\<rparr> = b\<lparr>td_nodes_by_id := [], td_short_id_index := []\<rparr>"

definition same_world :: "world \<Rightarrow> world \<Rightarrow> bool" where
  "same_world a b \<longleftrightarrow> w_heap a = w_heap b \<and> (\<forall>d. same_doc (w_docs a d) (w_docs b d))"

text \<open>Running the log of \<open>s\<close> leads back to the world \<open>w\<close>.\<close>

definition leads_back :: "world \<Rightarrow> logged \<Rightarrow> bool" where
  "leads_back w s \<longleftrightarrow> same_world (roll_back s) w"

lemma same_world_refl [simp]: "same_world w w"
  by (simp add: same_world_def same_doc_def)

lemma same_world_trans: "same_world a b \<Longrightarrow> same_world b c \<Longrightarrow> same_world a c"
  by (simp add: same_world_def same_doc_def)

lemma restore_key_get: "map_of (restore_key k old m) = (map_of m)(k := old)"
  by (auto simp: restore_key_def fun_eq_iff dict_simps split: option.split)

lemma run_undo_cong: "same_world a b \<Longrightarrow> same_world (run_undo u a) (run_undo u b)"
proof (cases u)
  case (Restore x v)
  assume "same_world a b"
  then show ?thesis unfolding Restore by (cases a; cases b) (simp add: same_world_def)
qed (simp_all add: same_world_def same_doc_def on_doc_def restore_key_get tree_document.defs)

lemma run_log_cong: "same_world a b \<Longrightarrow> same_world (fold run_undo log a) (fold run_undo log b)"
  by (induction log arbitrary: a b) (simp_all add: run_undo_cong)

lemma leads_back_step:
  assumes "leads_back w (w1, log)" and "same_world (run_undo u w2) w1"
  shows "leads_back w (w2, u # log)"
  using assms run_log_cong [OF assms(2), of log] same_world_trans
  by (auto simp: leads_back_def roll_back_def)

lemma assign_current [simp]: "assign (current v n) (assign v n) = n"
  by (cases v) simp_all

lemma put_put [simp]: "put x n (put x m h) = put x n h"
  by (simp add: put_def)

lemma put_same [simp]: "put x (obj h x) h = h"
  by (simp add: put_def)

lemma log_setattr_back: "leads_back w s \<Longrightarrow> leads_back w (log_setattr x v s)"
proof -
  assume s: "leads_back w s"
  obtain w1 log where "s = (w1, log)" by (cases s)
  with s show ?thesis unfolding log_setattr_def by (simp add: leads_back_step)
qed

lemmas world_step_simps = same_world_def same_doc_def on_doc_def restore_key_get dict_simps fun_eq_iff

lemma log_node_set_back: "leads_back w s \<Longrightarrow> leads_back w (log_node_set d u x s)"
proof -
  assume s: "leads_back w s"
  obtain w1 log where s1: "s = (w1, log)" by (cases s)
  have "leads_back w (w1, log)" using s s1 by simp
  then show ?thesis unfolding s1 log_node_set_def prod.case
    by (rule leads_back_step) (simp add: world_step_simps)
qed

lemma log_index_set_back: "leads_back w s \<Longrightarrow> leads_back w (log_index_set d i u s)"
proof -
  assume s: "leads_back w s"
  obtain w1 log where s1: "s = (w1, log)" by (cases s)
  have "leads_back w (w1, log)" using s s1 by simp
  then show ?thesis unfolding s1 log_index_set_def prod.case
    by (rule leads_back_step) (simp add: world_step_simps)
qed

lemma log_node_pop_back: "leads_back w s \<Longrightarrow> leads_back w (log_node_pop d u s)"
proof -
  assume s: "leads_back w s"
  obtain w1 log where s1: "s = (w1, log)" by (cases s)
  have before: "leads_back w (w1, log)" using s s1 by simp
  show ?thesis unfolding s1 log_node_pop_def prod.case
    by (auto simp: world_step_simps intro!: leads_back_step [OF before] before split: option.split)
qed

lemma log_index_pop_back: "leads_back w s \<Longrightarrow> leads_back w (log_index_pop d i s)"
proof -
  assume s: "leads_back w s"
  obtain w1 log where s1: "s = (w1, log)" by (cases s)
  have before: "leads_back w (w1, log)" using s s1 by simp
  show ?thesis unfolding s1 log_index_pop_def prod.case
    by (auto simp: world_step_simps intro!: leads_back_step [OF before] before split: option.split)
qed

lemmas log_back = log_setattr_back log_node_set_back log_index_set_back log_node_pop_back log_index_pop_back

lemma fold_back: "(\<And>x s. leads_back w s \<Longrightarrow> leads_back w (f x s)) \<Longrightarrow> leads_back w s \<Longrightarrow> leads_back w (fold f xs s)"
  by (induction xs arbitrary: s) simp_all

lemma shift_logged_back:
  assumes "shift_logged d os s = Some s'"
  shows "leads_back w s \<longrightarrow> leads_back w s'"
proof (rule shift_logged.raw_induct [where P = "\<lambda>d os s s'. leads_back w s \<longrightarrow> leads_back w s'", OF _ assms])
  fix f d os s s'
  assume IH: "\<And>d os s s'. f d os s = Some s' \<Longrightarrow> leads_back w s \<longrightarrow> leads_back w s'"
    and run: "(case os of [] \<Rightarrow> Some s
      | x # rest \<Rightarrow>
          let s = (case ln_buffer_range (obj (w_heap (fst s)) x) of
                      None \<Rightarrow> s
                    | Some (a, b) \<Rightarrow> log_setattr x (BufferRange (Some (a + d, b + d))) s)
           in Option.bind (f d (ln_children (obj (w_heap (fst s)) x)) s) (f d rest)) = Some s'"
  show "leads_back w s \<longrightarrow> leads_back w s'"
  proof (cases os)
    case (Cons x rest)
    define s1 where "s1 = (case ln_buffer_range (obj (w_heap (fst s)) x) of
                      None \<Rightarrow> s
                    | Some (a, b) \<Rightarrow> log_setattr x (BufferRange (Some (a + d, b + d))) s)"
    have "leads_back w s \<longrightarrow> leads_back w s1" by (auto simp: s1_def log_back split: option.split)
    moreover obtain s2 where "f d (ln_children (obj (w_heap (fst s1)) x)) s1 = Some s2" "f d rest s2 = Some s'"
      using run unfolding Cons list.case Let_def s1_def [symmetric] bind_eq_Some_conv by blast
    then have "leads_back w s1 \<longrightarrow> leads_back w s2" "leads_back w s2 \<longrightarrow> leads_back w s'" by (auto dest: IH)
    ultimately show ?thesis by blast
  qed (use run in simp)
qed

lemma unregister_logged_back: "leads_back w s \<Longrightarrow> leads_back w (unregister_logged d x s)"
  unfolding unregister_logged_def Let_def by (simp add: log_back split: option.split)

lemma register_logged_back: "leads_back w s \<Longrightarrow> leads_back w (register_logged d x s)"
  unfolding register_logged_def Let_def by (simp add: log_back split: option.split)

lemma detach_roots_back: "detach_roots d rs s = Some s' \<Longrightarrow> leads_back w s \<Longrightarrow> leads_back w s'"
proof (induction rs arbitrary: s)
  case (Cons r rs)
  then obtain nodes where "detach_roots d rs (log_setattr r (Parent None) (fold (unregister_logged d) nodes s)) = Some s'"
    by (auto simp: bind_eq_Some_conv)
  then show ?case
    by (rule Cons.IH) (intro log_setattr_back fold_back unregister_logged_back Cons.prems(2))
qed simp

lemma attach_roots_back: "attach_roots d p rs s = Some s' \<Longrightarrow> leads_back w s \<Longrightarrow> leads_back w s'"
proof (induction rs arbitrary: s)
  case (Cons r rs)
  then obtain nodes where "attach_roots d p rs (fold (register_logged d) nodes (log_setattr r (Parent (Some p)) s)) = Some s'"
    by (auto simp: Let_def bind_eq_Some_conv)
  then show ?case
    by (rule Cons.IH) (intro log_setattr_back fold_back register_logged_back Cons.prems(2))
qed simp

lemma plan_logged_back: "leads_back w s \<Longrightarrow> leads_back w (plan_logged nodes plan s)"
  unfolding plan_logged_def Let_def by (rule fold_back) (auto split: option.splits intro: log_back)

lemma detach_back:
  assumes "detach d xs p i j s = Some s'" and "leads_back w s" shows "leads_back w s'"
proof -
  let ?sib = "ln_children (obj (w_heap (fst s)) p)"
  let ?s1 = "log_setattr p (Children (take i ?sib @ drop j ?sib)) s"
  let ?len = "range_byte_length (w_heap (fst ?s1)) xs"
  let ?s2 = "case ln_buffer_range (obj (w_heap (fst ?s1)) p) of None \<Rightarrow> ?s1
    | Some (a, b) \<Rightarrow> log_setattr p (BufferRange (Some (a, b - ?len))) ?s1"
  have s1: "leads_back w ?s1" using assms(2) by (rule log_setattr_back)
  then have s2: "leads_back w ?s2" by (auto split: option.split intro: log_back)
  obtain s3 where s3: "(if ?len \<noteq> 0 then shift_logged (- ?len) (drop j ?sib) ?s2 else Some ?s1) = Some s3"
    "detach_roots d xs s3 = Some s'"
    using assms(1) unfolding detach_def Let_def bind_eq_Some_conv by blast
  have "leads_back w s3"
    using s3(1) s1 s2 shift_logged_back by (auto split: if_splits)
  with s3(2) show ?thesis by (rule detach_roots_back)
qed

lemma relocate_back:
  assumes "relocate src tgt xs sp i j p k nodes plan w = Some s" shows "leads_back w s"
proof -
  obtain s1 where s1: "detach src xs sp i j (w, []) = Some s1" "attach tgt p k xs (plan_logged nodes plan s1) = Some s"
    using assms by (auto simp: relocate_def bind_eq_Some_conv)
  have "leads_back w (w, [])" by (simp add: leads_back_def roll_back_def)
  then have "leads_back w (plan_logged nodes plan s1)" by (intro plan_logged_back detach_back [OF s1(1)])
  then show ?thesis
    by (intro attach_roots_back [OF s1(2) [unfolded attach_def Let_def]] log_setattr_back)
qed

text \<open>How a move can end in an error.\<close>

lemma move_error_cases:
  assumes "move src targets position tgt parent sibling index hooks w s = Some (Inl e, w', s')"
  shows "w' = w \<or> (\<exists>xs sp i j p k nodes plan w1 log w2 reconcile x.
      relocate src tgt xs sp i j p k nodes plan w = Some (w1, log) \<and> mh_reconcile hooks = Some reconcile
      \<and> reconcile xs plan w1 = (Inl x, w2) \<and> w' = roll_back (w2, log))"
proof (cases "resolve_source_range (w_docs w src) (w_heap w) targets")
  case (Inl c)
  then show ?thesis using assms by (simp add: move_def)
next
  case (Inr q)
  obtain xs sp i j where q: "q = (xs, sp, i, j)" by (cases q)
  let ?ids = "sort (remdups [td_document_id (w_docs w src), td_document_id (w_docs w tgt)])"
  show ?thesis
  proof (cases "case mh_lock hooks of None \<Rightarrow> False | Some grants \<Rightarrow> \<not> grants ?ids")
    case True
    then show ?thesis using assms by (simp only: move_def Inr q Let_def sum.case prod.case if_True) simp
  next
    case no_refusal: False
    show ?thesis
    proof (cases "resolve_target_position (w_docs w tgt) (w_heap w) position parent sibling index")
      case (Inl c)
      then show ?thesis using assms no_refusal by (simp only: move_def Inr q Let_def sum.case prod.case if_False) simp
    next
      case target: (Inr r)
      obtain p k where r: "r = (p, k)" by (cases r)
      obtain nodes outcome s1 where pre: "fragments_of (w_heap w) xs = Some nodes"
        "preflight_all (preflight_shim (w_docs w tgt) nodes) xs p position k (mh_preflight hooks) (w_heap w) s = Some (outcome, s1)"
        using assms no_refusal
        by (simp only: move_def Inr q target r Let_def sum.case prod.case if_False bind_eq_Some_conv) auto
      note run = assms [unfolded move_def Let_def Inr q target r sum.case prod.case pre bind.bind_lunit]
      show ?thesis
      proof (cases outcome)
        case (Inl e)
        then show ?thesis using run no_refusal by simp
      next
        case (Inr o')
        obtain errors plan where o': "o' = (errors, plan)" by (cases o')
        show ?thesis
        proof (cases "errors = [] \<and> relocate src tgt xs sp i j p k nodes plan w \<noteq> None")
          case True
          then obtain w1 log where reloc: "relocate src tgt xs sp i j p k nodes plan w = Some (w1, log)" by auto
          show ?thesis
          proof (cases "mh_reconcile hooks")
            case None
            then show ?thesis using run no_refusal Inr o' True reloc by simp
          next
            case (Some reconcile)
            obtain a w2 where "reconcile xs plan w1 = (a, w2)" by (cases "reconcile xs plan w1")
            then have "\<exists>x. a = Inl x \<and> w' = roll_back (w2, log)"
              using run no_refusal Inr o' True reloc Some by (cases a) auto
            then show ?thesis using reloc Some \<open>reconcile xs plan w1 = (a, w2)\<close> by blast
          qed
        next
          case False
          then show ?thesis using run no_refusal Inr o' by (cases "errors = []") auto
        qed
      qed
    qed
  qed
qed


section \<open>The logged writes are the plain ones\<close>

lemma dict_del_absent: "dict_get d k = None \<Longrightarrow> dict_del k d = d"
  by (induction d) (auto split: if_splits)

definition with_doc :: "nat \<Rightarrow> tree_document \<Rightarrow> heap \<Rightarrow> world \<Rightarrow> world" where
  "with_doc d doc h w = w\<lparr>w_docs := (w_docs w)(d := doc), w_heap := h\<rparr>"

lemma with_doc_simps [simp]:
  "w_docs (with_doc d doc h w) = (w_docs w)(d := doc)" "w_heap (with_doc d doc h w) = h"
  "with_doc d doc h (with_doc d doc' h' w) = with_doc d doc h w" "with_doc d (w_docs w d) (w_heap w) w = w"
  "with_doc d doc h (w\<lparr>w_heap := h'\<rparr>) = with_doc d doc h w"
  "(with_doc d doc h w)\<lparr>w_heap := h'\<rparr> = with_doc d doc h' w"
  "on_doc d f w = with_doc d (f (w_docs w d)) (w_heap w) w"
  by (simp_all add: with_doc_def on_doc_def)

lemma shift_sim:
  "list_all (shaped (w_heap w)) ts \<Longrightarrow>
   \<exists>w' log'. shift_logged delta (map t_oid ts) (w, log) = Some (w', log') \<and> w_docs w' = w_docs w
     \<and> shift_subtrees delta (map t_oid ts) (w_heap w) = Some (w_heap w')
     \<and> (\<forall>x. ln_children (obj (w_heap w') x) = ln_children (obj (w_heap w) x))"
proof (induction ts arbitrary: w log rule: forest_induct)
  case Nil
  then show ?case by (subst shift_logged.simps, subst shift_subtrees.simps) simp
next
  case (Cons x ts us)
  let ?n = "obj (w_heap w) x"
  let ?s = "case ln_buffer_range ?n of None \<Rightarrow> (w, log)
    | Some (a, b) \<Rightarrow> log_setattr x (BufferRange (Some (a + delta, b + delta))) (w, log)"
  define w1 where "w1 = w\<lparr>w_heap := put x (shift_node delta ?n) (w_heap w)\<rparr>"
  obtain log1 where s1: "?s = (w1, log1)"
    by (cases "ln_buffer_range ?n") (auto simp: w1_def log_setattr_def shift_node_def)
  have sub: "list_all (shaped (w_heap w)) ts" "list_all (shaped (w_heap w)) us" "ln_children ?n = map t_oid ts"
    using Cons.prems by simp_all
  have keep1: "ln_children (obj (w_heap w1) y) = ln_children (obj (w_heap w) y)" for y by (simp add: w1_def)
  have "list_all (shaped (w_heap w1)) ts" by (rule shaped_cong [OF sub(1)]) (rule keep1)
  from Cons.IH(1) [OF this, of log1] obtain w2 log2 where w2: "shift_logged delta (map t_oid ts) (w1, log1) = Some (w2, log2)"
    "w_docs w2 = w_docs w1" "shift_subtrees delta (map t_oid ts) (w_heap w1) = Some (w_heap w2)"
    "\<And>y. ln_children (obj (w_heap w2) y) = ln_children (obj (w_heap w1) y)" by blast
  have "list_all (shaped (w_heap w2)) us" by (rule shaped_cong [OF sub(2)]) (simp add: w2(4) keep1)
  from Cons.IH(2) [OF this, of log2] obtain w3 log3 where w3: "shift_logged delta (map t_oid us) (w2, log2) = Some (w3, log3)"
    "w_docs w3 = w_docs w2" "shift_subtrees delta (map t_oid us) (w_heap w2) = Some (w_heap w3)"
    "\<And>y. ln_children (obj (w_heap w3) y) = ln_children (obj (w_heap w2) y)" by blast
  have "shift_logged delta (map t_oid (T x ts # us)) (w, log) = Some (w3, log3)"
    using s1 sub(3) w2(1) w3(1) keep1 [of x] by (subst shift_logged.simps) (simp add: Let_def)
  moreover have "shift_subtrees delta (map t_oid (T x ts # us)) (w_heap w) = Some (w_heap w3)"
    using sub(3) w2(3) w3(3) by (subst shift_subtrees.simps) (simp add: w1_def)
  ultimately show ?case using w2(2,4) w3(2,4) keep1 by (auto simp: w1_def)
qed

lemma unregister_sim:
  "\<exists>log'. unregister_logged d x (w, log) = (with_doc d (unregister_node (w_heap w) x (w_docs w d)) (w_heap w) w, log')"
proof -
  let ?n = "obj (w_heap w) x" let ?doc = "w_docs w d"
  let ?nodes = "dict_del (ln_node_id ?n) (td_nodes_by_id ?doc)"
  obtain log1 where one: "log_node_pop d (ln_node_id ?n) (w, log) = (with_doc d (?doc\<lparr>td_nodes_by_id := ?nodes\<rparr>) (w_heap w) w, log1)"
    by (cases "dict_get (td_nodes_by_id ?doc) (ln_node_id ?n)") (auto simp: log_node_pop_def dict_del_absent)
  show ?thesis
  proof (cases "ln_short_id ?n")
    case None
    then show ?thesis by (simp add: unregister_logged_def one unregister_node_def)
  next
    case (Some i)
    then show ?thesis
      by (cases "dict_get (td_short_id_index ?doc) i")
        (auto simp: unregister_logged_def one unregister_node_def log_index_pop_def dict_del_absent)
  qed
qed

lemma unregister_fold_sim:
  "\<exists>log'. fold (unregister_logged d) ns (w, log)
     = (with_doc d (fold (unregister_node (w_heap w)) ns (w_docs w d)) (w_heap w) w, log')"
proof (induction ns arbitrary: w log)
  case (Cons x ns)
  let ?w = "with_doc d (unregister_node (w_heap w) x (w_docs w d)) (w_heap w) w"
  obtain log1 where one: "unregister_logged d x (w, log) = (?w, log1)" using unregister_sim by blast
  from Cons.IH [of ?w log1] show ?case by (auto simp: one)
qed simp

lemma detach_roots_sim:
  "unregister_all rs (w_docs w d, w_heap w) = Some (doc', h') \<Longrightarrow>
   \<exists>log'. detach_roots d rs (w, log) = Some (with_doc d doc' h' w, log')"
proof (induction rs arbitrary: w log)
  case Nil
  then have "doc' = w_docs w d" "h' = w_heap w" by simp_all
  then show ?case by simp
next
  case (Cons r rs)
  from Cons.prems obtain nodes where nodes: "fragment_nodes (w_heap w) r = Some nodes"
    and rest: "unregister_all rs (fold (unregister_node (w_heap w)) nodes (w_docs w d), set_parent None r (w_heap w)) = Some (doc', h')"
    by (auto simp: unregister_subtree_def bind_eq_Some_conv)
  obtain log1 where log1: "fold (unregister_logged d) nodes (w, log)
     = (with_doc d (fold (unregister_node (w_heap w)) nodes (w_docs w d)) (w_heap w) w, log1)"
    using unregister_fold_sim by blast
  let ?w = "with_doc d (fold (unregister_node (w_heap w)) nodes (w_docs w d)) (set_parent None r (w_heap w)) w"
  have "log_setattr r (Parent None) (fold (unregister_logged d) nodes (w, log))
      = (?w, Restore r (Parent (ln_parent (obj (w_heap w) r))) # log1)"
    by (simp add: log1 log_setattr_def set_parent_def)
  then show ?case using Cons.IH [of ?w "Restore r (Parent (ln_parent (obj (w_heap w) r))) # log1"] rest nodes by simp
qed

text \<open>Detaching is removal of the range.\<close>

lemma detach_sim:
  assumes "tracks (w_docs w d) (w_heap w) t" and "p \<in> set (oids t)" and "i < j" and "j \<le> length (subs_of p t)"
    and "xs = map t_oid (list_slice i j (subs_of p t))"
    and "remove_range xs p i j (w_docs w d) (w_heap w) = Some (doc', h')"
  shows "\<exists>log'. detach d xs p i j (w, log) = Some (with_doc d doc' h' w, log')"
proof -
  let ?h = "w_heap w" let ?subs = "subs_of p t"
  have le: "i \<le> j" using assms(3) by simp
  note parts = range_parts [OF assms(1,2) le assms(4)] and kids = tracked_children(1) [OF assms(1,2)]
  let ?rem = "take i (ln_children (obj ?h p)) @ drop j (ln_children (obj ?h p))"
  define h1 where "h1 = set_children p ?rem ?h"
  define len where "len = range_byte_length ?h xs"
  have len1: "range_byte_length h1 xs = len" by (simp add: len_def h1_def range_byte_length_def)
  have rest: "drop i ?rem = map t_oid (drop j ?subs)" "drop j (ln_children (obj ?h p)) = map t_oid (drop j ?subs)"
    using assms(3,4) by (simp_all add: kids drop_map min_def)
  obtain log1 where step1: "log_setattr p (Children ?rem) (w, log) = (w\<lparr>w_heap := h1\<rparr>, log1)"
    by (simp add: log_setattr_def h1_def set_children_def)
  obtain h2 where h2: "(if len \<noteq> 0 then shift_subtrees (- len) (map t_oid (drop j ?subs)) (shrink_range p len h1) else Some h1) = Some h2"
    "unregister_all xs (w_docs w d, h2) = Some (doc', h')"
    using assms(6) unfolding remove_range_def Let_def len_def [symmetric] h1_def [symmetric] rest(1) bind_eq_Some_conv by blast
  obtain log2 where shrunk: "(case ln_buffer_range (obj h1 p) of None \<Rightarrow> (w\<lparr>w_heap := h1\<rparr>, log1)
      | Some (a, b) \<Rightarrow> log_setattr p (BufferRange (Some (a, b - len))) (w\<lparr>w_heap := h1\<rparr>, log1)) = (w\<lparr>w_heap := shrink_range p len h1\<rparr>, log2)"
    by (cases "ln_buffer_range (obj h1 p)") (auto simp: log_setattr_def shrink_range_def)
  have "list_all (shaped (shrink_range p len h1)) (drop j ?subs)"
  proof (rule shaped_cong [OF parts(1)])
    fix x assume "x \<in> set (forest_oids (drop j ?subs))"
    then have "x \<noteq> p" using parts(5) by blast
    then show "ln_children (obj (shrink_range p len h1) x) = ln_children (obj ?h x)"
      by (auto simp: shrink_range_def h1_def split: option.split)
  qed
  then obtain w2 log3 where w2: "shift_logged (- len) (map t_oid (drop j ?subs)) (w\<lparr>w_heap := shrink_range p len h1\<rparr>, log2) = Some (w2, log3)"
    "w_docs w2 = w_docs w" "shift_subtrees (- len) (map t_oid (drop j ?subs)) (shrink_range p len h1) = Some (w_heap w2)"
    using shift_sim [of "w\<lparr>w_heap := shrink_range p len h1\<rparr>" "drop j ?subs" "- len" log2] by auto
  define log4 where "log4 = (if len \<noteq> 0 then log3 else log1)"
  have w2eq: "w2 = w\<lparr>w_heap := w_heap w2\<rparr>" using w2(2) by (cases w2; cases w) simp
  have mid: "(if len \<noteq> 0 then shift_logged (- len) (map t_oid (drop j ?subs)) (w\<lparr>w_heap := shrink_range p len h1\<rparr>, log2)
      else Some (w\<lparr>w_heap := h1\<rparr>, log1)) = Some (w\<lparr>w_heap := h2\<rparr>, log4)"
    using h2(1) w2(1,3) w2eq by (auto simp: log4_def split: if_splits)
  have heap1: "w_heap (w\<lparr>w_heap := h1\<rparr>) = h1" by simp
  obtain log5 where "detach_roots d xs (w\<lparr>w_heap := h2\<rparr>, log4) = Some (with_doc d doc' h' w, log5)"
    using detach_roots_sim [of xs "w\<lparr>w_heap := h2\<rparr>" d doc' h' log4] h2(2) by auto
  then have "detach d xs p i j (w, log) = Some (with_doc d doc' h' w, log5)"
    unfolding detach_def Let_def fst_conv step1
    by (simp only: heap1 len1 shrunk rest(2) mid bind.bind_lunit)
  then show ?thesis ..
qed

lemma register_sim:
  "\<exists>log'. register_logged d x (w, log) = (with_doc d (register_node (w_heap w) x (w_docs w d)) (w_heap w) w, log')"
  by (cases "ln_short_id (obj (w_heap w) x)")
    (auto simp: register_logged_def register_node_def log_node_set_def log_index_set_def Let_def)

lemma register_fold_sim:
  "\<exists>log'. fold (register_logged d) ns (w, log)
     = (with_doc d (register_fragment (w_heap w) ns (w_docs w d)) (w_heap w) w, log')"
proof (induction ns arbitrary: w log)
  case (Cons x ns)
  let ?w = "with_doc d (register_node (w_heap w) x (w_docs w d)) (w_heap w) w"
  obtain log1 where one: "register_logged d x (w, log) = (?w, log1)" using register_sim by blast
  from Cons.IH [of ?w log1] show ?case by (auto simp: one register_fragment_def)
qed (simp add: register_fragment_def)

text \<open>The tables depend on the ids and short ids of the objects only.\<close>

lemma register_fragment_cong:
  assumes "\<And>x. ln_node_id (obj h' x) = ln_node_id (obj h x)" and "\<And>x. ln_short_id (obj h' x) = ln_short_id (obj h x)"
  shows "register_fragment h' ns doc = register_fragment h ns doc"
proof -
  have "register_node h' = register_node h" by (simp add: fun_eq_iff register_node_def assms)
  then show ?thesis by (simp add: register_fragment_def)
qed

lemma attach_roots_sim:
  "list_all (shaped (w_heap w)) rs \<Longrightarrow>
   \<exists>log'. attach_roots d p (map t_oid rs) (w, log)
     = Some (with_doc d (register_fragment (w_heap w) (forest_oids rs) (w_docs w d))
         (fold (set_parent (Some p)) (map t_oid rs) (w_heap w)) w, log')"
proof (induction rs arbitrary: w log)
  case (Cons r rs)
  let ?h = "set_parent (Some p) (t_oid r) (w_heap w)"
  have sh: "list_all (shaped ?h) (r # rs)" by (rule shaped_cong [OF Cons.prems]) simp
  then have nodes: "fragment_nodes ?h (t_oid r) = Some (oids r)" by (simp add: fragment_nodes_tree)
  let ?doc = "register_fragment (w_heap w) (oids r) (w_docs w d)"
  have set: "log_setattr (t_oid r) (Parent (Some p)) (w, log)
      = (w\<lparr>w_heap := ?h\<rparr>, Restore (t_oid r) (Parent (ln_parent (obj (w_heap w) (t_oid r)))) # log)"
    by (simp add: log_setattr_def set_parent_def)
  have reg: "register_fragment ?h ns = register_fragment (w_heap w) ns" for ns
    by (rule ext, rule register_fragment_cong) simp_all
  obtain log1 where log1: "fold (register_logged d) (oids r)
      (w\<lparr>w_heap := ?h\<rparr>, Restore (t_oid r) (Parent (ln_parent (obj (w_heap w) (t_oid r)))) # log) = (with_doc d ?doc ?h w, log1)"
    using register_fold_sim [of d "oids r" "w\<lparr>w_heap := ?h\<rparr>"] by (auto simp: reg)
  have app: "register_fragment h (xs @ ys) doc = register_fragment h ys (register_fragment h xs doc)" for h xs ys doc
    by (simp add: register_fragment_def)
  from Cons.IH [of "with_doc d ?doc ?h w" log1] sh show ?case
    by (auto simp: set nodes log1 reg app)
qed (simp add: register_fragment_def)

lemma attach_sim:
  fixes k :: nat
  assumes "list_all (shaped (w_heap w)) rs" and "p \<notin> set (forest_oids rs)"
  defines "siblings \<equiv> ln_children (obj (w_heap w) p)"
  defines "h1 \<equiv> set_children p (take k siblings @ map t_oid rs @ drop k siblings) (w_heap w)"
  shows "\<exists>log'. attach d p k (map t_oid rs) (w, log)
    = Some (with_doc d (register_fragment h1 (forest_oids rs) (w_docs w d)) (fold (set_parent (Some p)) (map t_oid rs) h1) w, log')"
proof -
  have sh: "list_all (shaped h1) rs"
    by (rule shaped_cong [OF assms(1)]) (use assms(2) in \<open>auto simp: h1_def\<close>)
  have set: "log_setattr p (Children (take k siblings @ map t_oid rs @ drop k siblings)) (w, log)
      = (w\<lparr>w_heap := h1\<rparr>, Restore p (Children siblings) # log)"
    by (simp add: log_setattr_def h1_def set_children_def siblings_def)
  show ?thesis
    using attach_roots_sim [of "w\<lparr>w_heap := h1\<rparr>" rs d p] sh
    by (simp add: attach_def Let_def siblings_def [symmetric] set)
qed

text \<open>Attaching trees to a tree.\<close>

lemma graft_tracks:
  assumes "tracks doc h t" and "p \<in> set (oids t)" and "k \<le> length (subs_of p t)"
    and "list_all (\<lambda>r. \<exists>q. linked h q r) rs" and "distinct (forest_oids rs)"
    and "set (forest_oids rs) \<inter> set (oids t) = {}" and "separate h (set (oids t) \<union> set (forest_oids rs))"
  defines "siblings \<equiv> ln_children (obj h p)"
  defines "h1 \<equiv> set_children p (take k siblings @ map t_oid rs @ drop k siblings) h"
  shows "tracks (register_fragment h1 (forest_oids rs) doc) (fold (set_parent (Some p)) (map t_oid rs) h1) (splice_tree p k k rs t)"
proof -
  let ?h = "fold (set_parent (Some p)) (map t_oid rs) h1" let ?S = "set (oids t)" let ?N = "set (forest_oids rs)"
  have roots: "t_oid ` set rs \<subseteq> ?N" by (rule roots_in_forest)
  have obj: "ln_node_id (obj ?h x) = ln_node_id (obj h x)" "ln_short_id (obj ?h x) = ln_short_id (obj h x)"
    "ln_children (obj ?h x) = (if x = p then map t_oid (list_splice k k rs (subs_of p t)) else ln_children (obj h x))"
    "ln_parent (obj ?h x) = (if x \<in> t_oid ` set rs then Some p else ln_parent (obj h x))" for x
    by (simp_all add: fold_set_parent h1_def siblings_def tracked_children(1) [OF assms(1,2)] list_splice_def take_map drop_map)
  have reg: "register_fragment h1 ns doc' = register_fragment ?h ns doc'" for ns doc'
    by (rule register_fragment_cong) (simp_all add: fold_set_parent h1_def)
  have tab: "table_ok doc ?h ?S" by (rule table_ok_cong [OF tracksD(4) [OF assms(1)]]) (simp add: obj)
  have "separate ?h (?S \<union> ?N)" using assms(7) unfolding separate_def obj .
  then have tab': "table_ok (register_fragment ?h (forest_oids rs) doc) ?h (?S \<union> ?N)" by (rule register_fragment_ok [OF tab])
  show ?thesis unfolding reg
  proof (rule splice_tracks [OF assms(1,2) order.refl assms(3,5,6)])
    show "list_all (linked ?h (Some p)) rs"
    proof (rule linked_new_parents [OF assms(4,5)])
      fix x assume "x \<in> ?N"
      then have "x \<noteq> p" using assms(2,6) by blast
      then show "ln_children (obj ?h x) = ln_children (obj h x) \<and> ln_parent (obj ?h x) = (if x \<in> t_oid ` set rs then Some p else ln_parent (obj h x))"
        by (simp add: obj)
    qed
    fix x assume "x \<in> ?S - set (forest_oids (list_slice k k (subs_of p t)))"
    then have "x \<notin> t_oid ` set rs" using roots assms(6) by blast
    then show "ln_parent (obj ?h x) = ln_parent (obj h x)
        \<and> ln_children (obj ?h x) = (if x = p then map t_oid (list_splice k k rs (subs_of p t)) else ln_children (obj h x))"
      by (simp add: obj)
  qed (use tab' in \<open>simp_all add: list_slice_def\<close>)
qed

section \<open>A move within a document\<close>

lemma resolve_moved_in: "table_ok doc h S \<Longrightarrow> resolve_moved doc h r = Some x \<Longrightarrow> x \<in> S"
  by (auto simp: resolve_moved_def table_ok_get dest: node_with_short_id_in
      split: if_splits option.splits node_ref.splits)

lemma source_range_in:
  assumes "tracks doc h t" and "resolve_source_range doc h refs = Inr (xs, p, i, j)"
  shows "p \<in> set (oids t)" and "i < j" and "j \<le> length (subs_of p t)"
    and "xs = map t_oid (list_slice i j (subs_of p t))" and "xs \<noteq> []"
  using contiguous_in [OF assms(1) resolve_moved_in [OF tracksD(4) [OF assms(1)]] assms(2) [unfolded resolve_source_range_def]]
  by simp_all

text \<open>A fragment whose nodes keep their short ids asks for no plan.\<close>

lemma plan_loop_keeps: "(\<And>x. x \<in> set ns \<Longrightarrow> ln_short_id (obj h x) \<noteq> None) \<Longrightarrow> plan_loop h [] f ns s = (Inr [], s)"
  by (induction ns) (simp_all add: plan_loop.simps(2) Let_def)

lemma preflight_all_keeps:
  assumes "chain h (Some p) os" and "pf_used_short_ids pf = None"
  shows "list_all (shaped h) rs \<Longrightarrow> (\<And>x. x \<in> set (forest_oids rs) \<Longrightarrow> ln_short_id (obj h x) \<noteq> None) \<Longrightarrow>
    \<exists>errors. preflight_all doc (map t_oid rs) p position start pf h s = Some (Inr (errors, []), s)
      \<and> ve_code ` set errors = {c. \<exists>r \<in> set rs. root_violated doc h os p position start pf r c}"
proof (induction rs)
  case (Cons r rs)
  let ?V = "root_violated doc h os p position start pf"
  have sh: "shaped h r" "list_all (shaped h) rs" using Cons.prems(1) by simp_all
  obtain errors where ih: "preflight_all doc (map t_oid rs) p position start pf h s = Some (Inr (errors, []), s)"
    "ve_code ` set errors = {c. \<exists>r \<in> set rs. ?V r c}" using Cons.IH [OF sh(2)] Cons.prems(2) by auto
  show ?case
  proof (cases "\<exists>c. ?V r c")
    case True
    then obtain es where es: "validate_mutation doc (t_oid r) (Some p) (Some position) (IntIndex (int start)) pf h s
        = Some (Inr \<lparr>vr_success = False, vr_errors = es, vr_short_id_plan = []\<rparr>, s)"
      "ve_code ` set es = Collect (?V r)"
      using validate_mutation_outcome [OF sh(1) assms(1), of doc "Some position" "IntIndex (int start)" pf s]
      by (simp only: if_True) blast
    have "ve_code ` set (es @ errors) = {c. \<exists>r' \<in> set (r # rs). ?V r' c}"
      unfolding set_append image_Un es(2) ih(2) by auto
    then show ?thesis using es(1) ih(1) by (intro exI [of _ "es @ errors"]) simp
  next
    case False
    then have ok: "\<not> ?V r c" for c by blast
    have "plan_loop h [] (pf_next_short_id pf) (oids r) s = (Inr [], s)"
      by (rule plan_loop_keeps) (use Cons.prems(2) in simp)
    then have "validate_mutation doc (t_oid r) (Some p) (Some position) (IntIndex (int start)) pf h s
        = Some (Inr \<lparr>vr_success = True, vr_errors = [], vr_short_id_plan = []\<rparr>, s)"
      using validate_mutation_accepts [OF sh(1) assms(1) ok, of s] assms(2) by simp
    moreover have "ve_code ` set errors = {c. \<exists>r' \<in> set (r # rs). ?V r' c}" using ih(2) ok by auto
    ultimately show ?thesis using ih(1) by (intro exI [of _ errors]) simp
  qed
qed simp

text \<open>
  Taking the subtrees \<open>i\<close> to \<open>j\<close> below \<open>p\<close> and putting them below \<open>q\<close> at \<open>k\<close>, an index counted
  after they are gone; one past the end is the end.
\<close>

definition moved_tree :: "oid \<Rightarrow> nat \<Rightarrow> nat \<Rightarrow> oid \<Rightarrow> nat \<Rightarrow> otree \<Rightarrow> otree" where
  "moved_tree p i j q k t =
     (let rest = splice_tree p i j [] t; k' = min k (length (subs_of q rest))
      in splice_tree q k' k' (list_slice i j (subs_of p t)) rest)"

lemma relocate_tracks:
  assumes "tracks (w_docs w d) (w_heap w) t" and "p \<in> set (oids t)" and "i < j" and "j \<le> length (subs_of p t)"
    and "q \<in> set (oids t)" and "q \<notin> set (forest_oids (list_slice i j (subs_of p t)))"
  shows "\<exists>doc' h' log. relocate d d (map t_oid (list_slice i j (subs_of p t))) p i j q k nodes [] w = Some (with_doc d doc' h' w, log)
    \<and> tracks doc' h' (moved_tree p i j q k t)
    \<and> (\<forall>x. ln_node_id (obj h' x) = ln_node_id (obj (w_heap w) x) \<and> ln_short_id (obj h' x) = ln_short_id (obj (w_heap w) x))
    \<and> td_document_id doc' = td_document_id (w_docs w d)"
proof -
  let ?R = "list_slice i j (subs_of p t)" let ?h = "w_heap w" let ?rest = "splice_tree p i j [] t"
  have le: "i \<le> j" using assms(3) by simp
  note parts = range_parts [OF assms(1,2) le assms(4)] and t = tracksD [OF assms(1)]
  obtain doc1 h1 where one: "remove_range (map t_oid ?R) p i j (w_docs w d) ?h = Some (doc1, h1)" "tracks doc1 h1 ?rest"
    "list_all (linked h1 None) ?R" "\<And>x. ln_node_id (obj h1 x) = ln_node_id (obj ?h x)"
    "\<And>x. ln_short_id (obj h1 x) = ln_short_id (obj ?h x)" "td_document_id doc1 = td_document_id (w_docs w d)"
    by (rule remove_range_tracks [OF assms(1-4)]) blast
  obtain log1 where det: "detach d (map t_oid ?R) p i j (w, []) = Some (with_doc d doc1 h1 w, log1)"
    using detach_sim [OF assms(1-4) refl one(1), of "[]"] by blast
  have left: "set (oids ?rest) = set (oids t) - set (forest_oids ?R)"
    using splice_oids(2) [OF t(3) assms(2) le assms(4), of "[]"] by simp
  have q: "q \<in> set (oids ?rest)" using assms(5,6) left by blast
  have all: "set (oids ?rest) \<union> set (forest_oids ?R) = set (oids t)" using left parts(7) by blast
  let ?sib = "ln_children (obj h1 q)" let ?k = "min k (length (subs_of q ?rest))"
  have len: "length ?sib = length (subs_of q ?rest)" using tracked_children(1) [OF one(2) q] by simp
  have cut: "take k ?sib = take ?k ?sib" "drop k ?sib = drop ?k ?sib" using len by (auto simp: min_def)
  define h2 where "h2 = set_children q (take ?k ?sib @ map t_oid ?R @ drop ?k ?sib) h1"
  define h3 where "h3 = fold (set_parent (Some q)) (map t_oid ?R) h2"
  define doc3 where "doc3 = register_fragment h2 (forest_oids ?R) doc1"
  have sh: "list_all (shaped h1) ?R" using one(3) by (rule linked_shaped)
  obtain log3 where "attach d q k (map t_oid ?R) (with_doc d doc1 h1 w, log1) = Some (with_doc d doc3 h3 w, log3)"
    using attach_sim [of "with_doc d doc1 h1 w" ?R q d k log1] sh assms(6)
    by (auto simp: cut h2_def [symmetric] h3_def [symmetric] doc3_def [symmetric])
  then have "relocate d d (map t_oid ?R) p i j q k nodes [] w = Some (with_doc d doc3 h3 w, log3)"
    by (simp add: relocate_def det plan_logged_def)
  moreover have "tracks doc3 h3 (moved_tree p i j q k t)"
    unfolding moved_tree_def Let_def doc3_def h3_def h2_def
  proof (rule graft_tracks [OF one(2) q])
    show "list_all (\<lambda>r. \<exists>q. linked h1 q r) ?R" using one(3) by (auto simp: list_all_iff)
    show "distinct (forest_oids ?R)" by (rule parts(4))
    show "set (forest_oids ?R) \<inter> set (oids ?rest) = {}" using left by blast
    show "separate h1 (set (oids ?rest) \<union> set (forest_oids ?R))"
      using table_ok_separate [OF t(4)] unfolding all separate_def one(4,5) .
  qed simp
  moreover have "ln_node_id (obj h3 x) = ln_node_id (obj ?h x) \<and> ln_short_id (obj h3 x) = ln_short_id (obj ?h x)" for x
    by (simp add: h3_def h2_def fold_set_parent one(4,5))
  moreover have "td_document_id doc3 = td_document_id (w_docs w d)" using one(6) by (simp add: doc3_def)
  ultimately show ?thesis by blast
qed

lemma move_accepted:
  fixes hooks :: "('s, 'x, 'delta) move_hooks"
  assumes "tracks (w_docs w d) (w_heap w) t" and "\<And>x. x \<in> set (oids t) \<Longrightarrow> ln_short_id (obj (w_heap w) x) \<noteq> None"
    and "pf_used_short_ids (mh_preflight hooks) = None"
    and "resolve_source_range (w_docs w d) (w_heap w) targets = Inr (xs, p, i, j)"
    and "\<not> (case mh_lock hooks of None \<Rightarrow> False | Some grants \<Rightarrow>
      \<not> grants (sort (remdups [td_document_id (w_docs w d), td_document_id (w_docs w d)])))"
    and "resolve_target_position (w_docs w d) (w_heap w) position parent sibling index = Inr (q, k)"
    and "chain (w_heap w) (Some q) (q # os)"
    and "\<And>r c. r \<in> set (list_slice i j (subs_of p t)) \<Longrightarrow>
      \<not> root_violated (preflight_shim (w_docs w d) (forest_oids (list_slice i j (subs_of p t)))) (w_heap w) (q # os) q position k
          (mh_preflight hooks) r c"
  obtains doc' h' log r where "tracks doc' h' (moved_tree p i j q k t)"
    and "\<forall>x. ln_node_id (obj h' x) = ln_node_id (obj (w_heap w) x) \<and> ln_short_id (obj h' x) = ln_short_id (obj (w_heap w) x)"
    and "mv_position r = k" and "mv_remap r = []"
    and "mh_reconcile hooks = None \<longrightarrow>
      move d targets position d parent sibling index hooks w s = Some (Inr r, with_doc d doc' h' w, s)"
    and "\<And>reconcile e w2. mh_reconcile hooks = Some reconcile \<Longrightarrow> reconcile xs [] (with_doc d doc' h' w) = (Inl e, w2) \<Longrightarrow>
      move d targets position d parent sibling index hooks w s = Some (Inl (ReconcileRaised e), roll_back (w2, log), s)"
proof -
  let ?h = "w_heap w" let ?doc = "w_docs w d" let ?R = "list_slice i j (subs_of p t)"
  note t = tracksD [OF assms(1)]
  note range = source_range_in [OF assms(1,4)]
  have le: "i \<le> j" using range(2) by simp
  note parts = range_parts [OF assms(1) range(1) le range(3)]
  have q: "q \<in> set (oids t)"
    using attach_point_in(1) [OF assms(1) resolve_moved_in [OF t(4)] assms(6) [unfolded resolve_target_position_def]] by simp
  define shim where "shim = preflight_shim ?doc (forest_oids ?R)"
  have frag: "fragments_of ?h xs = Some (forest_oids ?R)" unfolding range(4) by (rule fragments_of_forest [OF parts(3)])
  have some: "ln_short_id (obj ?h x) \<noteq> None" if "x \<in> set (forest_oids ?R)" for x using that parts(7) assms(2) by blast
  obtain errors where pre: "preflight_all shim xs q position k (mh_preflight hooks) ?h s = Some (Inr (errors, []), s)"
    "ve_code ` set errors = {c. \<exists>r \<in> set ?R. root_violated shim ?h (q # os) q position k (mh_preflight hooks) r c}"
    using preflight_all_keeps [OF assms(7,3) parts(3) some, of shim position k s] unfolding range(4) by blast
  then have none: "errors = []" using assms(8) unfolding shim_def [symmetric] by auto
  have away: "q \<notin> set (forest_oids ?R)"
  proof
    assume "q \<in> set (forest_oids ?R)"
    then obtain r where r: "r \<in> set ?R" "q \<in> set (oids r)" by auto
    from accepted_no_cycle [OF assms(8) [OF r(1)], of q] r(2) show False by simp
  qed
  obtain doc' h' log where run: "relocate d d xs p i j q k (forest_oids ?R) [] w = Some (with_doc d doc' h' w, log)"
    "tracks doc' h' (moved_tree p i j q k t)"
    "\<forall>x. ln_node_id (obj h' x) = ln_node_id (obj ?h x) \<and> ln_short_id (obj h' x) = ln_short_id (obj ?h x)"
    using relocate_tracks [OF assms(1) range(1-3) q away, of k "forest_oids ?R"] unfolding range(4) by blast
  let ?w = "with_doc d doc' h' w"
  define r :: "'delta move_result" where "r = \<lparr>mv_node_id = ln_node_id (obj (w_heap ?w) (hd xs)), mv_short_id = ln_short_id (obj (w_heap ?w) (hd xs)),
    mv_position = k, mv_remap = [], mv_removed = map (address_of (w_docs ?w d) (w_heap ?w)) xs,
    mv_inserted = map (address_of (w_docs ?w d) (w_heap ?w)) xs, mv_reference_delta = None\<rparr>"
  have "move d targets position d parent sibling index hooks w s = Some (case mh_reconcile hooks of
        None \<Rightarrow> (Inr r, ?w, s)
      | Some reconcile \<Rightarrow> (case reconcile xs [] ?w of
            (Inl e, w2) \<Rightarrow> (Inl (ReconcileRaised e), roll_back (w2, log), s)
          | (Inr delta, w2) \<Rightarrow> (Inr \<lparr>mv_node_id = ln_node_id (obj (w_heap w2) (hd xs)),
              mv_short_id = ln_short_id (obj (w_heap w2) (hd xs)), mv_position = k, mv_remap = [],
              mv_removed = map (address_of (w_docs w2 d) (w_heap w2)) xs,
              mv_inserted = map (address_of (w_docs w2 d) (w_heap w2)) xs, mv_reference_delta = Some delta\<rparr>, w2, s)))"
    using assms(5) pre(1) none run(1)
    by (cases "mh_reconcile hooks"; simp add: move_def assms(4,6) frag shim_def [symmetric] r_def Let_def del: sort_key_simps remdups.simps)
  then show ?thesis by (intro that [OF run(2,3), of r log]) (simp_all add: r_def)
qed

text \<open>
  C15. A move within a document refines moving the subtrees in the tree. On a document that tracks a tree
  whose nodes all have short ids, with a preflight that is given no used ids (as the facade
  calls it) it always returns. If it fails (targets, position, lock or preflight) the world is as before. Otherwise
  the document tracks the tree with the run taken out and put below the new parent, which is not inside the run, at the
  index that was computed before the run was taken out, or at the end when that is past
  it; ids and short ids of all objects are kept, nothing is remapped, and no other document changes.
\<close>

theorem move_refines_tree_move:
  assumes "tracks (w_docs w d) (w_heap w) t" and "\<And>x. x \<in> set (oids t) \<Longrightarrow> ln_short_id (obj (w_heap w) x) \<noteq> None"
    and "pf_used_short_ids (mh_preflight hooks) = None" and "mh_reconcile hooks = None"
  shows "\<exists>result w'. move d targets position d parent sibling index hooks w s = Some (result, w', s) \<and>
    (case result of
       Inl e \<Rightarrow> w' = w
     | Inr r \<Rightarrow> \<exists>xs p i j q k. resolve_source_range (w_docs w d) (w_heap w) targets = Inr (xs, p, i, j)
         \<and> xs = map t_oid (list_slice i j (subs_of p t)) \<and> i < j
         \<and> resolve_target_position (w_docs w d) (w_heap w) position parent sibling index = Inr (q, k)
         \<and> q \<in> set (oids t) \<and> q \<notin> set (forest_oids (list_slice i j (subs_of p t)))
         \<and> tracks (w_docs w' d) (w_heap w') (moved_tree p i j q k t)
         \<and> (\<forall>x. ln_node_id (obj (w_heap w') x) = ln_node_id (obj (w_heap w) x)
              \<and> ln_short_id (obj (w_heap w') x) = ln_short_id (obj (w_heap w) x))
         \<and> (\<forall>d'. d' \<noteq> d \<longrightarrow> w_docs w' d' = w_docs w d') \<and> mv_position r = k \<and> mv_remap r = [])"
proof (cases "resolve_source_range (w_docs w d) (w_heap w) targets")
  case (Inl c)
  then show ?thesis by (simp add: move_def)
next
  case (Inr z)
  let ?h = "w_heap w" let ?doc = "w_docs w d"
  obtain xs p i j where src: "resolve_source_range ?doc ?h targets = Inr (xs, p, i, j)" using Inr by (cases z) simp
  note t = tracksD [OF assms(1)]
  note range = source_range_in [OF assms(1) src]
  have le: "i \<le> j" using range(2) by simp
  note parts = range_parts [OF assms(1) range(1) le range(3)]
  let ?R = "list_slice i j (subs_of p t)"
  let ?ids = "sort (remdups [td_document_id ?doc, td_document_id ?doc])"
  show ?thesis
  proof (cases "case mh_lock hooks of None \<Rightarrow> False | Some grants \<Rightarrow> \<not> grants ?ids")
    case True
    then show ?thesis by (simp only: move_def src Let_def sum.case prod.case if_True) simp
  next
    case granted: False
    show ?thesis
    proof (cases "resolve_target_position ?doc ?h position parent sibling index")
      case (Inl c)
      then show ?thesis using granted by (simp only: move_def src Let_def sum.case prod.case if_False) simp
    next
      case (Inr y)
      obtain q k where tgt: "resolve_target_position ?doc ?h position parent sibling index = Inr (q, k)" using Inr by (cases y) simp
      have q: "q \<in> set (oids t)"
        using attach_point_in(1) [OF assms(1) resolve_moved_in [OF t(4)] tgt [unfolded resolve_target_position_def]] by simp
      obtain os where os: "chain ?h (Some q) (q # os)" by (rule chain_in_tree [OF t(1) q])
      define shim where "shim = preflight_shim ?doc (forest_oids ?R)"
      have frag: "fragments_of ?h xs = Some (forest_oids ?R)" unfolding range(4) by (rule fragments_of_forest [OF parts(3)])
      have some: "ln_short_id (obj ?h x) \<noteq> None" if "x \<in> set (forest_oids ?R)" for x using that parts(7) assms(2) by blast
      obtain errors where pre: "preflight_all shim xs q position k (mh_preflight hooks) ?h s = Some (Inr (errors, []), s)"
        "ve_code ` set errors = {c. \<exists>r \<in> set ?R. root_violated shim ?h (q # os) q position k (mh_preflight hooks) r c}"
        using preflight_all_keeps [OF os assms(3) parts(3) some, of shim position k s] unfolding range(4) by blast
      show ?thesis
      proof (cases "errors = []")
        case False
        then show ?thesis
          using granted pre(1) by (simp add: move_def src tgt frag shim_def [symmetric] Let_def del: sort_key_simps remdups.simps)
      next
        case True
        have away: "q \<notin> set (forest_oids ?R)"
        proof
          assume "q \<in> set (forest_oids ?R)"
          then obtain r where r: "r \<in> set ?R" "q \<in> set (oids r)" by auto
          then have "\<not> root_violated shim ?h (q # os) q position k (mh_preflight hooks) r c" for c
            using pre(2) True by auto
          from accepted_no_cycle [OF this, of q] r(2) show False by simp
        qed
        have ok: "\<not> root_violated shim ?h (q # os) q position k (mh_preflight hooks) r c" if "r \<in> set ?R" for r c
          using that pre(2) True by auto
        obtain doc' h' log r where run: "tracks doc' h' (moved_tree p i j q k t)"
          "\<forall>x. ln_node_id (obj h' x) = ln_node_id (obj ?h x) \<and> ln_short_id (obj h' x) = ln_short_id (obj ?h x)"
          "mv_position r = k" "mv_remap r = []"
          "mh_reconcile hooks = None \<longrightarrow> move d targets position d parent sibling index hooks w s = Some (Inr r, with_doc d doc' h' w, s)"
          by (rule move_accepted [where position = position and s = s, OF assms(1-3) src granted tgt os ok [unfolded shim_def]]) blast
        note moved = run(5) [rule_format, OF assms(4)]
        let ?w = "with_doc d doc' h' w"
        show ?thesis
          by (rule exI [of _ "Inr r"], rule exI [of _ ?w], simp only: moved sum.case, intro conjI refl exI)
            (use src tgt range(2,4) q away run(1-4) in simp_all)
      qed
    qed
  qed
qed

section \<open>On the example document\<close>

definition work_world :: world where
  "work_world = \<lparr>w_docs = (\<lambda>_. work_doc), w_heap = work_heap\<rparr>"

definition work_hooks :: "(oid list \<Rightarrow> short_id_reassignment list \<Rightarrow> world \<Rightarrow> (unit + unit) \<times> world) option \<Rightarrow> (unit, unit, unit) move_hooks" where
  "work_hooks reconcile = \<lparr>mh_preflight = \<lparr>pf_is_type_compatible = None, pf_references = None, pf_loaded_documents = None,
      pf_used_short_ids = None, pf_next_short_id = None\<rparr>, mh_lock = None, mh_reconcile = reconcile\<rparr>"

text \<open>Moving the first child of the root to before the second, where it already is.\<close>

lemma work_source: "resolve_source_range work_doc work_heap [NodeRef 1] = Inr ([1], 0, 0, 1)"
  by (simp add: resolve_source_range_def contiguous_range_def resolve_moved_def Let_def work_defs v4_inj list_slice_def)

lemma work_target: "resolve_target_position work_doc work_heap ''before'' None (Some (NodeRef 2)) NoIndex = Inr (0, 1)"
  by (simp add: resolve_target_position_def attach_point_def resolve_moved_def Let_def work_defs v4_inj)

lemma work_short: "x \<in> set (oids (T 0 [T 1 [], T 2 []])) \<Longrightarrow> ln_short_id (obj work_heap x) \<noteq> None"
  by (auto simp: work_defs)

lemma work_moves:
  assumes "r \<in> set (list_slice 0 1 (subs_of 0 (T 0 [T 1 [], T 2 []])))"
  shows "\<not> root_violated (preflight_shim work_doc (forest_oids (list_slice 0 1 (subs_of 0 (T 0 [T 1 [], T 2 []]))))) work_heap [0] 0
      ''before'' 1 (mh_preflight (work_hooks reconcile)) r c"
  using assms v4_uuid4
  by (simp add: list_slice_def violated_def work_hooks_def preflight_shim_def work_defs v4_inj position_ok_def VALID_POSITIONS_def)

lemma work_moved: "moved_tree 0 0 1 0 1 (T 0 [T 1 [], T 2 []]) = T 0 [T 2 [], T 1 []]"
  by (simp add: moved_tree_def list_slice_def list_splice_def Let_def)

theorem move_refines_tree_move_witness:
  "\<exists>r w'. move 0 [NodeRef 1] ''before'' 0 None (Some (NodeRef 2)) NoIndex (work_hooks None) work_world () = Some (Inr r, w', ())
     \<and> tracks (w_docs w' 0) (w_heap w') (T 0 [T 2 [], T 1 []])"
proof -
  let ?move = "move 0 [NodeRef 1] ''before'' 0 None (Some (NodeRef 2)) NoIndex (work_hooks None) work_world ()"
  have args: "tracks (w_docs work_world 0) (w_heap work_world) (T 0 [T 1 [], T 2 []])"
    "x \<in> set (oids (T 0 [T 1 [], T 2 []])) \<Longrightarrow> ln_short_id (obj (w_heap work_world) x) \<noteq> None"
    "pf_used_short_ids (mh_preflight (work_hooks None)) = None" "mh_reconcile (work_hooks None) = None" for x
    using work_tracks work_short by (simp_all add: work_world_def work_hooks_def)
  have src: "resolve_source_range (w_docs work_world 0) (w_heap work_world) [NodeRef 1] = Inr ([1], 0, 0, 1)"
    and tgt: "resolve_target_position (w_docs work_world 0) (w_heap work_world) ''before'' None (Some (NodeRef 2)) NoIndex = Inr (0, 1)"
    using work_source work_target by (simp_all add: work_world_def)
  have chains: "chain (w_heap work_world) (Some 0) [0]" using work_chain by (simp add: work_world_def)
  obtain r0 w0 where ok: "?move = Some (Inr r0, w0, ())"
    by (rule move_accepted [where s = "()", OF args(1-3) src _ tgt chains])
      (use work_moves [of _ None] in \<open>auto simp: work_world_def work_hooks_def\<close>)
  from move_refines_tree_move [OF args, of "[NodeRef 1]" "''before''" None "Some (NodeRef 2)" NoIndex "()"]
  show ?thesis unfolding ok src tgt using work_moved by auto
qed


end
