(* ===== verification/Updates.thy ===== *)
theory Updates
  imports Move
begin

text \<open>
  \<open>tree_engine/core/updates.py\<close>: attribute and body updates and the replacement of a node's
  UUID with everything that names it. Text bodies end in the reparse stage and are not modelled.
\<close>

section \<open>Attributes\<close>

text \<open>The module's own \<open>_resolve\<close>, which does not parse text.\<close>

definition resolve_stored :: "tree_document \<Rightarrow> heap \<Rightarrow> node_ref \<Rightarrow> oid option" where
  "resolve_stored doc h r =
     (case r of
        NodeRef x \<Rightarrow> if dict_get (td_nodes_by_id doc) (ln_node_id (obj h x)) = Some x then Some x else None
      | UuidRef u \<Rightarrow> dict_get (td_nodes_by_id doc) u
      | TextRef s \<Rightarrow> None
      | ShortRef i \<Rightarrow> (case dict_get (td_short_id_index doc) i of
            Some u \<Rightarrow> dict_get (td_nodes_by_id doc) u
          | None \<Rightarrow> node_with_short_id doc h i))"

lemma resolve_stored_node: "table_ok doc h S \<Longrightarrow> x \<in> S \<Longrightarrow> resolve_stored doc h (NodeRef x) = Some x"
  using table_ok_get [of doc h S "ln_node_id (obj h x)" x] by (simp add: resolve_stored_def)

text \<open>The node's own \<open>set_attribute\<close> decides whether the value is admissible.\<close>

definition update_attribute ::
  "tree_document \<Rightarrow> node_ref \<Rightarrow> string \<Rightarrow> live_field \<Rightarrow> heap \<Rightarrow> (mutation_failure + mutation_result) \<times> heap" where
  "update_attribute doc r name v h =
     (case resolve_stored doc h r of
        None \<Rightarrow> (Inl (rejection NODE_NOT_FOUND), h)
      | Some x \<Rightarrow>
          (case set_attribute name v (obj h x) of
             None \<Rightarrow> (Inl (MutationError [\<lparr>ve_code = INVALID_PARENT_TYPE, ve_node_id = Some (ln_node_id (obj h x))\<rparr>]), h)
           | Some n \<Rightarrow> (Inr \<lparr>mr_node_id = Some (ln_node_id n), mr_short_id = ln_short_id n, mr_position = None,
                mr_remap = [], mr_removed = [], mr_inserted = []\<rparr>, put x n h)))"

section \<open>The UUID of a node\<close>

definition retarget :: "uuid \<Rightarrow> uuid \<Rightarrow> uuid \<Rightarrow> uuid \<Rightarrow> node_address \<Rightarrow> node_address" where
  "retarget old new scanned target a =
     (if na_node_id a \<noteq> old then a
      else (case na_document_id a of
        None \<Rightarrow> if scanned \<noteq> target then a else \<lparr>na_node_id = new, na_document_id = None\<rparr>
      | Some d \<Rightarrow> if d \<noteq> target then a else \<lparr>na_node_id = new, na_document_id = Some d\<rparr>))"

definition retarget_node :: "uuid \<Rightarrow> uuid \<Rightarrow> uuid \<Rightarrow> uuid \<Rightarrow> oid \<Rightarrow> heap \<Rightarrow> heap" where
  "retarget_node old new scanned target x h =
     (let refs = ln_references (obj h x); updated = map (retarget old new scanned target) refs
      in if updated \<noteq> refs then put x ((obj h x)\<lparr>ln_references := updated\<rparr>) h else h)"

text \<open>A loaded document as \<open>identity.replace_node_id\<close> sees it, and its objects after that.\<close>

definition identity_view :: "tree_document \<Rightarrow> heap \<Rightarrow> id_document" where
  "identity_view doc h =
     \<lparr>id_nodes_by_id = Some (td_nodes_by_id doc), id_document_id = Some (td_document_id doc),
      id_objects = (\<lambda>x. \<lparr>at_node_id = Writable (ln_node_id (obj h x)), at_generation = Absent,
        at_short_id = ln_short_id (obj h x)\<rparr>)\<rparr>"

definition identity_written :: "id_document \<Rightarrow> heap \<Rightarrow> heap" where
  "identity_written v h = h\<lparr>objects := \<lambda>x. (obj h x)\<lparr>ln_node_id := (case at_node_id (id_objects v x) of
     Writable u \<Rightarrow> u | _ \<Rightarrow> ln_node_id (obj h x))\<rparr>\<rparr>"

text \<open>The documents that are scanned: the own one first, then those loaded under other ids.\<close>

definition scanned_documents :: "tree_document \<Rightarrow> (uuid, tree_document) pydict \<Rightarrow> (uuid, tree_document) pydict" where
  "scanned_documents doc others =
     fold (\<lambda>(d, other) docs. if dict_has docs d then docs else dict_set d other docs) others [(td_document_id doc, doc)]"

definition rename_node ::
  "uuid \<Rightarrow> uuid \<Rightarrow> (uuid, tree_document) pydict \<Rightarrow> tree_document \<Rightarrow> heap \<Rightarrow>
   (identity_error + address_remap) \<times> tree_document \<times> heap" where
  "rename_node old new others doc h =
     (case replace_node_id old (UuidValue new) (identity_view doc h) of
        (Inl e, _) \<Rightarrow> (Inl e, doc, h)
      | (Inr remap, v) \<Rightarrow>
          (let doc1 = doc\<lparr>td_nodes_by_id := (case id_nodes_by_id v of Some nodes \<Rightarrow> nodes | None \<Rightarrow> []),
                 td_short_id_index := map (\<lambda>(k, u). (k, if u = old then new else u)) (td_short_id_index doc)\<rparr>;
               target = td_document_id doc
           in (Inr remap, doc1,
               fold (\<lambda>(d, scanned). fold (retarget_node old new d target) (map snd (td_nodes_by_id scanned)))
                 (scanned_documents doc1 others) (identity_written v h))))"

section \<open>Renaming on a document that tracks a tree\<close>

lemma retarget_fold:
  assumes "distinct xs"
  shows "obj (fold (retarget_node old new s t) xs h) x
    = (if x \<in> set xs then (obj h x)\<lparr>ln_references := map (retarget old new s t) (ln_references (obj h x))\<rparr> else obj h x)"
  using assms
proof (induction xs arbitrary: h)
  case (Cons y ys)
  have "obj (retarget_node old new s t y h) z
      = (if z = y then (obj h y)\<lparr>ln_references := map (retarget old new s t) (ln_references (obj h y))\<rparr> else obj h z)" for z
    by (auto simp: retarget_node_def Let_def)
  then show ?case using Cons by auto
qed simp

lemma dict_del_objects:
  "dict_wf d \<Longrightarrow> distinct (map snd d) \<Longrightarrow> dict_get d a = Some v \<Longrightarrow>
   distinct (map snd (dict_del a d)) \<and> set (map snd (dict_del a d)) = set (map snd d) - {v}"
proof (induction d)
  case (Cons e d)
  obtain k w where e: "e = (k, w)" by (cases e)
  show ?case
  proof (cases "k = a")
    case True
    then have "dict_get d a = None" using Cons.prems(1) by (auto simp: e dict_wf_def map_of_eq_None_iff)
    then have "dict_del a d = d" by (rule dict_del_absent)
    then show ?thesis using True Cons.prems by (auto simp: e)
  next
    case False
    then have "dict_get d a = Some v" using Cons.prems(3) by (simp add: e)
    moreover from this have "(a, v) \<in> set d" by (rule map_of_SomeD)
    then have "v \<in> set (map snd d)" by force
    ultimately show ?thesis using False Cons by (auto simp: e dict_wf_def)
  qed
qed simp

text \<open>Moving an entry to another key keeps the objects.\<close>

lemma dict_rename_objects:
  assumes "dict_wf d" and "distinct (map snd d)" and "dict_get d a = Some v" and "dict_get (dict_del a d) b = None"
  shows "distinct (map snd (dict_set b v (dict_del a d)))" and "set (map snd (dict_set b v (dict_del a d))) = set (map snd d)"
proof -
  have "v \<in> set (map snd d)" using map_of_SomeD [OF assms(3)] by force
  then show "distinct (map snd (dict_set b v (dict_del a d)))" "set (map snd (dict_set b v (dict_del a d))) = set (map snd d)"
    using dict_del_objects [OF assms(1-3)] unfolding dict_set_new [OF assms(4)] by auto
qed

lemma identity_absent:
  "dict_get (td_nodes_by_id doc) old = None \<Longrightarrow> \<exists>e. replace_node_id old (UuidValue new) (identity_view doc h) = (Inl e, identity_view doc h)"
  by (cases "validate_uuid4 (UuidValue new)") (simp_all add: replace_node_id_def identity_view_def)

lemma identity_replaced:
  assumes "dict_get (td_nodes_by_id doc) old = Some x" and "ln_node_id (obj h x) = old"
  shows "replace_node_id old (UuidValue new) (identity_view doc h) =
    (if \<not> is_uuid4 new then (Inl (NotUuid4 new (uuid_version new)), identity_view doc h)
     else if dict_has (td_nodes_by_id doc) new then (Inl (NewIdPresent new), identity_view doc h)
     else (Inr \<lparr>remap_old = \<lparr>na_node_id = old, na_document_id = Some (td_document_id doc)\<rparr>,
                remap_new = \<lparr>na_node_id = new, na_document_id = Some (td_document_id doc)\<rparr>\<rparr>,
           identity_view (doc\<lparr>td_nodes_by_id := dict_set new x (dict_del old (td_nodes_by_id doc))\<rparr>)
             (put x ((obj h x)\<lparr>ln_node_id := new\<rparr>) h)))"
  using assms
  by (auto simp: replace_node_id_def identity_view_def validate_uuid4_def is_uuid4_def assign_attribute_def Let_def fun_eq_iff)

end
