(* ===== verification/Facade.thy ===== *)
theory Facade
  imports Updates Identifier_Map
begin

text \<open>
  \<open>tree_engine/facade.py\<close>: the public operations on a loaded document. Each checks the expected
  version, resolves its addresses, runs one core operation and commits: it mirrors the children of the affected
  parents into their fields, drops cached source, reindexes and advances the version. Every error
  that escapes is of the public hierarchy.

  A command runs with the lock of its document held (\<open>Locking\<close>), so it is a function of the
  document and the heap. \<open>None\<close> is a call that does not return.
\<close>

section \<open>The typed-error boundary\<close>

text \<open>
  An exception outside the public hierarchy, by what \<open>_code_of\<close> reads of it: its \<open>code\<close>, its
  \<open>error_code\<close>, the codes of its \<open>errors\<close>; and whether it is an \<open>OSError\<close>.
\<close>

record foreign_error =
  fx_code :: "error_code option"
  fx_error_code :: "error_code option"
  fx_errors :: "error_code option list"
  fx_os_error :: bool

datatype py_exception = Engine exception_class | Foreign foreign_error

definition code_of :: "py_exception \<Rightarrow> error_code option" where
  "code_of e =
     (case e of
        Engine c \<Rightarrow> class_code c
      | Foreign x \<Rightarrow>
          (case fx_code x of Some c \<Rightarrow> Some c
           | None \<Rightarrow> (case fx_error_code x of Some c \<Rightarrow> Some c
             | None \<Rightarrow> Option.bind (find (\<lambda>c. c \<noteq> None) (fx_errors x)) id)))"

definition typed :: "error_code \<Rightarrow> py_exception \<Rightarrow> py_exception" where
  "typed fallback e =
     (case e of
        Engine c \<Rightarrow> Engine c
      | Foreign x \<Rightarrow> Engine (the (exception_for_code (case code_of e of
            Some c \<Rightarrow> c
          | None \<Rightarrow> if fx_os_error x then STORAGE_IO_ERROR else fallback))))"

text \<open>A built-in exception such as \<open>KeyError\<close>, \<open>IndexError\<close> or \<open>ValueError\<close>, and the internal ones.\<close>

definition builtin_error :: py_exception where
  "builtin_error = Foreign \<lparr>fx_code = None, fx_error_code = None, fx_errors = [], fx_os_error = False\<rparr>"

definition node_schema_error :: "error_code \<Rightarrow> py_exception" where
  "node_schema_error c = Foreign \<lparr>fx_code = Some c, fx_error_code = None, fx_errors = [], fx_os_error = False\<rparr>"

fun mutation_exception :: "mutation_failure \<Rightarrow> py_exception" where
  "mutation_exception (MutationError errors) =
     Foreign \<lparr>fx_code = None, fx_error_code = None, fx_errors = map (Some \<circ> ve_code) errors, fx_os_error = False\<rparr>"
| "mutation_exception (AllocatorRaised e) = builtin_error"

section \<open>Addresses\<close>

type_synonym plugin_reference = "(tree_document \<times> heap) plugin_decl"

text \<open>The document as its identifier map sees it.\<close>

definition document_view :: "tree_document \<Rightarrow> heap \<Rightarrow> (tree_document \<times> heap) map_document" where
  "document_view doc h =
     \<lparr>md_document_id = Some (td_document_id doc), md_version = td_document_version doc, md_root = (doc, h),
      md_nodes_by_id = map (\<lambda>(u, x). (u, ln_short_id (obj h x))) (td_nodes_by_id doc),
      md_short_id_map = td_short_id_map doc\<rparr>"

definition resolve_address :: "plugin_reference option \<Rightarrow> tree_document \<Rightarrow> heap \<Rightarrow> raw_address \<Rightarrow> py_exception + uuid" where
  "resolve_address plugin doc h address =
     (case normalize_node_address (tree_document_view (set (dict_keys (td_nodes_by_id doc))) (td_short_id_map doc)) address
             (Some (td_document_id doc)) (Some (tree_resolve_short_id (td_short_id_map doc))) of
        Inr u \<Rightarrow> Inr u
      | Inl EscapedValueError \<Rightarrow> Inl builtin_error
      | Inl e \<Rightarrow>
          (case (case address of
                   RawStr _ \<Rightarrow> fst (node_for_ref (document_view doc h) address (new_identifier_map plugin SHORT_ID))
                 | _ \<Rightarrow> None) of
             Some u \<Rightarrow> Inr u
           | None \<Rightarrow> Inl (Engine (case e of AmbiguousAddressError _ \<Rightarrow> ShortIdConflict | _ \<Rightarrow> NodeNotFound))))"

fun address_nodes :: "plugin_reference option \<Rightarrow> tree_document \<Rightarrow> heap \<Rightarrow> raw_address list \<Rightarrow> py_exception + oid list" where
  "address_nodes plugin doc h [] = Inr []"
| "address_nodes plugin doc h (a # as) =
     (case resolve_address plugin doc h a of
        Inl e \<Rightarrow> Inl e
      | Inr u \<Rightarrow>
          (case dict_get (td_nodes_by_id doc) u of
             None \<Rightarrow> Inl builtin_error
           | Some x \<Rightarrow> map_sum id (Cons x) (address_nodes plugin doc h as)))"

section \<open>Commands\<close>

type_synonym 'r command = "tree_document \<Rightarrow> heap \<Rightarrow> ((py_exception + 'r) \<times> tree_document \<times> heap) option"

definition stale :: "tree_document \<Rightarrow> int option \<Rightarrow> bool" where
  "stale doc expected \<longleftrightarrow> (case expected of None \<Rightarrow> False | Some v \<Rightarrow> v \<noteq> td_document_version doc)"

definition operation :: "int option \<Rightarrow> error_code \<Rightarrow> 'r command \<Rightarrow> 'r command" where
  "operation expected fallback body doc h =
     (if stale doc expected then Some (Inl (Engine DocumentVersionConflict), doc, h)
      else map_option (\<lambda>(r, doc', h'). (map_sum (typed fallback) id r, doc', h')) (body doc h))"

fun close_parents :: "oid option list \<Rightarrow> heap \<Rightarrow> ((py_exception + unit) \<times> heap) option" where
  "close_parents [] h = Some (Inr (), h)"
| "close_parents (p # ps) h =
     (case sync_fields p h of
        None \<Rightarrow> Some (Inl (node_schema_error INVALID_PARENT_TYPE), h)
      | Some h1 \<Rightarrow> Option.bind (invalidate_cached_source p h1) (close_parents ps))"

definition committed :: "oid option list \<Rightarrow> unit command" where
  "committed parents doc h =
     Option.bind (close_parents parents h) (\<lambda>(r, h1).
       case r of
         Inl e \<Rightarrow> Some (Inl e, doc, h1)
       | Inr _ \<Rightarrow> map_option (\<lambda>(doc', h2). (Inr (), doc'\<lparr>td_document_version := td_document_version doc' + 1\<rparr>, h2))
                   (reindex doc h1))"

text \<open>A core operation followed by the commit; the result is the one of the operation.\<close>

definition commit_after :: "(mutation_failure + 'r) \<Rightarrow> oid option list \<Rightarrow> 'r command" where
  "commit_after outcome parents doc h =
     (case outcome of
        Inl f \<Rightarrow> Some (Inl (mutation_exception f), doc, h)
      | Inr r \<Rightarrow> map_option (\<lambda>(c, doc', h'). (map_sum id (\<lambda>_. r) c, doc', h')) (committed parents doc h))"

definition facade_delete :: "plugin_reference option \<Rightarrow> raw_address list \<Rightarrow> int option \<Rightarrow> mutation_result command" where
  "facade_delete plugin targets expected = operation expected INVALID_POSITION (\<lambda>doc h.
     case address_nodes plugin doc h targets of
       Inl e \<Rightarrow> Some (Inl e, doc, h)
     | Inr [] \<Rightarrow> Some (Inl builtin_error, doc, h)
     | Inr (x # xs) \<Rightarrow>
         Option.bind (delete_nodes doc (map NodeRef (x # xs)) h ()) (\<lambda>(outcome, doc1, h1, _).
           commit_after outcome [ln_parent (obj h x)] doc1 h1))"

definition facade_set_attribute ::
  "plugin_reference option \<Rightarrow> raw_address \<Rightarrow> string \<Rightarrow> live_field \<Rightarrow> int option \<Rightarrow> mutation_result command" where
  "facade_set_attribute plugin address name v expected = operation expected INVALID_PARENT_TYPE (\<lambda>doc h.
     case address_nodes plugin doc h [address] of
       Inl e \<Rightarrow> Some (Inl e, doc, h)
     | Inr xs \<Rightarrow>
         (case update_attribute doc (NodeRef (hd xs)) name v h of
            (Inl f, h1) \<Rightarrow> Some (Inl (mutation_exception f), doc, h1)
          | (Inr r, h1) \<Rightarrow> map_option (\<lambda>h2. (Inr r, doc\<lparr>td_document_version := td_document_version doc + 1\<rparr>, h2))
              (invalidate_cached_source (Some (hd xs)) h1)))"

definition facade_replace_node_id ::
  "plugin_reference option \<Rightarrow> raw_address \<Rightarrow> uuid \<Rightarrow> int option \<Rightarrow> address_remap command" where
  "facade_replace_node_id plugin address new expected = operation expected NODE_ID_CONFLICT (\<lambda>doc h.
     case resolve_address plugin doc h address of
       Inl e \<Rightarrow> Some (Inl e, doc, h)
     | Inr old \<Rightarrow>
         (case rename_node old new [] doc h of
            (Inl _, doc1, h1) \<Rightarrow> Some (Inl builtin_error, doc1, h1)
          | (Inr remap, doc1, h1) \<Rightarrow>
              (case rekey old new (td_short_id_map doc1) of
                 (Inl _, m) \<Rightarrow> Some (Inl builtin_error, doc1\<lparr>td_short_id_map := m\<rparr>, h1)
               | (Inr _, m) \<Rightarrow> map_option (\<lambda>(doc2, h2). (Inr remap, doc2\<lparr>td_document_version := td_document_version doc2 + 1\<rparr>, h2))
                   (reindex (doc1\<lparr>td_short_id_map := m\<rparr>) h1))))"

section \<open>Every escaping error is typed\<close>

lemma typed_class:
  "typed fallback (Foreign x) = Engine c \<Longrightarrow> class_code c = Some (case code_of (Foreign x) of
      Some k \<Rightarrow> k | None \<Rightarrow> if fx_os_error x then STORAGE_IO_ERROR else fallback)"
proof -
  let ?k = "case code_of (Foreign x) of Some k \<Rightarrow> k | None \<Rightarrow> if fx_os_error x then STORAGE_IO_ERROR else fallback"
  assume "typed fallback (Foreign x) = Engine c"
  moreover obtain cls l where "exception_for_code ?k = Some cls" by (rule exception_for_code_eval [of ?k])
  ultimately show "class_code c = Some ?k" using exception_for_code_class by (simp add: typed_def)
qed

lemma typed_engine: "\<exists>c. typed fallback e = Engine c"
  by (cases e) (auto simp: typed_def)

lemma typed_schema_error: "typed fallback (node_schema_error INVALID_PARENT_TYPE) = Engine InvalidParentType"
  by (simp add: typed_def node_schema_error_def code_of_def exception_for_code_def CODE_TO_EXCEPTION_eval ALL_EXCEPTIONS_def)



section \<open>Loaded documents\<close>

text \<open>What holds of a document between two commands.\<close>

definition loaded :: "tree_document \<Rightarrow> heap \<Rightarrow> otree \<Rightarrow> bool" where
  "loaded doc h t \<longleftrightarrow> linked h None t \<and> doc_indexed doc h t"

lemma map_of_key: "inj_on f (set xs) \<Longrightarrow> map_of (map (\<lambda>x. (f x, g x)) xs) k = Some v \<longleftrightarrow> (\<exists>x \<in> set xs. f x = k \<and> g x = v)"
  by (induction xs) (auto simp: inj_on_def)

lemma loaded_tracks:
  assumes "loaded doc h t" shows "tracks doc h t"
proof -
  note d = assms [unfolded loaded_def doc_indexed_def]
  let ?id = "\<lambda>x. ln_node_id (obj h x)" let ?s = "\<lambda>x. the (ln_short_id (obj h x))"
  have ids: "inj_on ?id (set (oids t))" using d by (simp add: distinct_map)
  have short: "get_short_id (td_short_id_map doc) (?id x) = Some (?s x)" if "x \<in> set (oids t)" for x
    using d that by auto
  have shorts: "inj_on ?s (set (oids t))"
  proof (rule inj_onI)
    fix x y assume x: "x \<in> set (oids t)" and y: "y \<in> set (oids t)" and eq: "?s x = ?s y"
    have "sid_inv (td_short_id_map doc)" using d by blast
    then have "?id x = ?id y" using sid.ident_inj short [OF x] short [OF y] eq by metis
    with ids show "x = y" using x y by (rule inj_onD)
  qed
  have nodes: "td_nodes_by_id doc = map (\<lambda>x. (?id x, x)) (oids t)"
    and index: "td_short_id_index doc = map (\<lambda>x. (?s x, ?id x)) (oids t)" using d by blast+
  have wf: "dict_wf (td_nodes_by_id doc)" "dict_wf (td_short_id_index doc)"
    using d shorts unfolding nodes index by (auto simp: dict_wf_def distinct_map comp_def)
  have "table_ok doc h (set (oids t))"
    unfolding table_ok_def
  proof (intro conjI allI wf)
    fix u x show "dict_get (td_nodes_by_id doc) u = Some x \<longleftrightarrow> x \<in> set (oids t) \<and> ?id x = u"
      unfolding nodes map_of_key [OF ids, of "\<lambda>x. x"] by auto
    fix i show "dict_get (td_short_id_index doc) i = Some u \<longleftrightarrow> (\<exists>x \<in> set (oids t). ln_short_id (obj h x) = Some i \<and> ?id x = u)" for u
      unfolding index using map_of_key [OF shorts, of ?id] d by force
  qed
  then show ?thesis using d by (simp add: tracks_def)
qed

text \<open>A commit after an operation that left the document tracking a tree.\<close>

lemma sync_fields_keeps:
  assumes "sync_fields p h = Some h'"
  shows "ln_children (obj h' x) = ln_children (obj h x)" "ln_parent (obj h' x) = ln_parent (obj h x)"
    and "ln_node_id (obj h' x) = ln_node_id (obj h x)" "ln_short_id (obj h' x) = ln_short_id (obj h x)"
  using assms by (auto simp: sync_fields_def Let_def split: option.splits list.splits if_splits)

lemma sync_fields_refuses: "sync_fields (Some p) h = None \<longleftrightarrow> (let fs = ln_fields (obj h p); sequences = filter (\<lambda>(_, f). is_node_sequence f) fs
    in length sequences \<noteq> 1 \<and> (sequences \<noteq> [] \<or> list_ex (\<lambda>(_, f). is_ref f) fs))"
  by (auto simp: sync_fields_def Let_def split: list.splits)

lemma assign_keeps_counts:
  "assign_short_ids live m index h = (m', index', h') \<Longrightarrow> next_oid h' = next_oid h \<and> minted h' = minted h"
proof (induction live arbitrary: m index h)
  case (Cons e live)
  obtain u x where e: "e = (u, x)" by (cases e)
  obtain s m1 where "assign_short_ids live m1 (dict_set s u index) (put x ((obj h x)\<lparr>ln_short_id := Some s\<rparr>) h) = (m', index', h')"
    using Cons.prems unfolding e assign_short_ids.simps Let_def case_prod_unfold by blast
  from Cons.IH [OF this] show ?case by simp
qed simp

lemma reindex_keeps:
  assumes "reindex doc h = Some (doc', h')"
  shows "td_document_version doc' = td_document_version doc" "td_document_id doc' = td_document_id doc"
    and "next_oid h' = next_oid h" "minted h' = minted h"
proof -
  obtain nodes where nodes: "walk h (td_root doc) = Some nodes" using assms by (auto simp: reindex_def)
  let ?live = "fold (\<lambda>o' d. dict_set (ln_node_id (obj h o')) o' d) nodes []"
  obtain m index h1 where one: "assign_short_ids ?live (release_gone (map snd (td_short_id_index doc)) ?live (td_short_id_map doc)) [] h
      = (m, index, h1)" by (rule prod_cases3)
  show "td_document_version doc' = td_document_version doc" "td_document_id doc' = td_document_id doc"
    "next_oid h' = next_oid h" "minted h' = minted h"
    using assms assign_keeps_counts [OF one] by (auto simp: reindex_def nodes one Let_def)
qed

lemma committed_loads:
  assumes "tracks doc h t" and "p \<in> set (oids t)" and "sid_inv (td_short_id_map doc)" and "sync_fields (Some p) h = Some h1"
  shows "\<exists>doc' h'. committed [Some p] doc h = Some (Inr (), doc', h') \<and> loaded doc' h' t
    \<and> td_document_version doc' = td_document_version doc + 1 \<and> td_document_id doc' = td_document_id doc
    \<and> next_oid h' = next_oid h \<and> (\<forall>x. ln_node_id (obj h' x) = ln_node_id (obj h x))
    \<and> (\<forall>x \<in> set (oids t). case get_short_id (td_short_id_map doc) (ln_node_id (obj h x)) of
          Some s \<Rightarrow> ln_short_id (obj h' x) = Some s
        | None \<Rightarrow> \<exists>s. ln_short_id (obj h' x) = Some s \<and> next_short_id (td_short_id_map doc) \<le> s)"
proof -
  note t = tracksD [OF assms(1)]
  note keep1 = sync_fields_keeps [OF assms(4)]
  have "linked h1 None t" using linked_cong [of h None "[t]" h1] t(1) keep1 by simp
  then obtain os where "chain h1 (Some p) (p # os)" using chain_in_tree assms(2) by blast
  from invalidate_chain [OF this] obtain h2 where h2: "invalidate_cached_source (Some p) h1 = Some h2"
    "\<And>x. obj h2 x = (if x \<in> set (p # os) then drop_cache (obj h1 x) else obj h1 x)" "next_oid h2 = next_oid h1" by blast
  have next1: "next_oid h1 = next_oid h"
    using assms(4) by (auto simp: sync_fields_def Let_def split: list.splits if_splits)
  have keep2: "ln_children (obj h2 x) = ln_children (obj h x)" "ln_parent (obj h2 x) = ln_parent (obj h x)"
    "ln_node_id (obj h2 x) = ln_node_id (obj h x)" for x
    by (simp_all add: h2(2) keep1)
  have link2: "linked h2 None t" using linked_cong [of h None "[t]" h2] t(1) keep2 by simp
  then have sh: "shaped h2 t" using linked_shaped [of h2 None "[t]"] by simp
  have "inj_on (\<lambda>x. ln_node_id (obj h2 x)) (set (oids t))"
    using table_ok_separate [OF t(4)] by (auto simp: inj_on_def separate_def keep2)
  then have dist: "distinct (map (\<lambda>x. ln_node_id (obj h2 x)) (oids t))" using t(3) by (simp add: distinct_map)
  obtain doc' h' where re: "reindex doc h2 = Some (doc', h')" "doc_indexed doc' h' t"
    "\<forall>x. \<exists>s. obj h' x = (obj h2 x)\<lparr>ln_short_id := s\<rparr>"
    "\<forall>x \<in> set (oids t). case get_short_id (td_short_id_map doc) (ln_node_id (obj h2 x)) of
          Some s \<Rightarrow> ln_short_id (obj h' x) = Some s
        | None \<Rightarrow> \<exists>s. ln_short_id (obj h' x) = Some s \<and> next_short_id (td_short_id_map doc) \<le> s"
    using reindex_outcome [OF sh t(2,3) dist assms(3)] by (elim exE conjE)
  have keep3: "ln_children (obj h' x) = ln_children (obj h x)" "ln_parent (obj h' x) = ln_parent (obj h x)"
    "ln_node_id (obj h' x) = ln_node_id (obj h x)" for x
  proof -
    obtain s where "obj h' x = (obj h2 x)\<lparr>ln_short_id := s\<rparr>" using re(3) by blast
    then show "ln_children (obj h' x) = ln_children (obj h x)" "ln_parent (obj h' x) = ln_parent (obj h x)"
      "ln_node_id (obj h' x) = ln_node_id (obj h x)" by (simp_all add: keep2)
  qed
  let ?doc = "doc'\<lparr>td_document_version := td_document_version doc' + 1\<rparr>"
  have "linked h' None t" using linked_cong [of h None "[t]" h'] t(1) keep3 by simp
  moreover have "doc_indexed ?doc h' t" using re(2) by (simp add: doc_indexed_def)
  moreover have "committed [Some p] doc h = Some (Inr (), ?doc, h')"
    by (simp add: committed_def assms(4) h2(1) re(1))
  ultimately show ?thesis
    using reindex_keeps [OF re(1)] next1 h2(3) keep3(3) re(4) [unfolded keep2(3)] by (intro exI [of _ ?doc] exI [of _ h']) (simp add: loaded_def)
qed

section \<open>Deletion\<close>

lemma unregister_all_version:
  "unregister_all xs (doc, h) = Some (doc', h') \<Longrightarrow> td_document_version doc' = td_document_version doc"
  by (induction xs arbitrary: doc h) (auto simp: unregister_subtree_def bind_eq_Some_conv)

lemma remove_range_version:
  "remove_range xs p i j doc h = Some (doc', h') \<Longrightarrow> td_document_version doc' = td_document_version doc"
  by (auto simp: remove_range_def Let_def bind_eq_Some_conv dest: unregister_all_version)

lemma address_nodes_in:
  "table_ok doc h S \<Longrightarrow> address_nodes plugin doc h as = Inr xs \<Longrightarrow> set xs \<subseteq> S"
proof (induction as arbitrary: xs)
  case (Cons a as)
  then show ?case
    by (cases "address_nodes plugin doc h as") (auto simp: table_ok_get split: sum.splits option.splits)
qed simp

lemma resolve_nodes: "table_ok doc h S \<Longrightarrow> set xs \<subseteq> S \<Longrightarrow> resolve_targets (resolve_ref doc h) (map NodeRef xs) = Some xs"
  by (induction xs) (simp_all add: resolve_ref_node)

text \<open>A range of resolved nodes.\<close>

lemma node_range:
  assumes "tracks doc h t" and "set xs \<subseteq> set (oids t)"
    and "resolve_contiguous_range doc h (map NodeRef xs) = Inr (ys, p, i, j)"
  shows "ys = xs" and "ln_parent (obj h (hd xs)) = Some p"
  using assms(3) resolve_nodes [OF tracksD(4) [OF assms(1)] assms(2)]
  by (auto simp: resolve_contiguous_range_def contiguous_range_def Let_def split: if_splits option.splits)

text \<open>
  C8. Deletion through the facade: on a loaded document it always returns, and every error is of the
  public hierarchy. When it succeeds the version was not stale, the addresses name a run of siblings in
  order, and the document is loaded again without them, one version later. When it fails the version is the
  same, and document and heap are untouched because the version was stale or the addresses name no run; with
  one exception: when no single field of the parent can hold the remaining children, which its fields
  show before the call, the error is raised after the nodes have been taken out of the tree.
\<close>

theorem facade_delete_commits:
  assumes "loaded doc h t"
  shows "\<exists>result doc' h'. facade_delete plugin targets expected doc h = Some (result, doc', h') \<and>
    (case result of
       Inl e \<Rightarrow> (\<exists>c. e = Engine c) \<and> td_document_version doc' = td_document_version doc
         \<and> (doc' = doc \<and> h' = h \<and> (\<forall>xs. address_nodes plugin doc h targets = Inr xs
                \<longrightarrow> stale doc expected \<or> xs = [] \<or> (\<exists>c. resolve_contiguous_range doc h (map NodeRef xs) = Inl c))
            \<or> e = Engine InvalidParentType \<and> (\<exists>xs p i j. address_nodes plugin doc h targets = Inr xs
                \<and> resolve_contiguous_range doc h (map NodeRef xs) = Inr (xs, p, i, j)
                \<and> tracks doc' h' (splice_tree p i j [] t) \<and> sync_fields (Some p) h = None))
     | Inr r \<Rightarrow> \<not> stale doc expected \<and> (\<exists>xs p i j. address_nodes plugin doc h targets = Inr xs
         \<and> resolve_contiguous_range doc h (map NodeRef xs) = Inr (xs, p, i, j) \<and> p \<in> set (oids t) \<and> i < j \<and> j \<le> length (subs_of p t) \<and> xs = map t_oid (list_slice i j (subs_of p t))
         \<and> loaded doc' h' (splice_tree p i j [] t) \<and> td_document_version doc' = td_document_version doc + 1
         \<and> mr_removed r = map (address_of doc h) xs))"
proof (cases "stale doc expected")
  case True
  then show ?thesis by (simp add: facade_delete_def operation_def)
next
  case current: False
  note tr = loaded_tracks [OF assms]
  have sid: "sid_inv (td_short_id_map doc)" using assms by (simp add: loaded_def doc_indexed_def)
  show ?thesis
  proof (cases "address_nodes plugin doc h targets")
    case (Inl e)
    then show ?thesis using current typed_engine by (simp add: facade_delete_def operation_def)
  next
    case addresses: (Inr xs)
    have xs: "set xs \<subseteq> set (oids t)" by (rule address_nodes_in [OF tracksD(4) [OF tr] addresses])
    show ?thesis
    proof (cases xs)
      case Nil
      then show ?thesis using current addresses typed_engine by (simp add: facade_delete_def operation_def)
    next
      case (Cons x rest)
      have run: "facade_delete plugin targets expected doc h = map_option (\<lambda>(r, doc', h'). (map_sum (typed INVALID_POSITION) id r, doc', h'))
        (Option.bind (delete_nodes doc (map NodeRef xs) h ()) (\<lambda>(outcome, doc1, h1, _). commit_after outcome [ln_parent (obj h x)] doc1 h1))"
        using current addresses Cons by (simp add: facade_delete_def operation_def)
      show ?thesis
      proof (cases "resolve_contiguous_range doc h (map NodeRef xs)")
        case (Inl c)
        then have "delete_nodes doc (map NodeRef xs) h () = Some (Inl (rejection c), doc, h, ())" by (simp add: delete_nodes_def)
        then show ?thesis using typed_engine addresses Inl by (simp add: run commit_after_def)
      next
        case (Inr q)
        obtain ys p i j where "resolve_contiguous_range doc h (map NodeRef xs) = Inr (ys, p, i, j)" using Inr by (cases q) simp
        then have q: "resolve_contiguous_range doc h (map NodeRef xs) = Inr (xs, p, i, j)" and par: "ln_parent (obj h x) = Some p"
          using node_range [OF tr xs] Cons by auto
        note range = contiguous_range_in [OF tr q]
        obtain doc1 h1 where one: "remove_range xs p i j doc h = Some (doc1, h1)" "tracks doc1 h1 (splice_tree p i j [] t)"
          "td_short_id_map doc1 = td_short_id_map doc" "\<And>x. ln_fields (obj h1 x) = ln_fields (obj h x)"
          unfolding range(4) by (rule remove_range_tracks [OF tr range(1-3)]) blast
        have del: "\<exists>r. delete_nodes doc (map NodeRef xs) h () = Some (Inr r, doc1, h1, ()) \<and> mr_removed r = map (address_of doc h) xs"
          using q one(1) by (simp add: delete_nodes_def Let_def)
        then obtain r where r: "delete_nodes doc (map NodeRef xs) h () = Some (Inr r, doc1, h1, ())" "mr_removed r = map (address_of doc h) xs"
          by blast
        have ver: "td_document_version doc1 = td_document_version doc" by (rule remove_range_version [OF one(1)])
        have left: "p \<in> set (oids (splice_tree p i j [] t))"
        proof -
          have le: "i \<le> j" using range(2) by simp
          show ?thesis using splice_oids(2) [OF tracksD(3) [OF tr] range(1) le range(3), of "[]"]
            range_parts(6) [OF tr range(1) le range(3)] range(1) by simp
        qed
        show ?thesis
        proof (cases "sync_fields (Some p) h1")
          case None
          then have "facade_delete plugin targets expected doc h = Some (Inl (Engine InvalidParentType), doc1, h1)"
            by (simp add: run r(1) par commit_after_def committed_def typed_schema_error)
          moreover have "sync_fields (Some p) h = None" using None by (simp add: sync_fields_refuses one(4))
          ultimately show ?thesis using addresses q one(2) ver by auto
        next
          case (Some h2)
          from committed_loads [OF one(2) left _ this] sid one(3) obtain doc' h' where
            com: "committed [Some p] doc1 h1 = Some (Inr (), doc', h')" "loaded doc' h' (splice_tree p i j [] t)"
            "td_document_version doc' = td_document_version doc1 + 1" by auto
          have "facade_delete plugin targets expected doc h = Some (Inr r, doc', h')"
            by (simp add: run r(1) par commit_after_def com(1))
          then show ?thesis using current addresses q range(1-4) com(2,3) ver r(2) by auto
        qed
      qed
    qed
  qed
qed

section \<open>Renaming\<close>

lemma rename_tracked:
  assumes "loaded doc h t" and "x \<in> set (oids t)"
  defines "old \<equiv> ln_node_id (obj h x)"
  shows "case rename_node old new [] doc h of
      (Inl e, doc1, h1) \<Rightarrow> doc1 = doc \<and> h1 = h \<and> (\<not> is_uuid4 new \<or> (\<exists>y \<in> set (oids t). ln_node_id (obj h y) = new))
    | (Inr remap, doc1, h1) \<Rightarrow> is_uuid4 new \<and> (\<forall>y \<in> set (oids t). ln_node_id (obj h y) \<noteq> new)
        \<and> remap = \<lparr>remap_old = \<lparr>na_node_id = old, na_document_id = Some (td_document_id doc)\<rparr>,
             remap_new = \<lparr>na_node_id = new, na_document_id = Some (td_document_id doc)\<rparr>\<rparr>
        \<and> td_root doc1 = td_root doc \<and> td_short_id_map doc1 = td_short_id_map doc
        \<and> td_document_version doc1 = td_document_version doc
        \<and> (\<forall>y. obj h1 y = (if y \<in> set (oids t) then (obj h y)\<lparr>ln_node_id := (if y = x then new else ln_node_id (obj h y)),
             ln_references := map (retarget old new (td_document_id doc) (td_document_id doc)) (ln_references (obj h y))\<rparr> else obj h y))"
proof -
  note tr = loaded_tracks [OF assms(1)]
  note tab = tracksD(4) [OF tr]
  have get: "dict_get (td_nodes_by_id doc) old = Some x" using assms(2) by (simp add: table_ok_get [OF tab] old_def)
  have has: "dict_has (td_nodes_by_id doc) new \<longleftrightarrow> (\<exists>y \<in> set (oids t). ln_node_id (obj h y) = new)"
    using table_ok_get [OF tab, of new] by auto
  have x: "ln_node_id (obj h x) = old" by (simp add: old_def)
  note step = identity_replaced [OF get x, of new]
  show ?thesis
  proof (cases "is_uuid4 new \<and> \<not> dict_has (td_nodes_by_id doc) new")
    case False
    then show ?thesis using has by (auto simp: rename_node_def step)
  next
    case True
    let ?nodes = "dict_set new x (dict_del old (td_nodes_by_id doc))" let ?d = "td_document_id doc"
    let ?doc1 = "doc\<lparr>td_nodes_by_id := ?nodes, td_short_id_index := map (\<lambda>(k, u). (k, if u = old then new else u)) (td_short_id_index doc)\<rparr>"
    let ?h0 = "identity_written (identity_view (doc\<lparr>td_nodes_by_id := ?nodes\<rparr>) (put x ((obj h x)\<lparr>ln_node_id := new\<rparr>) h)) h"
    let ?h1 = "fold (retarget_node old new ?d ?d) (map snd ?nodes) ?h0"
    have run: "rename_node old new [] doc h = (Inr \<lparr>remap_old = \<lparr>na_node_id = old, na_document_id = Some ?d\<rparr>,
        remap_new = \<lparr>na_node_id = new, na_document_id = Some ?d\<rparr>\<rparr>, ?doc1, ?h1)"
      using True by (simp add: rename_node_def step scanned_documents_def Let_def) (simp add: identity_view_def)
    have nodes: "td_nodes_by_id doc = map (\<lambda>x. (ln_node_id (obj h x), x)) (oids t)"
      using assms(1) by (simp add: loaded_def doc_indexed_def)
    have absent: "dict_get (dict_del old (td_nodes_by_id doc)) new = None"
      using True by (auto simp: dict_simps)
    have wf: "dict_wf (td_nodes_by_id doc)" using tab by (simp add: table_ok_def)
    have vals: "distinct (map snd ?nodes)" "set (map snd ?nodes) = set (oids t)"
      using dict_rename_objects [OF wf _ get absent] tracksD(3) [OF tr] by (simp_all add: nodes comp_def)
    have h0: "obj ?h0 y = (obj h y)\<lparr>ln_node_id := (if y = x then new else ln_node_id (obj h y))\<rparr>" for y
      by (simp add: identity_written_def identity_view_def)
    have "obj ?h1 y = (if y \<in> set (oids t) then (obj h y)\<lparr>ln_node_id := (if y = x then new else ln_node_id (obj h y)),
             ln_references := map (retarget old new ?d ?d) (ln_references (obj h y))\<rparr> else obj h y)" for y
      using vals assms(2) by (auto simp: retarget_fold h0)
    then show ?thesis using True has unfolding run by auto
  qed
qed

text \<open>Rekeying the short id of the renamed node and reindexing changes nothing else of the objects.\<close>

lemma rename_reindexes:
  assumes "loaded doc h t" and "x \<in> set (oids t)" and "\<And>y. y \<in> set (oids t) \<Longrightarrow> ln_node_id (obj h y) \<noteq> new"
    and "get_short_id (td_short_id_map doc) new = None"
    and "td_root doc1 = td_root doc" and "td_short_id_map doc1 = td_short_id_map doc"
    and "\<And>y. obj h1 y = (if y \<in> set (oids t) then (obj h y)\<lparr>ln_node_id := (if y = x then new else ln_node_id (obj h y)),
      ln_references := refs y\<rparr> else obj h y)"
  shows "\<exists>m doc2 h2. rekey (ln_node_id (obj h x)) new (td_short_id_map doc1) = (Inr (), m)
    \<and> reindex (doc1\<lparr>td_short_id_map := m\<rparr>) h1 = Some (doc2, h2) \<and> loaded doc2 h2 t \<and> (\<forall>y. obj h2 y = obj h1 y)"
proof -
  let ?old = "ln_node_id (obj h x)" let ?m = "td_short_id_map doc"
  note tr = loaded_tracks [OF assms(1)]
  have sid: "sid_inv ?m" using assms(1) by (simp add: loaded_def doc_indexed_def)
  have short: "get_short_id ?m (ln_node_id (obj h y)) = ln_short_id (obj h y)" "ln_short_id (obj h y) \<noteq> None"
    if "y \<in> set (oids t)" for y
    using assms(1) that by (auto simp: loaded_def doc_indexed_def)
  obtain s where s: "get_short_id ?m ?old = Some s" using short [OF assms(2)] by auto
  define m where "m = snd (rekey ?old new ?m)"
  have m: "rekey ?old new ?m = (Inr (), m)" using s assms(4) by (simp add: m_def rekey_def get_short_id_def)
  have m_inv: "sid_inv m" unfolding m_def by (rule rekey_inv [OF sid])
  have m_get: "get_short_id m u = (if u = new then Some s else if u = ?old then None else get_short_id ?m u)" for u
    using m s assms(4) by (auto simp: rekey_def get_short_id_def dict_simps)
  let ?doc = "doc1\<lparr>td_short_id_map := m\<rparr>"
  have keep1: "ln_children (obj h1 y) = ln_children (obj h y) \<and> ln_parent (obj h1 y) = ln_parent (obj h y)" for y
    by (simp add: assms(7))
  have link1: "linked h1 None t" using linked_cong [of h None "[t]" h1] tracksD(1) [OF tr] keep1 by simp
  then have sh: "shaped h1 t" using linked_shaped [of h1 None "[t]"] by simp
  have inj: "inj_on (\<lambda>y. ln_node_id (obj h y)) (set (oids t))"
    using table_ok_separate [OF tracksD(4) [OF tr]] by (auto simp: inj_on_def separate_def)
  then have "inj_on (\<lambda>y. ln_node_id (obj h1 y)) (set (oids t))"
    using assms(2,3) by (simp add: inj_on_def assms(7)) metis
  then have ids: "distinct (map (\<lambda>y. ln_node_id (obj h1 y)) (oids t))" using tracksD(3) [OF tr] by (simp add: distinct_map)
  have root: "td_root ?doc = t_oid t" using tracksD(2) [OF tr] assms(5) by simp
  have inv: "sid_inv (td_short_id_map ?doc)" using m_inv by simp
  obtain doc2 h2 where re: "reindex ?doc h1 = Some (doc2, h2)" "doc_indexed doc2 h2 t"
    "\<And>y. \<exists>s. obj h2 y = (obj h1 y)\<lparr>ln_short_id := s\<rparr>" "\<And>y. y \<notin> set (oids t) \<Longrightarrow> obj h2 y = obj h1 y"
    using reindex_result [OF sh root tracksD(3) [OF tr] ids inv] by metis
  have given: "\<forall>y \<in> set (oids t). case get_short_id (td_short_id_map ?doc) (ln_node_id (obj h1 y)) of
      Some s \<Rightarrow> ln_short_id (obj h2 y) = Some s
    | None \<Rightarrow> \<exists>s. ln_short_id (obj h2 y) = Some s \<and> next_short_id (td_short_id_map ?doc) \<le> s"
    using reindex_outcome [OF sh root tracksD(3) [OF tr] ids inv] re(1) by auto
  have "obj h2 y = obj h1 y" for y
  proof (cases "y \<in> set (oids t)")
    case True
    have "get_short_id m (ln_node_id (obj h1 y)) = ln_short_id (obj h y)"
    proof (cases "y = x")
      case False
      then have "ln_node_id (obj h y) \<noteq> ?old" using inj True assms(2) by (auto simp: inj_on_def)
      then show ?thesis using True False assms(3) [OF True] by (simp add: m_get assms(7) short(1))
    qed (use True s short(1) [OF True] in \<open>simp add: m_get assms(7)\<close>)
    then have "ln_short_id (obj h2 y) = ln_short_id (obj h1 y)"
      using bspec [OF given True] short(2) [OF True] True by (auto simp: assms(7) split: option.splits)
    moreover obtain s where "obj h2 y = (obj h1 y)\<lparr>ln_short_id := s\<rparr>" using re(3) by blast
    ultimately show ?thesis by simp
  qed (rule re(4))
  moreover from this have "linked h2 None t" using link1 linked_cong [of h1 None "[t]" h2] by simp
  ultimately show ?thesis using m re(1,2) by (simp add: assms(6) loaded_def)
qed


section \<open>Attributes\<close>

lemma drop_cache_get:
  "dict_get (ln_fields (drop_cache n)) name = (if name \<in> set CACHED_SOURCE_FIELDS then None else dict_get (ln_fields n) name)"
proof -
  have "dict_get (filter (\<lambda>(key, _). key \<notin> set CACHED_SOURCE_FIELDS) d) name
      = (if name \<in> set CACHED_SOURCE_FIELDS then None else dict_get d name)" for d :: "(string, live_field) pydict"
    by (induction d) auto
  moreover have "dict_get (ln_fields n) name = None"
    if "\<not> list_ex (\<lambda>name. dict_has (ln_fields n) name) CACHED_SOURCE_FIELDS" "name \<in> set CACHED_SOURCE_FIELDS"
    using that by (simp add: list_ex_iff)
  ultimately show ?thesis by (auto simp: drop_cache_def)
qed

lemma loaded_cong:
  assumes "loaded doc h t"
    and "\<And>x. ln_children (obj h' x) = ln_children (obj h x) \<and> ln_parent (obj h' x) = ln_parent (obj h x)
      \<and> ln_node_id (obj h' x) = ln_node_id (obj h x) \<and> ln_short_id (obj h' x) = ln_short_id (obj h x)"
  shows "loaded doc h' t"
  using linked_cong [of h None "[t]" h'] assms by (simp add: loaded_def doc_indexed_def)

text \<open>
  C39. Setting an attribute through the facade: on a loaded document it always returns. An error is of the public hierarchy and changes nothing. On success the value
  was a primitive, the document is loaded with the same tree one version later, and the node answers with the new value: except under
  a name that caches source, \<open>raw\<close> and \<open>content\<close>, where the value just set is dropped with the stale cache; the
  ancestors lose their cached source and no other object changes.
\<close>

theorem facade_set_attribute_sets:
  assumes "loaded doc h t"
  shows "\<exists>result doc' h'. facade_set_attribute plugin address name v expected doc h = Some (result, doc', h') \<and>
    (case result of
       Inl e \<Rightarrow> (\<exists>c. e = Engine c) \<and> doc' = doc \<and> h' = h
         \<and> (\<forall>x. address_nodes plugin doc h [address] = Inr [x] \<longrightarrow> stale doc expected \<or> (\<nexists>w. v = LPrim w))
     | Inr r \<Rightarrow> \<not> stale doc expected \<and> (\<exists>w. v = LPrim w) \<and> (\<exists>x os. address_nodes plugin doc h [address] = Inr [x]
         \<and> x \<in> set (oids t) \<and> loaded doc' h' t \<and> td_document_version doc' = td_document_version doc + 1
         \<and> (\<forall>n. dict_get (ln_fields (obj h' x)) n = (if n \<in> set CACHED_SOURCE_FIELDS then None
              else if n = name then Some v else dict_get (ln_fields (obj h x)) n))
         \<and> chain h (ln_parent (obj h x)) os
         \<and> (\<forall>y. y \<noteq> x \<longrightarrow> obj h' y = (if y \<in> set os then drop_cache (obj h y) else obj h y))))"
proof (cases "stale doc expected")
  case True
  then show ?thesis by (simp add: facade_set_attribute_def operation_def)
next
  case current: False
  note run = facade_set_attribute_def operation_def
  note tab = tracksD(4) [OF loaded_tracks [OF assms]]
  show ?thesis
  proof (cases "address_nodes plugin doc h [address]")
    case (Inl e)
    then show ?thesis using current typed_engine by (simp add: run del: address_nodes.simps)
  next
    case (Inr xs)
    obtain x where xs: "xs = [x]" using Inr by (auto split: sum.splits option.splits)
    have x: "x \<in> set (oids t)" using address_nodes_in [OF tab Inr] xs by simp
    note res = resolve_stored_node [OF tab x]
    show ?thesis
    proof (cases v)
      case (LPrim w)
      let ?h1 = "put x ((obj h x)\<lparr>ln_fields := dict_set name v (ln_fields (obj h x))\<rparr>) h"
      obtain os where os: "chain h (Some x) (x # os)"
        using chain_in_tree [OF tracksD(1) [OF loaded_tracks [OF assms]] x] by blast
      then have "chain ?h1 (Some x) (x # os)" by (rule chain_cong) simp
      from invalidate_chain [OF this] obtain h2 where h2: "invalidate_cached_source (Some x) ?h1 = Some h2"
        "\<And>y. obj h2 y = (if y \<in> set (x # os) then drop_cache (obj ?h1 y) else obj ?h1 y)" by blast
      have short: "ln_short_id (drop_cache n) = ln_short_id n" for n by (simp add: drop_cache_def)
      let ?doc = "doc\<lparr>td_document_version := td_document_version doc + 1\<rparr>"
      have "loaded doc h2 t" by (rule loaded_cong [OF assms]) (simp add: h2(2) short)
      then have "loaded ?doc h2 t" by (simp add: loaded_def doc_indexed_def)
      moreover have "\<exists>r. facade_set_attribute plugin address name v expected doc h = Some (Inr r, ?doc, h2)"
        using current Inr xs h2(1)
        by (simp add: run update_attribute_def res LPrim set_attribute_def del: address_nodes.simps)
      moreover have "dict_get (ln_fields (obj h2 x)) n = (if n \<in> set CACHED_SOURCE_FIELDS then None
          else if n = name then Some v else dict_get (ln_fields (obj h x)) n)" for n
        by (simp add: h2(2) drop_cache_get dict_simps)
      moreover have "y \<noteq> x \<longrightarrow> obj h2 y = (if y \<in> set os then drop_cache (obj h y) else obj h y)" for y by (simp add: h2(2))
      moreover have "chain h (ln_parent (obj h x)) os" using os by simp
      ultimately show ?thesis using current LPrim Inr xs x by auto
    qed (use current Inr xs typed_engine in
        \<open>auto simp: run update_attribute_def res set_attribute_def simp del: address_nodes.simps\<close>)
  qed
qed

section \<open>On the example document\<close>

lemma work_loaded: "loaded work_doc work_heap (T 0 [T 1 [], T 2 []])"
  unfolding loaded_def doc_indexed_def
proof (intro conjI)
  show "linked work_heap None (T 0 [T 1 [], T 2 []])" by (rule work_shaped(2))
qed (auto simp: work_defs v4_inj sid_inv_def dict_wf_def get_short_id_def)

theorem facade_delete_commits_witness:
  "\<exists>r doc' h'. facade_delete None [RawInt 2] (Some 1) work_doc work_heap = Some (Inr r, doc', h')
     \<and> loaded doc' h' (T 0 [T 2 []]) \<and> td_document_version doc' = 2"
proof -
  note del = facade_delete_commits [OF work_loaded, of None "[RawInt 2]" "Some 1"]
  have nodes: "address_nodes None work_doc work_heap [RawInt 2] = Inr [1]"
    by (simp add: resolve_address_def normalize_node_address_def resolve_short_id_value_def tree_resolve_short_id_def
        get_node_id_def work_doc_def v4_inj)
  have range: "resolve_contiguous_range work_doc work_heap (map NodeRef [1]) = Inr ([1], 0, 0, 1)" using work_range by simp
  have current: "\<not> stale work_doc (Some 1)" by (simp add: stale_def work_doc_def)
  obtain result doc' h' where run: "facade_delete None [RawInt 2] (Some 1) work_doc work_heap = Some (result, doc', h')"
    using del by blast
  note res = del [unfolded run nodes]
  show ?thesis
  proof (cases result)
    case (Inl e)
    have "sync_fields (Some 0) work_heap \<noteq> None" by (simp add: sync_fields_refuses work_heap_def work_node_def)
    then show ?thesis using res current range by (auto simp: Inl)
  next
    case (Inr r)
    then show ?thesis using res run range by (auto simp: list_splice_def work_doc_def)
  qed
qed


theorem facade_set_attribute_sets_witness:
  "\<exists>r doc' h'. facade_set_attribute None (RawInt 2) ''k'' (LPrim (PInt 7)) None work_doc work_heap = Some (Inr r, doc', h')
     \<and> dict_get (ln_fields (obj h' 1)) ''k'' = Some (LPrim (PInt 7))"
proof -
  note set = facade_set_attribute_sets [OF work_loaded, of None "RawInt 2" "''k''" "LPrim (PInt 7)" None]
  have nodes: "address_nodes None work_doc work_heap [RawInt 2] = Inr [1]"
    by (simp add: resolve_address_def normalize_node_address_def resolve_short_id_value_def tree_resolve_short_id_def
        get_node_id_def work_doc_def v4_inj)
  obtain result doc' h' where run: "facade_set_attribute None (RawInt 2) ''k'' (LPrim (PInt 7)) None work_doc work_heap = Some (result, doc', h')"
    using set by blast
  note res = set [unfolded run nodes]
  show ?thesis
  proof (cases result)
    case (Inl e)
    then show ?thesis using res by (auto simp: stale_def)
  next
    case (Inr r)
    then show ?thesis using res run by (auto simp: CACHED_SOURCE_FIELDS_def)
  qed
qed

end
