(* ===== verification/Fragments.thy ===== *)
theory Fragments
  imports Facade
begin

text \<open>
  \<open>facade._fragment\<close>: caller-supplied source becomes fresh live nodes. The plugin's fragment parser is a
  parameter; the container its result may come in is dropped, a node whose UUID is taken by the document
  gets a fresh one, and short ids are left to the preflight.
\<close>

section \<open>Parsing a fragment\<close>

datatype parsed_fragment = ParsedText | ParsedNodes "node list"

record fragment_plugin =
  fp_parse :: "string \<Rightarrow> py_exception + parsed_fragment"
  fp_container_kinds :: "string list"

fun re_identify :: "(nat \<Rightarrow> uuid) \<Rightarrow> tree_document \<Rightarrow> oid list \<Rightarrow> heap \<Rightarrow> heap" where
  "re_identify gen doc [] h = h"
| "re_identify gen doc (x # xs) h =
     (let h1 = (if dict_has (td_nodes_by_id doc) (ln_node_id (obj h x))
                then (let (u, h') = generate_node_id gen h in put x ((obj h' x)\<lparr>ln_node_id := u\<rparr>) h')
                else h)
      in re_identify gen doc xs (put x ((obj h1 x)\<lparr>ln_short_id := None\<rparr>) h1))"

definition unwrap :: "string list \<Rightarrow> oid list \<Rightarrow> heap \<Rightarrow> (py_exception + oid list) \<times> heap" where
  "unwrap kinds roots h =
     (case roots of
        [root] \<Rightarrow>
          if ln_kind (obj h root) \<in> set kinds then
            (let children = ln_children (obj h root)
             in (if children = [] then Inl (Engine FormatFragmentParseFailed) else Inr children,
                 fold (set_parent None) children h))
          else (Inr roots, h)
      | _ \<Rightarrow> (Inr roots, h))"

definition fragment ::
  "(nat \<Rightarrow> uuid) \<Rightarrow> fragment_plugin \<Rightarrow> tree_document \<Rightarrow> string \<Rightarrow> heap \<Rightarrow> ((py_exception + oid list) \<times> heap) option" where
  "fragment gen plugin doc source h =
     (case fp_parse plugin source of
        Inl e \<Rightarrow> Some (Inl e, h)
      | Inr ParsedText \<Rightarrow> Some (Inl (Engine FormatFragmentParseFailed), h)
      | Inr (ParsedNodes ns) \<Rightarrow>
          (let (lives, h1) = to_live_list gen ns None h; (roots, h2) = unwrap (fp_container_kinds plugin) lives h1
           in (case roots of
                 Inl e \<Rightarrow> Some (Inl e, h2)
               | Inr roots \<Rightarrow> map_option (\<lambda>nodes. (Inr roots, re_identify gen doc nodes h2)) (walk_list h2 roots))))"

section \<open>Fresh nodes with distinct ids\<close>

text \<open>The UUIDs a fragment comes with.\<close>

fun frozen_ids :: "node \<Rightarrow> uuid list" where
  "frozen_ids (Node k fs cs i s x r refs) = (case i of None \<Rightarrow> [] | Some u \<Rightarrow> [u]) @ concat (map frozen_ids cs)"

abbreviation forest_ids :: "node list \<Rightarrow> uuid list" where
  "forest_ids ns \<equiv> concat (map frozen_ids ns)"

text \<open>
  What \<open>uuid4()\<close> has to do: the ids it mints from the \<open>a\<close>-th to before the \<open>b\<close>-th are distinct and
  not among \<open>S\<close>.
\<close>

definition mints_new :: "(nat \<Rightarrow> uuid) \<Rightarrow> nat \<Rightarrow> nat \<Rightarrow> uuid set \<Rightarrow> bool" where
  "mints_new gen a b S \<longleftrightarrow> inj_on gen {a..<b} \<and> gen ` {a..<b} \<inter> S = {}"

lemma mints_new_sub: "mints_new gen a b S \<Longrightarrow> a \<le> a' \<Longrightarrow> b' \<le> b \<Longrightarrow> S' \<subseteq> S \<Longrightarrow> mints_new gen a' b' S'"
proof -
  assume m: "mints_new gen a b S" and "a \<le> a'" "b' \<le> b" "S' \<subseteq> S"
  then have "{a'..<b'} \<subseteq> {a..<b}" by auto
  with m \<open>S' \<subseteq> S\<close> show ?thesis unfolding mints_new_def by (meson disjoint_iff image_mono inj_on_subset subsetD)
qed

lemma mints_new_outside: "mints_new gen a b S \<Longrightarrow> a \<le> a' \<Longrightarrow> b' \<le> b \<Longrightarrow> S' \<subseteq> S \<Longrightarrow> gen ` {a'..<b'} \<inter> S' = {}"
  using mints_new_sub [of gen a b S a' b' S'] by (simp only: mints_new_def)

lemma inj_on_union:
  "inj_on f A \<Longrightarrow> inj_on f B \<Longrightarrow> f ` A \<subseteq> X \<Longrightarrow> f ` B \<subseteq> Y \<Longrightarrow> X \<inter> Y = {} \<Longrightarrow> inj_on f (A \<union> B)"
  by (auto simp: inj_on_Un)

lemma to_live_list_minted:
  "to_live_list gen ns p h = (os, h') \<Longrightarrow> minted h \<le> minted h' \<and> minted h' + next_oid h \<le> minted h + next_oid h'"
proof (induction ns arbitrary: p h os h' rule: node_forest_induct)
  case (Cons k fs cs i s x r refs ns)
  obtain u h0 where u: "(case i of Some u \<Rightarrow> (u, h) | None \<Rightarrow> generate_node_id gen h) = (u, h0)"
    by (cases "case i of Some u \<Rightarrow> (u, h) | None \<Rightarrow> generate_node_id gen h")
  have h0: "minted h \<le> minted h0" "minted h0 \<le> Suc (minted h)" "next_oid h0 = next_oid h"
    using u by (auto simp: generate_node_id_def split: option.splits)
  let ?n = "\<lparr>ln_kind = k, ln_fields = [], ln_children = [], ln_node_id = u, ln_short_id = s,
     ln_extended_type = x, ln_buffer_range = r, ln_references = refs, ln_parent = p\<rparr>"
  obtain cos h2 where h2: "to_live_list gen cs (Some (next_oid h)) (snd (alloc ?n h0)) = (cos, h2)"
    by (cases "to_live_list gen cs (Some (next_oid h)) (snd (alloc ?n h0))")
  let ?h3 = "put (next_oid h) (?n\<lparr>ln_children := cos, ln_fields := map (\<lambda>(name, f). (name, remap_live cos f)) fs\<rparr>) h2"
  obtain nos h4 where h4: "to_live_list gen ns p ?h3 = (nos, h4)" by (cases "to_live_list gen ns p ?h3")
  have "h' = h4" using Cons.prems u h2 h4 by (simp add: Let_def alloc_def h0(3))
  then show ?case
    using Cons.IH(1) [OF h2] Cons.IH(2) [OF h4] h0 by (simp add: alloc_def)
qed simp

lemma images_disjoint: "I \<subseteq> S \<union> A \<Longrightarrow> B \<inter> (U \<union> S) = {} \<Longrightarrow> A \<inter> B = {} \<Longrightarrow> B \<inter> (U \<union> I) = {}"
  by blast

lemma images_outside: "K \<subseteq> (I - U) \<union> B \<Longrightarrow> I \<subseteq> S \<union> A \<Longrightarrow> B \<inter> U = {} \<Longrightarrow> A \<inter> U = {} \<Longrightarrow> K \<subseteq> (S \<union> (A \<union> B)) - U"
  by blast

lemma four_disjoint:
  "A \<inter> B = {} \<Longrightarrow> A \<subseteq> G \<Longrightarrow> B \<subseteq> G \<Longrightarrow> G \<inter> S = {} \<Longrightarrow> F1 \<subseteq> S \<Longrightarrow> F2 \<subseteq> S \<Longrightarrow> F1 \<inter> F2 = {}
   \<Longrightarrow> (F1 \<union> A) \<inter> (F2 \<union> B) = {}"
  by blast

lemma mints_disjoint:
  assumes "mints_new gen a c S" and "a \<le> b" and "b \<le> c" and "F1 \<subseteq> S" and "F2 \<subseteq> S" and "F1 \<inter> F2 = {}"
  shows "(F1 \<union> gen ` {a..<b}) \<inter> (F2 \<union> gen ` {b..<c}) = {}"
proof -
  have "gen ` {a..<b} \<inter> gen ` {b..<c} = {}"
  proof -
    have "gen ` {a..<b} \<inter> gen ` {b..<c} = gen ` ({a..<b} \<inter> {b..<c})"
      by (rule inj_on_image_Int [symmetric, where C = "{a..<c}"]) (use assms(1-3) in \<open>auto simp: mints_new_def\<close>)
    then show ?thesis by (simp add: ivl_disj_int_two)
  qed
  moreover have "gen ` {a..<b} \<subseteq> gen ` {a..<c}" "gen ` {b..<c} \<subseteq> gen ` {a..<c}" using assms(2,3) by auto
  moreover have "gen ` {a..<c} \<inter> S = {}" using assms(1) by (simp add: mints_new_def)
  ultimately show ?thesis using assms(4-6) by (intro four_disjoint [where G = "gen ` {a..<c}" and S = S])
qed

lemma to_live_list_ids:
  "to_live_list gen ns p h = (os, h') \<Longrightarrow> mints_new gen (minted h) (minted h') (set (forest_ids ns)) \<Longrightarrow> distinct (forest_ids ns) \<Longrightarrow>
   inj_on (\<lambda>x. ln_node_id (obj h' x)) {next_oid h..<next_oid h'}
   \<and> (\<lambda>x. ln_node_id (obj h' x)) ` {next_oid h..<next_oid h'} \<subseteq> set (forest_ids ns) \<union> gen ` {minted h..<minted h'}"
proof (induction ns arbitrary: p h os h' rule: node_forest_induct)
  case (Cons k fs cs i s x r refs ns)
  obtain u h0 where u: "(case i of Some u \<Rightarrow> (u, h) | None \<Rightarrow> generate_node_id gen h) = (u, h0)"
    by (cases "case i of Some u \<Rightarrow> (u, h) | None \<Rightarrow> generate_node_id gen h")
  let ?F1 = "set (case i of None \<Rightarrow> [] | Some u \<Rightarrow> [u])" let ?F2 = "set (forest_ids cs)" let ?F3 = "set (forest_ids ns)"
  have h0: "minted h \<le> minted h0" "next_oid h0 = next_oid h" "u \<in> ?F1 \<union> gen ` {minted h..<minted h0}"
    using u by (auto simp: generate_node_id_def split: option.splits)
  let ?o = "next_oid h"
  let ?n = "\<lparr>ln_kind = k, ln_fields = [], ln_children = [], ln_node_id = u, ln_short_id = s,
     ln_extended_type = x, ln_buffer_range = r, ln_references = refs, ln_parent = p\<rparr>"
  define h1 where "h1 = snd (alloc ?n h0)"
  have h1: "next_oid h1 = Suc ?o" "minted h1 = minted h0" by (simp_all add: h1_def alloc_def h0(2))
  obtain cos h2 where h2: "to_live_list gen cs (Some ?o) h1 = (cos, h2)" by (cases "to_live_list gen cs (Some ?o) h1")
  define h3 where "h3 = put ?o (?n\<lparr>ln_children := cos, ln_fields := map (\<lambda>(name, f). (name, remap_live cos f)) fs\<rparr>) h2"
  have h3: "next_oid h3 = next_oid h2" "minted h3 = minted h2" by (simp_all add: h3_def)
  obtain nos h4 where h4: "to_live_list gen ns p h3 = (nos, h4)" by (cases "to_live_list gen ns p h3")
  have h': "h' = h4" using Cons.prems(1) u h2 h4 by (simp add: Let_def alloc_def h0(2) h1_def h3_def)
  note mono = to_live_list_minted [OF h2, unfolded h1] to_live_list_minted [OF h4, unfolded h3]
  let ?S = "set (forest_ids (Node k fs cs i s x r refs # ns))" let ?id = "\<lambda>y. ln_node_id (obj h4 y)"
  have all: "mints_new gen (minted h) (minted h4) ?S" using Cons.prems(2) by (simp only: h')
  have sub: "?F1 \<subseteq> ?S" "?F2 \<subseteq> ?S" "?F3 \<subseteq> ?S" by auto
  have dist: "distinct (forest_ids cs)" "distinct (forest_ids ns)" "?F1 \<inter> (?F2 \<union> ?F3) = {}" "?F2 \<inter> ?F3 = {}"
    using Cons.prems(3) by auto
  have nexts: "Suc ?o \<le> next_oid h2" "next_oid h2 \<le> next_oid h4"
    "\<And>y. y < next_oid h3 \<Longrightarrow> obj h4 y = obj h3 y"
    using to_live_list_mirrors [OF h2] to_live_list_mirrors [OF h4] by (auto simp: h1(1) h3(1))
  have B: "?id y = ln_node_id (obj h2 y)" if "y \<in> {Suc ?o..<next_oid h2}" for y
    using that nexts(3) [of y] by (simp add: h3(1)) (simp add: h3_def)
  have o': "?id ?o = u" using nexts(1) nexts(3) [of ?o] by (simp add: h3(1)) (simp add: h3_def)
  have ih1: "inj_on ?id {Suc ?o..<next_oid h2}" "?id ` {Suc ?o..<next_oid h2} \<subseteq> ?F2 \<union> gen ` {minted h0..<minted h2}"
  proof -
    have "mints_new gen (minted h1) (minted h2) ?F2" by (rule mints_new_sub [OF all]) (use h0(1) mono h1 sub in auto)
    from Cons.IH(1) [OF h2 this dist(1)] show "inj_on ?id {Suc ?o..<next_oid h2}" "?id ` {Suc ?o..<next_oid h2} \<subseteq> ?F2 \<union> gen ` {minted h0..<minted h2}"
      unfolding h1 using B by (auto simp: inj_on_def image_subset_iff)
  qed
  have ih2: "inj_on ?id {next_oid h2..<next_oid h4}" "?id ` {next_oid h2..<next_oid h4} \<subseteq> ?F3 \<union> gen ` {minted h2..<minted h4}"
  proof -
    have "mints_new gen (minted h3) (minted h4) ?F3" by (rule mints_new_sub [OF all]) (use h0(1) mono h3 sub in auto)
    from Cons.IH(2) [OF h4 this dist(2)] show "inj_on ?id {next_oid h2..<next_oid h4}"
      "?id ` {next_oid h2..<next_oid h4} \<subseteq> ?F3 \<union> gen ` {minted h2..<minted h4}" by (simp_all only: h3)
  qed
  have m: "minted h \<le> minted h0" "minted h0 \<le> minted h2" "minted h2 \<le> minted h4" using h0(1) mono by simp_all
  have gap: "gen ` {minted h0..<minted h2} \<union> gen ` {minted h2..<minted h4} = gen ` {minted h0..<minted h4}"
    "gen ` {minted h..<minted h0} \<union> gen ` {minted h0..<minted h4} = gen ` {minted h..<minted h4}"
    using m by (simp_all add: image_Un [symmetric] ivl_disj_un_two)
  have d23: "(?F2 \<union> gen ` {minted h0..<minted h2}) \<inter> (?F3 \<union> gen ` {minted h2..<minted h4}) = {}"
    by (rule mints_disjoint [OF mints_new_sub [OF all m(1) order.refl order.refl] m(2,3) sub(2,3) dist(4)])
  have rest: "inj_on ?id {Suc ?o..<next_oid h4}" "?id ` {Suc ?o..<next_oid h4} \<subseteq> (?F2 \<union> ?F3) \<union> gen ` {minted h0..<minted h4}"
  proof -
    have split: "{Suc ?o..<next_oid h4} = {Suc ?o..<next_oid h2} \<union> {next_oid h2..<next_oid h4}" using nexts by auto
    show "inj_on ?id {Suc ?o..<next_oid h4}" unfolding split by (rule inj_on_union [OF ih1(1) ih2(1) ih1(2) ih2(2) d23])
    show "?id ` {Suc ?o..<next_oid h4} \<subseteq> (?F2 \<union> ?F3) \<union> gen ` {minted h0..<minted h4}"
      unfolding split image_Un gap(1) [symmetric] using ih1(2) ih2(2) by blast
  qed
  have d1: "(?F1 \<union> gen ` {minted h..<minted h0}) \<inter> ((?F2 \<union> ?F3) \<union> gen ` {minted h0..<minted h4}) = {}"
    by (rule mints_disjoint [OF all m(1) _ sub(1) _ dist(3)]) (use m sub in auto)
  have split: "{?o..<next_oid h4} = {?o} \<union> {Suc ?o..<next_oid h4}" using nexts by auto
  have ids: "?S = ?F1 \<union> (?F2 \<union> ?F3)" by (simp add: Un_assoc split: option.split)
  have root: "?id ` {?o} \<subseteq> ?F1 \<union> gen ` {minted h..<minted h0}" using h0(3) by (simp add: o')
  show ?case
  proof
    show "inj_on (\<lambda>x. ln_node_id (obj h' x)) {?o..<next_oid h'}"
      unfolding h' split by (rule inj_on_union [OF _ rest(1) root rest(2) d1]) simp
    show "(\<lambda>x. ln_node_id (obj h' x)) ` {?o..<next_oid h'} \<subseteq> ?S \<union> gen ` {minted h..<minted h'}"
      unfolding h' split image_Un ids gap(2) [symmetric] using root rest(2) by blast
  qed
qed simp

abbreviation table_ids :: "tree_document \<Rightarrow> uuid set" where
  "table_ids doc \<equiv> {u. dict_has (td_nodes_by_id doc) u}"

text \<open>One step of the loop.\<close>

definition re_identified :: "(nat \<Rightarrow> uuid) \<Rightarrow> tree_document \<Rightarrow> oid \<Rightarrow> heap \<Rightarrow> heap" where
  "re_identified gen doc x h =
     (if ln_node_id (obj h x) \<in> table_ids doc
      then put x ((obj h x)\<lparr>ln_node_id := gen (minted h), ln_short_id := None\<rparr>) (h\<lparr>minted := minted h + 1\<rparr>)
      else put x ((obj h x)\<lparr>ln_short_id := None\<rparr>) h)"

lemma re_identify_step: "re_identify gen doc (x # xs) h = re_identify gen doc xs (re_identified gen doc x h)"
  by (simp add: re_identified_def generate_node_id_def Let_def put_def)

lemma re_identify_shape:
  "next_oid (re_identify gen doc xs h) = next_oid h
   \<and> minted h \<le> minted (re_identify gen doc xs h) \<and> minted (re_identify gen doc xs h) \<le> minted h + length xs
   \<and> (\<forall>x. x \<notin> set xs \<longrightarrow> obj (re_identify gen doc xs h) x = obj h x)
   \<and> (\<forall>x. \<exists>u s. obj (re_identify gen doc xs h) x = (obj h x)\<lparr>ln_node_id := u, ln_short_id := s\<rparr> \<and> (x \<in> set xs \<longrightarrow> s = None))"
proof (induction xs arbitrary: h)
  case Nil
  have "\<exists>u s. n = n\<lparr>ln_node_id := u, ln_short_id := s\<rparr>" for n :: live_node
    by (intro exI [of _ "ln_node_id n"] exI [of _ "ln_short_id n"]) simp
  then show ?case by simp
next
  case (Cons x xs)
  let ?h1 = "re_identified gen doc x h" let ?h2 = "re_identify gen doc xs ?h1"
  have one: "next_oid ?h1 = next_oid h" "minted h \<le> minted ?h1" "minted ?h1 \<le> Suc (minted h)"
    "\<And>y. y \<noteq> x \<Longrightarrow> obj ?h1 y = obj h y" "\<exists>u. obj ?h1 x = (obj h x)\<lparr>ln_node_id := u, ln_short_id := None\<rparr>"
    by (auto simp: re_identified_def intro: exI [of _ "ln_node_id (obj h x)"])
  have two: "\<exists>u s. obj ?h2 y = (obj h y)\<lparr>ln_node_id := u, ln_short_id := s\<rparr> \<and> (y \<in> set (x # xs) \<longrightarrow> s = None)" for y
  proof (cases "y = x")
    case True
    obtain u where u: "obj ?h1 x = (obj h x)\<lparr>ln_node_id := u, ln_short_id := None\<rparr>" using one(5) by blast
    show ?thesis
    proof (cases "x \<in> set xs")
      case False
      then have "obj ?h2 x = obj ?h1 x" using Cons.IH [of ?h1] by blast
      then show ?thesis using u True by auto
    next
      case in_xs: True
      obtain v where "obj ?h2 x = (obj ?h1 x)\<lparr>ln_node_id := v, ln_short_id := None\<rparr>" using Cons.IH [of ?h1] in_xs by blast
      then have "obj ?h2 x = (obj h x)\<lparr>ln_node_id := v, ln_short_id := None\<rparr>" by (simp add: u)
      then show ?thesis using True by blast
    qed
  next
    case False
    have "\<exists>u s. obj ?h2 y = (obj ?h1 y)\<lparr>ln_node_id := u, ln_short_id := s\<rparr> \<and> (y \<in> set xs \<longrightarrow> s = None)"
      using Cons.IH [of ?h1] by blast
    then show ?thesis using False by (simp add: one(4))
  qed
  show ?case unfolding re_identify_step using Cons.IH [of ?h1] one(1-4) two by auto
qed

lemma re_identify_ids:
  "distinct xs \<Longrightarrow> inj_on (\<lambda>x. ln_node_id (obj h x)) (set xs) \<Longrightarrow>
   mints_new gen (minted h) (minted (re_identify gen doc xs h)) (table_ids doc \<union> (\<lambda>x. ln_node_id (obj h x)) ` set xs) \<Longrightarrow>
   inj_on (\<lambda>x. ln_node_id (obj (re_identify gen doc xs h) x)) (set xs)
   \<and> (\<lambda>x. ln_node_id (obj (re_identify gen doc xs h) x)) ` set xs
      \<subseteq> ((\<lambda>x. ln_node_id (obj h x)) ` set xs - table_ids doc) \<union> gen ` {minted h..<minted (re_identify gen doc xs h)}"
proof (induction xs arbitrary: h)
  case (Cons x xs)
  let ?h1 = "re_identified gen doc x h" let ?h2 = "re_identify gen doc xs ?h1"
  let ?id = "\<lambda>y. ln_node_id (obj h y)" let ?id2 = "\<lambda>y. ln_node_id (obj ?h2 y)" let ?T = "table_ids doc"
  have mono: "minted h \<le> minted ?h1" "minted ?h1 \<le> minted ?h2"
    using re_identify_shape [of gen doc xs ?h1] by (simp_all add: re_identified_def)
  have same: "ln_node_id (obj ?h1 y) = ?id y" if "y \<in> set xs" for y
    using that Cons.prems(1) by (auto simp: re_identified_def)
  then have img: "(\<lambda>y. ln_node_id (obj ?h1 y)) ` set xs = ?id ` set xs" by (rule image_cong [OF refl])
  have all: "mints_new gen (minted h) (minted ?h2) (?T \<union> ?id ` set (x # xs))" using Cons.prems(3) unfolding re_identify_step .
  have "mints_new gen (minted ?h1) (minted ?h2) (?T \<union> ?id ` set xs)" by (rule mints_new_sub [OF all mono(1)]) auto
  moreover have "inj_on (\<lambda>y. ln_node_id (obj ?h1 y)) (set xs)"
    using Cons.prems(2) same by (simp add: inj_on_def)
  ultimately have ih: "inj_on ?id2 (set xs)" "?id2 ` set xs \<subseteq> (?id ` set xs - ?T) \<union> gen ` {minted ?h1..<minted ?h2}"
    using Cons.IH [of ?h1] Cons.prems(1) unfolding img by simp_all
  have keep: "?id2 x = ln_node_id (obj ?h1 x)" using re_identify_shape [of gen doc xs ?h1] Cons.prems(1) by simp
  let ?F = "{?id x} - ?T"
  have first: "?id2 ` {x} \<subseteq> ?F \<union> gen ` {minted h..<minted ?h1}"
  proof -
    have "ln_node_id (obj ?h1 x) \<in> ?F \<union> gen ` {minted h..<minted ?h1}" by (auto simp: re_identified_def)
    then show ?thesis unfolding keep [symmetric] by simp
  qed
  have "?id x \<notin> ?id ` set xs" using Cons.prems(1,2) by simp
  then have "?F \<inter> (?id ` set xs - ?T) = {}" by blast
  then have apart: "(?F \<union> gen ` {minted h..<minted ?h1}) \<inter> ((?id ` set xs - ?T) \<union> gen ` {minted ?h1..<minted ?h2}) = {}"
    by (intro mints_disjoint [OF all mono]) auto
  have split: "set (x # xs) = {x} \<union> set xs" by simp
  have gap: "gen ` {minted h..<minted ?h1} \<union> gen ` {minted ?h1..<minted ?h2} = gen ` {minted h..<minted ?h2}"
    using mono by (simp add: image_Un [symmetric] ivl_disj_un_two)
  show ?case unfolding re_identify_step
  proof
    show "inj_on ?id2 (set (x # xs))" unfolding split by (rule inj_on_union [OF _ ih(1) first ih(2) apart]) simp
    show "?id2 ` set (x # xs) \<subseteq> (?id ` set (x # xs) - ?T) \<union> gen ` {minted h..<minted ?h2}"
      unfolding split image_Un gap [symmetric] using first ih(2) by blast
  qed
qed simp

section \<open>A fragment is a forest of fresh nodes\<close>

lemma fold_set_parent_next [simp]:
  "next_oid (fold (set_parent q) cs h) = next_oid h" "minted (fold (set_parent q) cs h) = minted h"
  by (induction cs arbitrary: h) (simp_all add: set_parent_def)

lemma unwrap_trees:
  assumes "list_all (linked h None) ts" and "distinct (forest_oids ts)"
  shows "case unwrap kinds (map t_oid ts) h of
      (Inl e, h') \<Rightarrow> e = Engine FormatFragmentParseFailed \<and> h' = h
    | (Inr roots, h') \<Rightarrow> next_oid h' = next_oid h \<and> minted h' = minted h
        \<and> (\<forall>x. x \<notin> set (forest_oids ts) \<longrightarrow> obj h' x = obj h x)
        \<and> (\<forall>x. ln_node_id (obj h' x) = ln_node_id (obj h x))
        \<and> (\<exists>us. roots = map t_oid us \<and> list_all (linked h' None) us \<and> distinct (forest_oids us)
            \<and> set (forest_oids us) \<subseteq> set (forest_oids ts))"
proof (cases "\<exists>r us. ts = [T r us] \<and> ln_kind (obj h r) \<in> set kinds \<and> us \<noteq> []")
  case True
  then obtain r us where ts: "ts = [T r us]" "ln_kind (obj h r) \<in> set kinds" "us \<noteq> []" by blast
  have us: "list_all (linked h (Some r)) us" "ln_children (obj h r) = map t_oid us" "distinct (forest_oids us)"
    using assms by (simp_all add: ts(1))
  let ?h = "fold (set_parent None) (map t_oid us) h"
  have obj: "obj ?h x = (if x \<in> t_oid ` set us then (obj h x)\<lparr>ln_parent := None\<rparr> else obj h x)" for x
    by (simp add: fold_set_parent)
  have "list_all (linked ?h None) us"
    by (rule linked_new_parents [OF _ us(3), of h]) (use us(1) in \<open>auto simp: list_all_iff obj\<close>)
  moreover have "t_oid ` set us \<subseteq> set (forest_oids us)" by (rule roots_in_forest)
  moreover have "set (forest_oids us) \<subseteq> set (forest_oids ts)" by (auto simp: ts(1))
  ultimately have "(\<forall>x. x \<notin> set (forest_oids ts) \<longrightarrow> obj ?h x = obj h x) \<and> (\<forall>x. ln_node_id (obj ?h x) = ln_node_id (obj h x))
      \<and> list_all (linked ?h None) us \<and> set (forest_oids us) \<subseteq> set (forest_oids ts)"
    by (auto simp: obj)
  moreover have "unwrap kinds (map t_oid ts) h = (Inr (map t_oid us), ?h)" using ts us(2) by (simp add: unwrap_def Let_def)
  ultimately show ?thesis using us(3) by (simp del: set_concat) blast
next
  case False
  have stay: "case (Inr (map t_oid ts), h) of
      (Inl e, h') \<Rightarrow> e = Engine FormatFragmentParseFailed \<and> h' = h
    | (Inr roots, h') \<Rightarrow> next_oid h' = next_oid h \<and> minted h' = minted h
        \<and> (\<forall>x. x \<notin> set (forest_oids ts) \<longrightarrow> obj h' x = obj h x)
        \<and> (\<forall>x. ln_node_id (obj h' x) = ln_node_id (obj h x))
        \<and> (\<exists>us. roots = map t_oid us \<and> list_all (linked h' None) us \<and> distinct (forest_oids us)
            \<and> set (forest_oids us) \<subseteq> set (forest_oids ts))"
    using assms by auto
  show ?thesis
  proof (cases "\<exists>r. ts = [T r []] \<and> ln_kind (obj h r) \<in> set kinds")
    case True
    then show ?thesis using assms(1) by (auto simp: unwrap_def)
  next
    case no: False
    have "unwrap kinds (map t_oid ts) h = (Inr (map t_oid ts), h)"
    proof (cases ts)
      case (Cons t us)
      obtain r cs where t: "t = T r cs" by (cases t)
      show ?thesis
      proof (cases us)
        case Nil
        then have "ln_kind (obj h r) \<notin> set kinds" using False no unfolding Cons t by (cases cs) auto
        then show ?thesis by (simp add: Cons t Nil unwrap_def)
      qed (simp add: Cons unwrap_def)
    qed (simp add: unwrap_def)
    then show ?thesis using stay by simp
  qed
qed

text \<open>
  The outcome of \<open>_fragment\<close>: an error, or trees of new objects without parents and short ids, with
  distinct UUIDs unknown to the document.
\<close>

definition fresh_forest :: "tree_document \<Rightarrow> uuid set \<Rightarrow> heap \<Rightarrow> heap \<Rightarrow> otree list \<Rightarrow> bool" where
  "fresh_forest doc ids h h' ts \<longleftrightarrow> list_all (linked h' None) ts \<and> distinct (forest_oids ts)
     \<and> set (forest_oids ts) \<subseteq> {next_oid h..<next_oid h'}
     \<and> inj_on (\<lambda>x. ln_node_id (obj h' x)) (set (forest_oids ts))
     \<and> (\<lambda>x. ln_node_id (obj h' x)) ` set (forest_oids ts) \<subseteq> ids - table_ids doc
     \<and> (\<forall>x \<in> set (forest_oids ts). ln_short_id (obj h' x) = None)"

lemma fragment_outcome:
  assumes "\<And>ns. fp_parse plugin source = Inr (ParsedNodes ns) \<Longrightarrow> distinct (forest_ids ns) \<and> set (forest_ids ns) \<subseteq> S"
    and "\<And>result h'. fragment gen plugin doc source h = Some (result, h') \<Longrightarrow>
      mints_new gen (minted h) (minted h') (table_ids doc \<union> S)"
  shows "\<exists>result h'. fragment gen plugin doc source h = Some (result, h') \<and> next_oid h \<le> next_oid h' \<and> minted h \<le> minted h'
    \<and> minted h' + 2 * next_oid h \<le> minted h + 2 * next_oid h' \<and> (\<forall>x < next_oid h. obj h' x = obj h x)
    \<and> (\<forall>roots. result = Inr roots \<longrightarrow> (\<exists>ts. roots = map t_oid ts
        \<and> fresh_forest doc (S \<union> gen ` {minted h..<minted h'}) h h' ts))"
proof (cases "\<exists>ns. fp_parse plugin source = Inr (ParsedNodes ns)")
  case False
  then show ?thesis by (cases "fp_parse plugin source") (auto simp: fragment_def split: parsed_fragment.splits)
next
  case True
  then obtain ns where ns: "fp_parse plugin source = Inr (ParsedNodes ns)" by blast
  note parsed = assms(1) [OF ns]
  obtain lives h1 where h1: "to_live_list gen ns None h = (lives, h1)" by (cases "to_live_list gen ns None h")
  obtain ts where ts: "map t_oid ts = lives" "list_all2 (mirror h1 None) ts ns" "distinct (forest_oids ts)"
    "set (forest_oids ts) = {next_oid h..<next_oid h1}" "next_oid h \<le> next_oid h1" "\<And>x. x < next_oid h \<Longrightarrow> obj h1 x = obj h x"
    using to_live_list_mirrors [OF h1] by blast
  note mint1 = to_live_list_minted [OF h1]
  have link1: "list_all (linked h1 None) ts" by (rule mirror_linked [OF ts(2)])
  obtain roots h2 where h2: "unwrap (fp_container_kinds plugin) lives h1 = (roots, h2)" by (cases "unwrap (fp_container_kinds plugin) lives h1")
  note un = unwrap_trees [OF link1 ts(3), of "fp_container_kinds plugin", unfolded ts(1) h2]
  have run: "fragment gen plugin doc source h = (case roots of Inl e \<Rightarrow> Some (Inl e, h2)
      | Inr roots \<Rightarrow> map_option (\<lambda>nodes. (Inr roots, re_identify gen doc nodes h2)) (walk_list h2 roots))"
    by (simp add: fragment_def ns h1 h2)
  show ?thesis
  proof (cases roots)
    case (Inl e)
    then show ?thesis using un run ts(5,6) mint1 by auto
  next
    case (Inr os)
    obtain us where us: "os = map t_oid us" "list_all (linked h2 None) us" "distinct (forest_oids us)"
      "set (forest_oids us) \<subseteq> {next_oid h..<next_oid h1}"
      using un unfolding Inr ts(4) [symmetric] by auto
    have keep2: "next_oid h2 = next_oid h1" "minted h2 = minted h1" "\<And>x. x < next_oid h \<Longrightarrow> obj h2 x = obj h1 x"
      "\<And>x. ln_node_id (obj h2 x) = ln_node_id (obj h1 x)"
      using un unfolding Inr by (auto simp del: set_concat simp: ts(4))
    define h3 where "h3 = re_identify gen doc (forest_oids us) h2"
    note shape = re_identify_shape [of gen doc "forest_oids us" h2, folded h3_def]
    have "list_all (shaped h2) us" by (rule linked_shaped [OF us(2)])
    then have frag: "fragment gen plugin doc source h = Some (Inr os, h3)"
      by (simp add: run Inr us(1) walk_forest h3_def)
    have "card (set (forest_oids us)) \<le> card {next_oid h..<next_oid h1}" by (rule card_mono [OF _ us(4)]) simp
    then have len: "length (forest_oids us) \<le> next_oid h1 - next_oid h"
      unfolding distinct_card [OF us(3)] by simp
    have all: "mints_new gen (minted h) (minted h3) (table_ids doc \<union> S)" by (rule assms(2) [OF frag])
    have keep3: "ln_children (obj h3 x) = ln_children (obj h2 x) \<and> ln_parent (obj h3 x) = ln_parent (obj h2 x)" for x
    proof -
      obtain u s where "obj h3 x = (obj h2 x)\<lparr>ln_node_id := u, ln_short_id := s\<rparr>" using shape by blast
      then show ?thesis by simp
    qed
    have link3: "list_all (linked h3 None) us" using linked_cong [OF us(2)] keep3 by blast
    have m12: "minted h \<le> minted h1" "minted h1 \<le> minted h3" using mint1 shape keep2(2) by simp_all
    have "mints_new gen (minted h) (minted h1) (set (forest_ids ns))" by (rule mints_new_sub [OF all]) (use m12 parsed in auto)
    from to_live_list_ids [OF h1 this] parsed
    have ids1: "inj_on (\<lambda>x. ln_node_id (obj h1 x)) {next_oid h..<next_oid h1}"
      "(\<lambda>x. ln_node_id (obj h1 x)) ` {next_oid h..<next_oid h1} \<subseteq> S \<union> gen ` {minted h..<minted h1}" by auto
    let ?id2 = "\<lambda>x. ln_node_id (obj h2 x)" let ?U = "set (forest_oids us)"
    have inj2: "inj_on ?id2 ?U" using inj_on_subset [OF ids1(1) us(4)] by (simp add: keep2(4))
    have img2: "?id2 ` ?U \<subseteq> S \<union> gen ` {minted h..<minted h1}"
      unfolding keep2(4) using image_mono [OF us(4)] ids1(2) by (rule order_trans)
    have "mints_new gen (minted h2) (minted h3) (table_ids doc \<union> ?id2 ` ?U)"
    proof -
      have "gen ` {minted h..<minted h1} \<inter> gen ` {minted h1..<minted h3} = {}"
        using mints_disjoint [OF all m12, of "{}" "{}"] by simp
      moreover have "mints_new gen (minted h1) (minted h3) (table_ids doc \<union> S)" by (rule mints_new_sub [OF all m12(1)]) auto
      ultimately show ?thesis unfolding mints_new_def keep2(2) using images_disjoint [OF img2] by simp
    qed
    from re_identify_ids [OF us(3) inj2 this [unfolded h3_def], folded h3_def]
    have ids3: "inj_on (\<lambda>x. ln_node_id (obj h3 x)) ?U"
      "(\<lambda>x. ln_node_id (obj h3 x)) ` ?U \<subseteq> (?id2 ` ?U - table_ids doc) \<union> gen ` {minted h2..<minted h3}" by blast+
    have gap: "gen ` {minted h..<minted h1} \<union> gen ` {minted h1..<minted h3} = gen ` {minted h..<minted h3}"
      using m12 by (simp add: image_Un [symmetric] ivl_disj_un_two)
    have new: "gen ` {minted h1..<minted h3} \<inter> table_ids doc = {}" "gen ` {minted h..<minted h1} \<inter> table_ids doc = {}"
      by (rule mints_new_outside [OF all m12(1) order.refl], simp) (rule mints_new_outside [OF all order.refl m12(2)], simp)
    have "(\<lambda>x. ln_node_id (obj h3 x)) ` ?U \<subseteq> (S \<union> gen ` {minted h..<minted h3}) - table_ids doc"
      unfolding gap [symmetric] by (rule images_outside [OF ids3(2) [unfolded keep2(2)] img2 new])
    moreover have "ln_short_id (obj h3 x) = None" if "x \<in> ?U" for x
    proof -
      obtain u s where "obj h3 x = (obj h2 x)\<lparr>ln_node_id := u, ln_short_id := s\<rparr>" "x \<in> ?U \<longrightarrow> s = None"
        using spec [OF conjunct2 [OF conjunct2 [OF conjunct2 [OF conjunct2 [OF shape]]]], of x] by (elim exE conjE)
      then show ?thesis using that by simp
    qed
    ultimately have "fresh_forest doc (S \<union> gen ` {minted h..<minted h3}) h h3 us"
      unfolding fresh_forest_def using link3 us(3,4) ids3(1) shape keep2(1) by simp
    moreover have "obj h3 x = obj h x" if "x < next_oid h" for x
    proof -
      have "x \<notin> ?U" using us(4) that by auto
      then show ?thesis using shape keep2(3) [OF that] ts(6) [OF that] by simp
    qed
    moreover have "minted h3 + 2 * next_oid h \<le> minted h + 2 * next_oid h3" "next_oid h \<le> next_oid h3"
      using mint1 shape keep2(1,2) len ts(5) by linarith+
    ultimately show ?thesis using frag us(1) m12 by (intro exI [of _ "Inr os"] exI [of _ h3]) auto
  qed
qed

end
