(* ===== verification/Edits.thy ===== *)
theory Edits
  imports Fragments
begin

text \<open>
  The commands of \<open>facade.py\<close> that bring new source into a document. The document's short id map is the
  allocator that the core preflight is given, and \<open>uuid4()\<close> supplies the ids under which \<open>_next_short_id\<close> allocates.
\<close>

section \<open>The allocator during an operation\<close>

text \<open>An operation of the core reaches the short id map only through the allocator it is given.\<close>

definition facade_preflight :: "(nat \<Rightarrow> uuid) \<Rightarrow> (short_id_map \<times> nat) preflight" where
  "facade_preflight gen = \<lparr>pf_is_type_compatible = None, pf_references = None, pf_loaded_documents = None,
     pf_used_short_ids = None, pf_next_short_id = Some (next_short_id_of gen)\<rparr>"

definition with_allocator ::
  "(short_id_map \<times> nat \<Rightarrow> (('e + 'r) \<times> tree_document \<times> heap \<times> short_id_map \<times> nat) option) \<Rightarrow> tree_document \<Rightarrow> heap \<Rightarrow>
   (('e + 'r) \<times> tree_document \<times> heap) option" where
  "with_allocator run doc h = map_option (\<lambda>(outcome, doc', h', (m, k)).
     (outcome, doc'\<lparr>td_short_id_map := m\<rparr>, h'\<lparr>minted := k\<rparr>)) (run (td_short_id_map doc, minted h))"

text \<open>What the allocator may have done: ids given out under minted UUIDs, all else as it was.\<close>

definition allocator_ran :: "(nat \<Rightarrow> uuid) \<Rightarrow> nat \<Rightarrow> short_id_map \<times> nat \<Rightarrow> short_id_map \<times> nat \<Rightarrow> bool" where
  "allocator_ran gen n = (\<lambda>(m, k) (m', k'). k \<le> k' \<and> k' \<le> k + n \<and> (sid_inv m \<longrightarrow> sid_inv m')
     \<and> (\<forall>u. u \<notin> gen ` {k..<k'} \<longrightarrow> get_short_id m' u = get_short_id m u))"

lemma allocator_ran_refl [simp]: "allocator_ran gen n s s"
  by (cases s) (simp add: allocator_ran_def)

lemma allocator_ran_trans:
  assumes "allocator_ran gen a s s1" and "allocator_ran gen b s1 s2" shows "allocator_ran gen (a + b) s s2"
proof -
  obtain m k m1 k1 m2 k2 where s: "s = (m, k)" "s1 = (m1, k1)" "s2 = (m2, k2)" by (cases s, cases s1, cases s2)
  have le: "k \<le> k1" "k1 \<le> k2" using assms by (simp_all add: s allocator_ran_def)
  have "get_short_id m2 u = get_short_id m u" if "u \<notin> gen ` {k..<k2}" for u
  proof -
    have "u \<notin> gen ` {k..<k1}" "u \<notin> gen ` {k1..<k2}" using that le by (auto simp: image_iff)
    then show ?thesis using assms by (simp add: s allocator_ran_def)
  qed
  then show ?thesis using assms by (simp add: s allocator_ran_def)
qed

lemma allocator_ran_mono: "allocator_ran gen a s s' \<Longrightarrow> a \<le> b \<Longrightarrow> allocator_ran gen b s s'"
  by (auto simp: allocator_ran_def)

lemma allocator_steps: "next_short_id_of gen s = (r, s') \<Longrightarrow> allocator_ran gen 1 s s'"
proof -
  assume step: "next_short_id_of gen s = (r, s')"
  obtain m k where s: "s = (m, k)" by (cases s)
  have "s' = (snd (allocate (gen k) m), Suc k)" using step by (auto simp: s next_short_id_of_def Let_def case_prod_unfold)
  moreover have "u \<noteq> gen k \<Longrightarrow> get_short_id (snd (allocate (gen k) m)) u = get_short_id m u" for u
    by (auto simp: allocate_def get_short_id_def dict_simps Let_def)
  ultimately show ?thesis using allocate_inv by (auto simp: s allocator_ran_def)
qed

lemma plan_loop_ran: "plan_loop h used (Some (next_short_id_of gen)) xs s = (r, s') \<Longrightarrow> allocator_ran gen (length xs) s s'"
proof (induction xs arbitrary: s r s')
  case (Cons x xs)
  show ?case
  proof (cases "needs_short_id h used x")
    case True
    obtain i s1 where one: "next_short_id_of gen s = (i, s1)" by (cases "next_short_id_of gen s")
    obtain r2 s2 where rest: "plan_loop h used (Some (next_short_id_of gen)) xs s1 = (r2, s2)"
      by (cases "plan_loop h used (Some (next_short_id_of gen)) xs s1")
    have "s' = s1 \<or> s' = s2" using Cons.prems True one rest by (auto simp: plan_step split: sum.splits)
    then show ?thesis
      using allocator_steps [OF one] allocator_ran_trans [OF allocator_steps [OF one] Cons.IH [OF rest]]
      by (auto intro: allocator_ran_mono)
  next
    case False
    then have "allocator_ran gen (length xs) s s'" using Cons.IH [of s r s'] Cons.prems by (simp add: plan_step)
    then show ?thesis by (rule allocator_ran_mono) simp
  qed
qed simp

lemma validate_ran:
  assumes "validate_mutation doc (t_oid t) parent position index pf h s = Some (r, s')" and "shaped h t"
    and "pf_next_short_id pf = Some (next_short_id_of gen)"
  shows "allocator_ran gen (length (oids t)) s s'"
  using assms(1,3)
  by (auto simp: validate_mutation_def iter_fragment_tree [OF assms(2)] bind_eq_Some_conv Let_def
      split: if_splits prod.splits sum.splits dest: plan_loop_ran)

lemma preflight_all_ran:
  "preflight_all doc (map t_oid rs) p position start pf h s = Some (r, s') \<Longrightarrow> list_all (shaped h) rs \<Longrightarrow>
   pf_next_short_id pf = Some (next_short_id_of gen) \<Longrightarrow> allocator_ran gen (length (forest_oids rs)) s s'"
proof (induction rs arbitrary: s r s')
  case (Cons x rs)
  obtain v s1 where v: "validate_mutation doc (t_oid x) (Some p) (Some position) (IntIndex (int start)) pf h s = Some (v, s1)"
    using Cons.prems(1) by (auto simp: bind_eq_Some_conv)
  have "s' = s1 \<or> (\<exists>r2. preflight_all doc (map t_oid rs) p position start pf h s1 = Some (r2, s'))"
    using Cons.prems(1) v by (auto split: sum.splits)
  moreover have one: "allocator_ran gen (length (oids x)) s s1" by (rule validate_ran [OF v]) (use Cons.prems(2,3) in simp_all)
  moreover have "allocator_ran gen (length (forest_oids rs)) s1 s'"
    if "preflight_all doc (map t_oid rs) p position start pf h s1 = Some (r2, s')" for r2
    by (rule Cons.IH [OF that]) (use Cons.prems(2,3) in simp_all)
  ultimately show ?case using allocator_ran_trans [OF one, of _ s'] allocator_ran_mono [OF one] by fastforce
qed simp

section \<open>What an operation of the core leaves alone\<close>

definition content_kept :: "heap \<Rightarrow> heap \<Rightarrow> bool" where
  "content_kept h h' \<longleftrightarrow> next_oid h' = next_oid h \<and> minted h' = minted h
     \<and> (\<forall>x. ln_node_id (obj h' x) = ln_node_id (obj h x) \<and> ln_fields (obj h' x) = ln_fields (obj h x))"

definition header_kept :: "tree_document \<Rightarrow> tree_document \<Rightarrow> bool" where
  "header_kept doc doc' \<longleftrightarrow> td_document_version doc' = td_document_version doc \<and> td_document_id doc' = td_document_id doc
     \<and> td_short_id_map doc' = td_short_id_map doc"

lemma content_kept_refl [simp]: "content_kept h h" by (simp add: content_kept_def)

lemma content_kept_trans: "content_kept h h1 \<Longrightarrow> content_kept h1 h2 \<Longrightarrow> content_kept h h2"
  by (simp add: content_kept_def)

lemma header_kept_simps [simp]:
  "header_kept doc doc" "header_kept doc (register_fragment h ns doc')  \<longleftrightarrow> header_kept doc doc'"
  by (simp_all add: header_kept_def)

lemma content_kept_put:
  "ln_node_id n = ln_node_id (obj h x) \<Longrightarrow> ln_fields n = ln_fields (obj h x) \<Longrightarrow> content_kept h (put x n h)"
  by (simp add: content_kept_def)

lemma content_kept_links [simp]:
  "content_kept h (set_parent p x h')  \<longleftrightarrow> content_kept h h'" "content_kept h (set_children x cs h') \<longleftrightarrow> content_kept h h'"
  by (auto simp: content_kept_def set_parent_def set_children_def)

lemma content_kept_fold [simp]: "content_kept h (fold (set_parent p) xs h') \<longleftrightarrow> content_kept h h'"
  by (induction xs arbitrary: h') simp_all

lemma content_kept_plan [simp]: "content_kept h (apply_short_id_plan ns plan h)"
proof -
  have "content_kept h (fold (\<lambda>e h. case dict_get d (sr_node_id e) of None \<Rightarrow> h
      | Some x \<Rightarrow> put x ((obj h x)\<lparr>ln_short_id := sr_new_short_id e\<rparr>) h) plan h)" for d :: "(uuid, oid) pydict"
  proof (induction plan arbitrary: h)
    case (Cons e plan)
    show ?case
      by (cases "dict_get d (sr_node_id e)") (auto intro: content_kept_trans [OF content_kept_put Cons] Cons)
  qed simp
  then show ?thesis by (simp add: apply_short_id_plan_def)
qed

lemma unregister_all_kept:
  "unregister_all xs (doc, h) = Some (doc', h') \<Longrightarrow> header_kept doc doc' \<and> content_kept h h'"
proof (induction xs arbitrary: doc h)
  case (Cons x xs)
  then obtain ns where ns: "unregister_all xs (fold (unregister_node h) ns doc, set_parent None x h) = Some (doc', h')"
    by (auto simp: unregister_subtree_def bind_eq_Some_conv)
  show ?case using Cons.IH [OF ns] content_kept_trans [of h "set_parent None x h" h'] by (simp add: header_kept_def)
qed simp

lemma insert_node_kept:
  assumes "insert_node doc (t_oid new) position parent sibling index pf h s = Some (r, doc', h', s')" and "shaped h new"
    and "pf_next_short_id pf = Some (next_short_id_of gen)"
  shows "header_kept doc doc' \<and> content_kept h h' \<and> allocator_ran gen (length (oids new)) s s'"
proof (cases "insert_point doc h position parent sibling index")
  case (Inl c)
  then show ?thesis using assms(1) by (simp add: insert_node_def)
next
  case (Inr q)
  obtain p i where q: "q = (p, i)" by (cases q)
  obtain v s1 where v: "validate_mutation doc (t_oid new) (Some p) (Some position) index pf h s = Some (v, s1)"
    using assms(1) Inr q by (auto simp: insert_node_def bind_eq_Some_conv)
  have "s' = s1 \<and> header_kept doc doc' \<and> content_kept h h'"
    using assms(1) by (auto simp: insert_node_def Inr q v Let_def split: sum.splits if_splits)
  then show ?thesis using validate_ran [OF v assms(2,3)] by simp
qed

lemma replace_range_kept:
  assumes "replace_range doc targets (map t_oid new) pf h s = Some (r, doc', h', s')" and "list_all (shaped h) new"
    and "pf_next_short_id pf = Some (next_short_id_of gen)"
  shows "header_kept doc doc' \<and> content_kept h h' \<and> allocator_ran gen (length (forest_oids new)) s s'"
proof (cases "resolve_contiguous_range doc h targets")
  case (Inl c)
  then show ?thesis using assms(1) by (simp add: replace_range_def)
next
  case (Inr q)
  obtain resolved p start stop where q: "q = (resolved, p, start, stop)" by (cases q)
  note run = assms(1) [unfolded replace_range_def Inr q fragments_of_forest [OF assms(2)], simplified]
  show ?thesis
  proof (cases "\<exists>v s1. distinct (map (\<lambda>x. ln_node_id (obj h x)) (forest_oids new))
      \<and> new \<noteq> [] \<and> preflight_all doc (map t_oid new) p ''child_index'' start pf h s = Some (v, s1)")
    case False
    then have "doc' = doc \<and> h' = h \<and> s' = s" using run by (auto simp: bind_eq_Some_conv split: if_splits)
    then show ?thesis by simp
  next
    case True
    then obtain v s1 where v: "distinct (map (\<lambda>x. ln_node_id (obj h x)) (forest_oids new))"
      "new \<noteq> []" "preflight_all doc (map t_oid new) p ''child_index'' start pf h s = Some (v, s1)" by blast
    have ran: "allocator_ran gen (length (forest_oids new)) s s1" by (rule preflight_all_ran [OF v(3) assms(2,3)])
    show ?thesis
    proof (cases "\<exists>plan. v = Inr ([], plan)")
      case False
      then have "doc' = doc \<and> h' = h \<and> s' = s1" using run v by (cases v) (auto split: if_splits)
      then show ?thesis using ran by simp
    next
      case True
      then obtain plan where plan: "v = Inr ([], plan)" by blast
      let ?h2 = "fold (set_parent (Some p)) (map t_oid new) (apply_short_id_plan (forest_oids new) plan h)"
      let ?h3 = "set_children p (take start (ln_children (obj ?h2 p)) @ map t_oid new @ drop stop (ln_children (obj ?h2 p))) ?h2"
      obtain doc1 where doc1: "unregister_all resolved (doc, ?h3) = Some (doc1, h')" "doc' = register_fragment h' (forest_oids new) doc1" "s' = s1"
        using run v plan by (auto simp: Let_def simp del: map_concat)
      have "content_kept h ?h3" by simp
      then show ?thesis
        using unregister_all_kept [OF doc1(1)] ran content_kept_trans [of h ?h3 h'] by (simp add: doc1(2,3))
    qed
  qed
qed

section \<open>A fragment ready for the core\<close>

definition parsed_ids :: "fragment_plugin \<Rightarrow> string \<Rightarrow> uuid list" where
  "parsed_ids plugin source = (case fp_parse plugin source of Inr (ParsedNodes ns) \<Rightarrow> forest_ids ns | _ \<Rightarrow> [])"

definition document_uuids :: "tree_document \<Rightarrow> uuid set" where
  "document_uuids doc = {u. dict_has (td_nodes_by_id doc) u \<or> get_short_id (td_short_id_map doc) u \<noteq> None}"

text \<open>
  What the commands assume of \<open>uuid4()\<close> and of the parser: the ids minted during the call are distinct
  version 4 UUIDs unknown to the document and the fragment, and the parser gives no two nodes one id.
\<close>

definition ids_supplied :: "(nat \<Rightarrow> uuid) \<Rightarrow> fragment_plugin \<Rightarrow> string \<Rightarrow> tree_document \<Rightarrow> heap \<Rightarrow> bool" where
  "ids_supplied gen plugin source doc h \<longleftrightarrow> distinct (parsed_ids plugin source)
     \<and> (case fragment gen plugin doc source h of None \<Rightarrow> True
        | Some (_, h1) \<Rightarrow> let last = minted h1 + (next_oid h1 - next_oid h)
            in mints_new gen (minted h) last (document_uuids doc \<union> set (parsed_ids plugin source))
               \<and> (\<forall>j \<in> {minted h..<last}. is_uuid4 (gen j)))"

text \<open>The document and the heap in which a core operation starts, with the fragment's trees.\<close>

definition ready :: "(nat \<Rightarrow> uuid) \<Rightarrow> tree_document \<Rightarrow> heap \<Rightarrow> otree \<Rightarrow> otree list \<Rightarrow> bool" where
  "ready gen doc h t ts \<longleftrightarrow> loaded doc h t \<and> incoming_ok doc h [] (td_short_id_map doc) ts \<and> index_issued doc (td_short_id_map doc)
     \<and> fresh_stream gen (length (forest_oids ts)) (td_short_id_map doc, minted h)
     \<and> (\<forall>j \<in> {minted h..<minted h + length (forest_oids ts)}. gen j \<notin> document_uuids doc \<union> (\<lambda>x. ln_node_id (obj h x)) ` set (forest_oids ts))
     \<and> set (oids t) \<inter> set (forest_oids ts) = {} \<and> (\<forall>x \<in> set (oids t) \<union> set (forest_oids ts). x < next_oid h)
     \<and> (\<forall>x \<in> set (forest_oids ts). ln_short_id (obj h x) = None \<and> \<not> dict_has (td_nodes_by_id doc) (ln_node_id (obj h x)))"

lemma loaded_frame:
  assumes "loaded doc h t" and "\<And>x. x \<in> set (oids t) \<Longrightarrow> obj h' x = obj h x"
  shows "loaded doc h' t"
proof -
  have l: "linked h None t" "doc_indexed doc h t" using assms(1) by (simp_all add: loaded_def)
  have "linked h' None t" by (rule linked_tree_cong [OF l(1)]) (simp add: assms(2))
  moreover have "map_option (\<lambda>p. ln_node_id (obj h' p)) (ln_parent (obj h' x))
      = map_option (\<lambda>p. ln_node_id (obj h p)) (ln_parent (obj h x))" if "x \<in> set (oids t)" for x
    using parent_in_tree [OF l(1) that] assms(2) that by (cases "ln_parent (obj h x)") auto
  then have "doc_indexed doc h' t" using l(2) unfolding doc_indexed_def by (simp add: assms(2) cong: map_cong)
  ultimately show ?thesis by (simp add: loaded_def)
qed

lemma loaded_issued: "loaded doc h t \<Longrightarrow> index_issued doc (td_short_id_map doc)"
proof -
  assume l: "loaded doc h t"
  have "the (ln_short_id (obj h x)) < next_short_id (td_short_id_map doc)" if "x \<in> set (oids t)" for x
  proof -
    have "ln_short_id (obj h x) \<noteq> None" "get_short_id (td_short_id_map doc) (ln_node_id (obj h x)) = ln_short_id (obj h x)"
      "sid_inv (td_short_id_map doc)"
      using l that unfolding loaded_def doc_indexed_def by blast+
    then show ?thesis using sid.ident_bound by (metis option.exhaust_sel)
  qed
  then show ?thesis using l by (auto simp: index_issued_def loaded_def doc_indexed_def list_all_iff)
qed

lemma fragment_ready:
  assumes "loaded doc h t" and "set (oids t) \<subseteq> {..<next_oid h}" and "ids_supplied gen plugin source doc h"
  shows "\<exists>result h1. fragment gen plugin doc source h = Some (result, h1) \<and> next_oid h \<le> next_oid h1
    \<and> (\<forall>x < next_oid h. obj h1 x = obj h x)
    \<and> (\<forall>roots. result = Inr roots \<longrightarrow> (\<exists>ts. roots = map t_oid ts \<and> ready gen doc h1 t ts
        \<and> set (forest_oids ts) \<subseteq> {next_oid h..<next_oid h1}
        \<and> ((\<forall>u \<in> set (parsed_ids plugin source). is_uuid4 u) \<longrightarrow> (\<forall>x \<in> set (forest_oids ts). is_uuid4 (ln_node_id (obj h1 x))))))"
proof -
  let ?P = "set (parsed_ids plugin source)"
  have parsed: "distinct (forest_ids ns) \<and> set (forest_ids ns) \<subseteq> ?P" if "fp_parse plugin source = Inr (ParsedNodes ns)" for ns
    using assms(3) that by (simp add: ids_supplied_def parsed_ids_def)
  have tables: "table_ids doc \<union> ?P \<subseteq> document_uuids doc \<union> ?P" by (auto simp: document_uuids_def)
  have minting: "mints_new gen (minted h) (minted h1 + (next_oid h1 - next_oid h)) (document_uuids doc \<union> ?P)
      \<and> (\<forall>j \<in> {minted h..<minted h1 + (next_oid h1 - next_oid h)}. is_uuid4 (gen j))"
    if "fragment gen plugin doc source h = Some (result, h1)" for result h1
    using assms(3) that by (simp add: ids_supplied_def Let_def)
  have mints: "mints_new gen (minted h) (minted h1) (table_ids doc \<union> ?P)"
    if "fragment gen plugin doc source h = Some (result, h1)" for result h1
    by (rule mints_new_sub [OF conjunct1 [OF minting [OF that]] order_refl _ tables]) simp
  obtain result h1 where frag: "fragment gen plugin doc source h = Some (result, h1)" "next_oid h \<le> next_oid h1" "minted h \<le> minted h1"
    "\<forall>x < next_oid h. obj h1 x = obj h x"
    "\<forall>roots. result = Inr roots \<longrightarrow> (\<exists>ts. roots = map t_oid ts \<and> fresh_forest doc (?P \<union> gen ` {minted h..<minted h1}) h h1 ts)"
  proof -
    have "\<exists>result h1. fragment gen plugin doc source h = Some (result, h1) \<and> next_oid h \<le> next_oid h1 \<and> minted h \<le> minted h1
      \<and> minted h1 + 2 * next_oid h \<le> minted h + 2 * next_oid h1 \<and> (\<forall>x < next_oid h. obj h1 x = obj h x)
      \<and> (\<forall>roots. result = Inr roots \<longrightarrow> (\<exists>ts. roots = map t_oid ts \<and> fresh_forest doc (?P \<union> gen ` {minted h..<minted h1}) h h1 ts))"
      by (rule fragment_outcome) (erule parsed, erule mints)
    then show ?thesis by (elim exE conjE) (rule that)
  qed
  have "\<exists>ts. roots = map t_oid ts \<and> ready gen doc h1 t ts \<and> set (forest_oids ts) \<subseteq> {next_oid h..<next_oid h1}
      \<and> ((\<forall>u \<in> ?P. is_uuid4 u) \<longrightarrow> (\<forall>x \<in> set (forest_oids ts). is_uuid4 (ln_node_id (obj h1 x))))"
    if roots: "result = Inr roots" for roots
  proof -
    obtain ts where ts: "roots = map t_oid ts" "fresh_forest doc (?P \<union> gen ` {minted h..<minted h1}) h h1 ts" using frag(5) roots by blast
    note f = ts(2) [unfolded fresh_forest_def]
    let ?N = "forest_oids ts" let ?id = "\<lambda>x. ln_node_id (obj h1 x)"
    have N: "list_all (linked h1 None) ts" "distinct ?N" "set ?N \<subseteq> {next_oid h..<next_oid h1}" "inj_on ?id (set ?N)"
      "?id ` set ?N \<subseteq> ?P \<union> gen ` {minted h..<minted h1} - table_ids doc" "\<forall>x \<in> set ?N. ln_short_id (obj h1 x) = None"
      using f by blast+
    have "card (set ?N) \<le> card {next_oid h..<next_oid h1}" by (rule card_mono [OF _ N(3)]) simp
    then have len: "length ?N \<le> next_oid h1 - next_oid h" unfolding distinct_card [OF N(2)] by simp
    let ?last = "minted h1 + (next_oid h1 - next_oid h)"
    have all: "mints_new gen (minted h) ?last (document_uuids doc \<union> ?P)" "\<forall>j \<in> {minted h..<?last}. is_uuid4 (gen j)"
      using minting [OF frag(1)] by blast+
    have load: "loaded doc h1 t" by (rule loaded_frame [OF assms(1)]) (use assms(2) frag(4) in auto)
    have sid: "sid_inv (td_short_id_map doc)" using load by (simp add: loaded_def doc_indexed_def)
    have inj: "inj_on gen {minted h..<?last}" using all(1) by (simp add: mints_new_def)
    have known: "gen j \<notin> document_uuids doc \<union> ?P" if "j \<in> {minted h..<?last}" for j
      using all(1) that unfolding mints_new_def by blast
    have late: "gen j \<notin> ?id ` set ?N" if j: "j \<in> {minted h1..<?last}" for j
    proof
      assume "gen j \<in> ?id ` set ?N"
      then have "gen j \<in> ?P \<union> gen ` {minted h..<minted h1}" using N(5) by blast
      moreover have "gen j \<notin> ?P" using known [of j] j frag(3) by auto
      ultimately obtain i where "i \<in> {minted h..<minted h1}" "gen j = gen i" by blast
      then show False using inj_onD [OF inj, of j i] j frag(3) by auto
    qed
    have stream: "fresh_stream gen (length ?N) (td_short_id_map doc, minted h1)"
    proof -
      have "inj_on gen {minted h1..<minted h1 + length ?N}" by (rule inj_on_subset [OF inj]) (use len frag(3) in auto)
      moreover have "get_short_id (td_short_id_map doc) (gen j) = None" if "j \<in> {minted h1..<minted h1 + length ?N}" for j
        using known [of j] that len frag(3) by (auto simp: document_uuids_def)
      ultimately show ?thesis using sid by (simp add: fresh_stream_def)
    qed
    have incoming: "incoming_ok doc h1 [] (td_short_id_map doc) ts"
      using N(1,2,4,6) unfolding incoming_ok_def by (auto simp: list_all_iff simp del: set_concat)
    have "set (oids t) \<inter> set ?N = {}" using assms(2) N(3) by fastforce
    moreover have "\<forall>x \<in> set (oids t) \<union> set ?N. x < next_oid h1" using assms(2) N(3) frag(2) by fastforce
    moreover have "\<forall>j \<in> {minted h1..<minted h1 + length ?N}. gen j \<notin> document_uuids doc \<union> ?id ` set ?N"
    proof
      fix j assume "j \<in> {minted h1..<minted h1 + length ?N}"
      then have "j \<in> {minted h1..<?last}" "j \<in> {minted h..<?last}" using len frag(3) by auto
      then show "gen j \<notin> document_uuids doc \<union> ?id ` set ?N" using known [of j] late [of j] by simp
    qed
    moreover have "\<forall>x \<in> set ?N. ln_short_id (obj h1 x) = None \<and> \<not> dict_has (td_nodes_by_id doc) (?id x)" using N(5,6) by blast
    ultimately have "ready gen doc h1 t ts"
      using load incoming loaded_issued [OF load] stream unfolding ready_def by blast
    moreover have "is_uuid4 (?id x)" if "\<forall>u \<in> ?P. is_uuid4 u" "x \<in> set ?N" for x
    proof -
      have "?id x \<in> ?P \<union> gen ` {minted h..<minted h1}" using N(5) that(2) by blast
      then show ?thesis using that(1) all(2) frag(3) by auto
    qed
    ultimately show ?thesis using ts(1) N(3) by blast
  qed
  then show ?thesis using frag(1,2,4) by blast
qed

section \<open>Committing an edit\<close>

definition facade_replace ::
  "(nat \<Rightarrow> uuid) \<Rightarrow> plugin_reference option \<Rightarrow> fragment_plugin \<Rightarrow> raw_address list \<Rightarrow> string \<Rightarrow> int option \<Rightarrow> mutation_result command" where
  "facade_replace gen reference plugin targets source expected = operation expected INVALID_POSITION (\<lambda>doc h.
     case address_nodes reference doc h targets of
       Inl e \<Rightarrow> Some (Inl e, doc, h)
     | Inr resolved \<Rightarrow>
         Option.bind (fragment gen plugin doc source h) (\<lambda>(parsed, h1).
           case (parsed, resolved) of
             (Inl e, _) \<Rightarrow> Some (Inl e, doc, h1)
           | (Inr incoming, []) \<Rightarrow> Some (Inl builtin_error, doc, h1)
           | (Inr incoming, x # _) \<Rightarrow>
               Option.bind (with_allocator (replace_range doc (map NodeRef resolved) incoming (facade_preflight gen) h1) doc h1)
                 (\<lambda>(outcome, doc2, h2). commit_after outcome [ln_parent (obj h1 x)] doc2 h2)))"

text \<open>What a commit after an edit of a ready document gives.\<close>

definition edited :: "tree_document \<Rightarrow> heap \<Rightarrow> otree \<Rightarrow> tree_document \<Rightarrow> heap \<Rightarrow> otree \<Rightarrow> short_id_reassignment list \<Rightarrow> bool" where
  "edited doc h t doc' h' t' remap \<longleftrightarrow> loaded doc' h' t' \<and> td_document_version doc' = td_document_version doc + 1
     \<and> (\<forall>x \<in> set (oids t'). x < next_oid h' \<and> (x \<in> set (oids t) \<longrightarrow>
          ln_node_id (obj h' x) = ln_node_id (obj h x) \<and> ln_short_id (obj h' x) = ln_short_id (obj h x)))
     \<and> (\<forall>e \<in> set remap. \<exists>s. sr_new_short_id e = Some s \<and> (\<forall>x \<in> set (oids t'). ln_short_id (obj h' x) \<noteq> Some s))"

lemma tracks_cong:
  assumes "tracks doc h t" and "\<And>x. obj h' x = obj h x" and "td_root doc' = td_root doc"
    and "td_nodes_by_id doc' = td_nodes_by_id doc" and "td_short_id_index doc' = td_short_id_index doc"
  shows "tracks doc' h' t"
proof -
  note t = tracksD [OF assms(1)]
  have "linked h' None t" by (rule linked_tree_cong [OF t(1)]) (simp add: assms(2))
  moreover have "table_ok doc' h' (set (oids t))" using t(4) by (simp add: table_ok_def assms)
  ultimately show ?thesis using t by (simp add: tracks_def assms(3))
qed

lemma known_short_id:
  assumes "loaded doc h t" and "x \<in> set (oids t)"
  shows "get_short_id (td_short_id_map doc) (ln_node_id (obj h x)) = ln_short_id (obj h x)" "ln_short_id (obj h x) \<noteq> None"
    and "ln_node_id (obj h x) \<in> document_uuids doc" "\<And>s. ln_short_id (obj h x) = Some s \<Longrightarrow> s < next_short_id (td_short_id_map doc)"
proof -
  show eq: "get_short_id (td_short_id_map doc) (ln_node_id (obj h x)) = ln_short_id (obj h x)" and ne: "ln_short_id (obj h x) \<noteq> None"
    using assms by (auto simp: loaded_def doc_indexed_def)
  then show "ln_node_id (obj h x) \<in> document_uuids doc" by (simp add: document_uuids_def)
  have "sid_inv (td_short_id_map doc)" using assms by (simp add: loaded_def doc_indexed_def)
  then show "\<And>s. ln_short_id (obj h x) = Some s \<Longrightarrow> s < next_short_id (td_short_id_map doc)"
    using sid.ident_bound eq by metis
qed

lemma edit_commits:
  assumes "ready gen doc h t ts" and "tracks doc2 h2 t'" and "p \<in> set (oids t')" and "set (oids t') \<subseteq> set (oids t) \<union> set (forest_oids ts)"
    and "header_kept doc doc2" and "content_kept h h2"
    and "allocator_ran gen (length (forest_oids ts)) (td_short_id_map doc, minted h) (m, k)"
    and "\<forall>e \<in> set remap. \<exists>s. sr_new_short_id e = Some s \<and> next_short_id (td_short_id_map doc) \<le> s \<and> s < next_short_id m"
    and "sync_fields (Some p) h \<noteq> None"
  shows "\<exists>doc' h'. committed [Some p] (doc2\<lparr>td_short_id_map := m\<rparr>) (h2\<lparr>minted := k\<rparr>) = Some (Inr (), doc', h')
    \<and> edited doc h t doc' h' t' remap"
proof -
  let ?m = "td_short_id_map doc"
  let ?doc = "doc2\<lparr>td_short_id_map := m\<rparr>" let ?h = "h2\<lparr>minted := k\<rparr>"
  have load: "loaded doc h t" using assms(1) by (simp add: ready_def)
  have sid: "sid_inv ?m" using load by (simp add: loaded_def doc_indexed_def)
  have m: "sid_inv m" "\<And>u. u \<notin> gen ` {minted h..<k} \<Longrightarrow> get_short_id m u = get_short_id ?m u" "k \<le> minted h + length (forest_oids ts)"
    using assms(7) sid by (simp_all add: allocator_ran_def)
  have same: "ln_node_id (obj h2 x) = ln_node_id (obj h x)" "ln_fields (obj h2 x) = ln_fields (obj h x)" "next_oid h2 = next_oid h" for x
    using assms(6) by (simp_all add: content_kept_def)
  have tr: "tracks ?doc ?h t'" by (rule tracks_cong [OF assms(2)]) simp_all
  have "sync_fields (Some p) ?h \<noteq> None" using assms(9) unfolding sync_fields_refuses by (simp add: same)
  then obtain h3 where h3: "sync_fields (Some p) ?h = Some h3" by blast
  obtain doc' h' where com: "committed [Some p] ?doc ?h = Some (Inr (), doc', h')" "loaded doc' h' t'"
    "td_document_version doc' = td_document_version ?doc + 1" "next_oid h' = next_oid ?h"
    "\<forall>x. ln_node_id (obj h' x) = ln_node_id (obj ?h x)"
    "\<forall>x \<in> set (oids t'). case get_short_id (td_short_id_map ?doc) (ln_node_id (obj ?h x)) of
          Some s \<Rightarrow> ln_short_id (obj h' x) = Some s
        | None \<Rightarrow> \<exists>s. ln_short_id (obj h' x) = Some s \<and> next_short_id (td_short_id_map ?doc) \<le> s"
    using committed_loads [OF tr assms(3) _ h3] m(1) by auto
  have short: "(\<exists>s. get_short_id ?m (ln_node_id (obj h x)) = Some s \<and> ln_short_id (obj h' x) = Some s)
      \<or> (get_short_id ?m (ln_node_id (obj h x)) = None \<and> (\<exists>s. ln_short_id (obj h' x) = Some s \<and> next_short_id m \<le> s))"
    if x: "x \<in> set (oids t')" for x
  proof -
    have "ln_node_id (obj h x) \<notin> gen ` {minted h..<k}"
    proof
      assume "ln_node_id (obj h x) \<in> gen ` {minted h..<k}"
      then obtain j where j: "j \<in> {minted h..<k}" "ln_node_id (obj h x) = gen j" by blast
      then have "gen j \<notin> document_uuids doc \<union> (\<lambda>x. ln_node_id (obj h x)) ` set (forest_oids ts)"
        using assms(1) m(3) unfolding ready_def by simp
      moreover have "ln_node_id (obj h x) \<in> document_uuids doc \<union> (\<lambda>x. ln_node_id (obj h x)) ` set (forest_oids ts)"
        using known_short_id(3) [OF load] assms(4) x by blast
      ultimately show False using j(2) by simp
    qed
    then have "get_short_id m (ln_node_id (obj h x)) = get_short_id ?m (ln_node_id (obj h x))" by (rule m(2))
    then show ?thesis using bspec [OF com(6) x] by (auto simp: same split: option.splits)
  qed
  have "x < next_oid h'" if "x \<in> set (oids t')" for x
    using assms(1,4) that unfolding ready_def com(4) by (auto simp: same simp del: set_concat)
  moreover have "ln_node_id (obj h' x) = ln_node_id (obj h x) \<and> ln_short_id (obj h' x) = ln_short_id (obj h x)"
    if "x \<in> set (oids t')" "x \<in> set (oids t)" for x
    using short [OF that(1)] known_short_id(1,2) [OF load that(2)] com(5) by (auto simp: same)
  moreover have "ln_short_id (obj h' x) \<noteq> Some s"
    if "x \<in> set (oids t')" "next_short_id ?m \<le> s" "s < next_short_id m" for x s
    using short [OF that(1)] sid.ident_bound [OF sid] that(2,3) by fastforce
  moreover have "td_document_version doc' = td_document_version doc + 1" using com(3) assms(5) by (simp add: header_kept_def)
  ultimately have "edited doc h t doc' h' t' remap" using com(2) assms(8) unfolding edited_def by blast
  with com(1) show ?thesis by blast
qed

text \<open>The commit, with its one way to fail.\<close>

lemma edit_outcome:
  assumes "ready gen doc h t ts" and "tracks doc2 h2 t'" and "p \<in> set (oids t')" and "set (oids t') \<subseteq> set (oids t) \<union> set (forest_oids ts)"
    and "header_kept doc doc2" and "content_kept h h2"
    and "allocator_ran gen (length (forest_oids ts)) (td_short_id_map doc, minted h) (m, k)"
    and "\<forall>e \<in> set remap. \<exists>s. sr_new_short_id e = Some s \<and> next_short_id (td_short_id_map doc) \<le> s \<and> s < next_short_id m"
  shows "\<exists>result doc' h'. commit_after (Inr r) [Some p] (doc2\<lparr>td_short_id_map := m\<rparr>) (h2\<lparr>minted := k\<rparr>) = Some (result, doc', h')
    \<and> (case result of
         Inl e \<Rightarrow> e = node_schema_error INVALID_PARENT_TYPE \<and> sync_fields (Some p) h = None \<and> tracks doc' h' t'
           \<and> td_document_version doc' = td_document_version doc
       | Inr r' \<Rightarrow> r' = r \<and> edited doc h t doc' h' t' remap)"
proof (cases "sync_fields (Some p) h")
  case None
  then have "sync_fields (Some p) (h2\<lparr>minted := k\<rparr>) = None"
    using assms(6) by (simp add: sync_fields_refuses content_kept_def)
  moreover have "tracks (doc2\<lparr>td_short_id_map := m\<rparr>) (h2\<lparr>minted := k\<rparr>) t'" by (rule tracks_cong [OF assms(2)]) simp_all
  moreover have "td_document_version doc2 = td_document_version doc" using assms(5) by (simp add: header_kept_def)
  ultimately show ?thesis using None by (simp add: commit_after_def committed_def)
next
  case (Some h3)
  then have "sync_fields (Some p) h \<noteq> None" by simp
  from edit_commits [OF assms this] show ?thesis by (auto simp: commit_after_def)
qed

section \<open>Replacement\<close>

text \<open>With the facade's arguments the preflight can only object to an id that is not a UUID4, or to the position.\<close>

lemma facade_accepts:
  assumes "tracks doc h t" and "set os \<subseteq> set (oids t)" and "\<forall>x \<in> set (oids r). \<not> dict_has (td_nodes_by_id doc) (ln_node_id (obj h x))"
    and "violated doc h r os (Some p) (Some position) index (facade_preflight gen) c"
  shows "(\<exists>x \<in> set (oids r). \<not> is_uuid4 (ln_node_id (obj h x))) \<or> \<not> position_ok (Some position) index"
proof -
  have "dict_has (td_nodes_by_id doc) (ln_node_id (obj h a))" if "a \<in> set (oids t)" for a
    using table_ok_get [OF tracksD(4) [OF assms(1)], of "ln_node_id (obj h a)" a] that by simp
  then have apart: "\<forall>a \<in> set os. \<forall>x \<in> set (oids r). ln_node_id (obj h a) \<noteq> ln_node_id (obj h x)"
    using assms(2,3) by (metis subsetD)
  show ?thesis
    using assms(3,4) apart unfolding violated_def by (auto simp: facade_preflight_def)
qed

lemma ready_accepts:
  assumes "ready gen doc h t ts" and "r \<in> set ts" and "set os \<subseteq> set (oids t)"
    and "violated doc h r os (Some p) (Some position) index (facade_preflight gen) c"
  shows "(\<exists>x \<in> set (forest_oids ts). \<not> is_uuid4 (ln_node_id (obj h x))) \<or> \<not> position_ok (Some position) index"
proof -
  have sub: "set (oids r) \<subseteq> set (forest_oids ts)" using assms(2) by auto
  have "\<forall>x \<in> set (oids r). \<not> dict_has (td_nodes_by_id doc) (ln_node_id (obj h x))"
    using assms(1) sub unfolding ready_def by (meson subsetD)
  moreover have "loaded doc h t" using assms(1) by (simp add: ready_def)
  ultimately show ?thesis using facade_accepts [OF loaded_tracks assms(3) _ assms(4)] sub by (meson subsetD)
qed

lemma range_cong:
  assumes "tracks doc h t" and "tracks doc h' t" and "\<And>x. x \<in> set (oids t) \<Longrightarrow> obj h' x = obj h x" and "set xs \<subseteq> set (oids t)"
  shows "resolve_contiguous_range doc h' (map NodeRef xs) = resolve_contiguous_range doc h (map NodeRef xs)"
proof (cases xs)
  case (Cons x rest)
  note res = resolve_nodes [OF tracksD(4) [OF assms(1)] assms(4)] resolve_nodes [OF tracksD(4) [OF assms(2)] assms(4)]
  have x: "x \<in> set (oids t)" using assms(4) Cons by simp
  have "list_all (\<lambda>y. ln_parent (obj h' y) = q) rest = list_all (\<lambda>y. ln_parent (obj h y) = q) rest" for q
  proof -
    have "ln_parent (obj h' y) = ln_parent (obj h y)" if "y \<in> set rest" for y
      using assms(3) [of y] assms(4) that by (simp add: Cons subset_iff)
    then show ?thesis by (simp add: list_all_iff)
  qed
  moreover have "obj h' p = obj h p" if "ln_parent (obj h x) = Some p" for p
    using parent_in_tree [OF tracksD(1) [OF assms(1)] x that] assms(3) by blast
  ultimately show ?thesis
    unfolding resolve_contiguous_range_def contiguous_range_def res
    by (simp add: Cons assms(3) [OF x] Let_def split: option.split)
qed (simp add: resolve_contiguous_range_def contiguous_range_def)

lemma edited_cong: "edited doc h1 t doc' h' t' remap \<Longrightarrow> (\<And>x. x \<in> set (oids t) \<Longrightarrow> obj h1 x = obj h x) \<Longrightarrow> edited doc h t doc' h' t' remap"
  by (simp add: edited_def)

lemma facade_preflight_simps [simp]:
  "pf_used_short_ids (facade_preflight gen) = None" "pf_next_short_id (facade_preflight gen) = Some (next_short_id_of gen)"
  by (simp_all add: facade_preflight_def)

text \<open>The allocator alone keeps a document loaded.\<close>

lemma allocated_loaded:
  assumes "ready gen doc h t ts" and "allocator_ran gen (length (forest_oids ts)) (td_short_id_map doc, minted h) (m, k)"
  shows "loaded (doc\<lparr>td_short_id_map := m\<rparr>) (h\<lparr>minted := k\<rparr>) t"
proof -
  have load: "loaded doc h t" using assms(1) by (simp add: ready_def)
  have m: "sid_inv m" "\<And>u. u \<notin> gen ` {minted h..<k} \<Longrightarrow> get_short_id m u = get_short_id (td_short_id_map doc) u"
    "k \<le> minted h + length (forest_oids ts)"
    using assms(2) load by (simp_all add: allocator_ran_def loaded_def doc_indexed_def)
  have "get_short_id m (ln_node_id (obj h x)) = ln_short_id (obj h x)" if x: "x \<in> set (oids t)" for x
  proof -
    have "gen j \<noteq> ln_node_id (obj h x)" if "j \<in> {minted h..<k}" for j
    proof -
      have "gen j \<notin> document_uuids doc \<union> (\<lambda>x. ln_node_id (obj h x)) ` set (forest_oids ts)"
        using assms(1) m(3) that unfolding ready_def by simp
      then show ?thesis using known_short_id(3) [OF load x] by (metis UnI1)
    qed
    then have "ln_node_id (obj h x) \<notin> gen ` {minted h..<k}" by (metis imageE)
    then show ?thesis using m(2) known_short_id(1) [OF load x] by simp
  qed
  moreover have "loaded doc (h\<lparr>minted := k\<rparr>) t" by (rule loaded_frame [OF load]) simp
  ultimately show ?thesis using m(1) by (simp add: loaded_def doc_indexed_def)
qed

text \<open>
  C5. Replacement through the facade: on a loaded document, with ids supplied as assumed, it always returns. On success
  the version was not stale and the addresses named a run of siblings; the document is loaded, one version later, with the run replaced by the
  trees parsed from the source, and every node that stays has its UUID and its short id. But the new short ids that the result
  reports belong to no node of the document: they were allocated under placeholders, and the commit issues others. An error is of the public hierarchy, the version is as before, and either no object and no table
  has changed, only the short id map can hold more placeholders, and the version was stale, the addresses named no run, the source gave no node or a UUID that is not of
  version 4; or the parent's fields cannot hold its children, which is found only after the splice.
\<close>

theorem facade_replace_commits:
  assumes "loaded doc h t" and "set (oids t) \<subseteq> {..<next_oid h}" and "ids_supplied gen plugin source doc h"
  shows "\<exists>result doc' h'. facade_replace gen reference plugin targets source expected doc h = Some (result, doc', h') \<and>
    (case result of
       Inl e \<Rightarrow> (\<exists>c. e = Engine c) \<and> td_document_version doc' = td_document_version doc
         \<and> (doc' = doc\<lparr>td_short_id_map := td_short_id_map doc'\<rparr> \<and> loaded doc' h' t \<and> (\<forall>x < next_oid h. obj h' x = obj h x)
              \<and> (\<forall>xs ys p i j roots h1. address_nodes reference doc h targets = Inr xs \<and> fragment gen plugin doc source h = Some (Inr roots, h1)
                  \<and> resolve_contiguous_range doc h (map NodeRef xs) = Inr (ys, p, i, j)
                  \<longrightarrow> stale doc expected \<or> roots = [] \<or> (\<exists>u \<in> set (parsed_ids plugin source). \<not> is_uuid4 u))
            \<or> e = Engine InvalidParentType \<and> (\<exists>xs p i j ts. address_nodes reference doc h targets = Inr xs
                \<and> resolve_contiguous_range doc h (map NodeRef xs) = Inr (xs, p, i, j)
                \<and> tracks doc' h' (splice_tree p i j ts t) \<and> sync_fields (Some p) h = None))
     | Inr r \<Rightarrow> \<not> stale doc expected \<and> (\<exists>xs p i j ts h1. address_nodes reference doc h targets = Inr xs
         \<and> resolve_contiguous_range doc h (map NodeRef xs) = Inr (xs, p, i, j) \<and> xs = map t_oid (list_slice i j (subs_of p t))
         \<and> fragment gen plugin doc source h = Some (Inr (map t_oid ts), h1) \<and> ts \<noteq> []
         \<and> edited doc h t doc' h' (splice_tree p i j ts t) (mr_remap r) \<and> mr_removed r = map (address_of doc h) xs))"
proof (cases "stale doc expected")
  case True
  then show ?thesis using assms(1) by (simp add: facade_replace_def operation_def)
next
  case current: False
  note run = facade_replace_def operation_def
  obtain parsed h1 where frag: "fragment gen plugin doc source h = Some (parsed, h1)" "next_oid h \<le> next_oid h1" "\<forall>x < next_oid h. obj h1 x = obj h x"
    "\<forall>roots. parsed = Inr roots \<longrightarrow> (\<exists>ts. roots = map t_oid ts \<and> ready gen doc h1 t ts \<and> set (forest_oids ts) \<subseteq> {next_oid h..<next_oid h1}
        \<and> ((\<forall>u \<in> set (parsed_ids plugin source). is_uuid4 u) \<longrightarrow> (\<forall>x \<in> set (forest_oids ts). is_uuid4 (ln_node_id (obj h1 x)))))"
    using fragment_ready [OF assms] by blast
  have same: "obj h1 x = obj h x" if "x \<in> set (oids t)" for x using frag(3) assms(2) that by auto
  have load1: "loaded doc h1 t" by (rule loaded_frame [OF assms(1) same])
  note tr = loaded_tracks [OF assms(1)] loaded_tracks [OF load1]
  show ?thesis
  proof (cases "address_nodes reference doc h targets")
    case (Inl e)
    then show ?thesis using current assms(1) typed_engine by (simp add: run)
  next
    case addresses: (Inr xs)
    have xs: "set xs \<subseteq> set (oids t)" by (rule address_nodes_in [OF tracksD(4) [OF tr(1)] addresses])
    have range_eq: "resolve_contiguous_range doc h1 (map NodeRef xs) = resolve_contiguous_range doc h (map NodeRef xs)"
      by (rule range_cong [OF tr _ xs]) (rule same)
    show ?thesis
    proof (cases "(\<exists>e. parsed = Inl e) \<or> xs = []")
      case True
      then obtain e where "facade_replace gen reference plugin targets source expected doc h = Some (Inl (typed INVALID_POSITION e), doc, h1)"
        using current addresses frag(1) by (cases parsed) (auto simp: run)
      then show ?thesis using True addresses frag(1,3) load1 typed_engine
        by (auto simp: resolve_contiguous_range_def contiguous_range_def)
    next
      case False
      then obtain roots x rest where ok: "parsed = Inr roots" "xs = x # rest" by (cases parsed; cases xs) auto
      obtain ts where ts: "roots = map t_oid ts" "ready gen doc h1 t ts"
        "(\<forall>u \<in> set (parsed_ids plugin source). is_uuid4 u) \<longrightarrow> (\<forall>x \<in> set (forest_oids ts). is_uuid4 (ln_node_id (obj h1 x)))"
        using frag(4) ok(1) by blast
      let ?pf = "facade_preflight gen" let ?s = "(td_short_id_map doc, minted h1)"
      note rdy = ts(2) [unfolded ready_def]
      have inc: "incoming_ok doc h1 [] (td_short_id_map doc) ts" "index_issued doc (td_short_id_map doc)"
        "fresh_stream gen (length (forest_oids ts)) ?s" using rdy by blast+
      have used: "[] = (case pf_used_short_ids ?pf of None \<Rightarrow> [] | Some ids \<Rightarrow> ids)" "pf_next_short_id ?pf = Some (next_short_id_of gen)" by simp_all
      have sh: "list_all (shaped h1) ts"
        using inc(1) linked_shaped [of h1 _ "[_]"] unfolding incoming_ok_def by (fastforce simp: list_all_iff)
      obtain outcome doc2 h2 m k where out: "replace_range doc (map NodeRef xs) (map t_oid ts) ?pf h1 ?s = Some (outcome, doc2, h2, (m, k))"
        "case outcome of
          Inl e \<Rightarrow> doc2 = doc \<and> h2 = h1 \<and> (\<exists>errors. e = MutationError errors \<and> errors \<noteq> [])
            \<and> (\<forall>ys p i j. resolve_contiguous_range doc h1 (map NodeRef xs) = Inr (ys, p, i, j) \<longrightarrow>
                 ts = [] \<or> (\<exists>os. chain h1 (Some p) os \<and> set os \<subseteq> set (oids t) \<and> (\<exists>r \<in> set ts. \<exists>c.
                   violated doc h1 r os (Some p) (Some ''child_index'') (IntIndex (int i)) ?pf c)))
        | Inr r \<Rightarrow> \<exists>ys p i j. resolve_contiguous_range doc h1 (map NodeRef xs) = Inr (ys, p, i, j) \<and> p \<in> set (oids t) \<and> i < j
            \<and> j \<le> length (subs_of p t) \<and> ys = map t_oid (list_slice i j (subs_of p t)) \<and> ys \<noteq> [] \<and> ts \<noteq> []
            \<and> tracks doc2 h2 (splice_tree p i j ts t) \<and> list_all (linked h2 None) (list_slice i j (subs_of p t))
            \<and> mr_position r = Some i \<and> mr_removed r = map (address_of doc h1) ys
            \<and> (\<forall>e \<in> set (mr_remap r). \<exists>s. sr_new_short_id e = Some s \<and> next_short_id (td_short_id_map doc) \<le> s \<and> s < next_short_id m)"
        using replace_outcome [OF tr(2) inc(1,2) used inc(3), of "map NodeRef xs"] by blast
      note kept = replace_range_kept [OF out(1) sh used(2)]
      have cmd: "facade_replace gen reference plugin targets source expected doc h = map_option (\<lambda>(r, doc', h'). (map_sum (typed INVALID_POSITION) id r, doc', h'))
          (commit_after outcome [ln_parent (obj h1 x)] (doc2\<lparr>td_short_id_map := m\<rparr>) (h2\<lparr>minted := k\<rparr>))"
        using current addresses frag(1) ok ts(1) out(1) by (simp add: run with_allocator_def)
      show ?thesis
      proof (cases outcome)
        case (Inl f)
        then have same2: "doc2 = doc" "h2 = h1" using out(2) by simp_all
        have "loaded (doc\<lparr>td_short_id_map := m\<rparr>) (h1\<lparr>minted := k\<rparr>) t" by (rule allocated_loaded [OF ts(2)]) (use kept in blast)
        moreover have "ts = [] \<or> (\<exists>u \<in> set (parsed_ids plugin source). \<not> is_uuid4 u)"
          if found: "resolve_contiguous_range doc h (map NodeRef xs) = Inr (ys, p, i, j)" for ys p i j
        proof (rule disjCI)
          assume all: "\<not> (\<exists>u \<in> set (parsed_ids plugin source). \<not> is_uuid4 u)"
          show "ts = []"
          proof (rule ccontr)
            assume "ts \<noteq> []"
            then obtain os r c where v: "set os \<subseteq> set (oids t)" "r \<in> set ts"
              "violated doc h1 r os (Some p) (Some ''child_index'') (IntIndex (int i)) ?pf c"
              using out(2) [unfolded Inl sum.case] found [folded range_eq] by blast
            from ready_accepts [OF ts(2) v(2,1,3)] show False
              using ts(3) all by (auto simp: position_ok_def VALID_POSITIONS_def simp del: set_concat)
          qed
        qed
        ultimately show ?thesis
          using cmd typed_engine frag(1,3) addresses ok(1) ts(1) unfolding Inl same2 by (auto simp: commit_after_def)
      next
        case (Inr r)
        obtain p i j where q: "resolve_contiguous_range doc h1 (map NodeRef xs) = Inr (xs, p, i, j)" "p \<in> set (oids t)" "i < j"
          "j \<le> length (subs_of p t)" "xs = map t_oid (list_slice i j (subs_of p t))" "ts \<noteq> []"
          "tracks doc2 h2 (splice_tree p i j ts t)" "mr_removed r = map (address_of doc h1) xs"
          "\<forall>e \<in> set (mr_remap r). \<exists>s. sr_new_short_id e = Some s \<and> next_short_id (td_short_id_map doc) \<le> s \<and> s < next_short_id m"
          using out(2) node_range(1) [OF tr(2) xs] unfolding Inr by auto
        have par: "ln_parent (obj h1 x) = Some p" using node_range(2) [OF tr(2) xs q(1)] ok(2) by simp
        have le: "i \<le> j" using q(3) by simp
        have apart: "set (forest_oids ts) \<inter> set (oids t) = {}" using rdy by blast
        have N: "distinct (forest_oids ts)" using inc(1) by (simp add: incoming_ok_def)
        note new_oids = splice_oids(2) [OF tracksD(3) [OF tr(1)] q(2) le q(4) N apart]
        have p: "p \<in> set (oids (splice_tree p i j ts t))"
          using range_parts(6) [OF tr(1) q(2) le q(4)] q(2) unfolding new_oids by blast
        have removed: "mr_removed r = map (address_of doc h) xs" using q(8) same xs by (auto simp: address_of_def)
        obtain result doc' h' where com: "commit_after (Inr r) [Some p] (doc2\<lparr>td_short_id_map := m\<rparr>) (h2\<lparr>minted := k\<rparr>) = Some (result, doc', h')"
          "case result of
             Inl e \<Rightarrow> e = node_schema_error INVALID_PARENT_TYPE \<and> sync_fields (Some p) h1 = None \<and> tracks doc' h' (splice_tree p i j ts t)
               \<and> td_document_version doc' = td_document_version doc
           | Inr r' \<Rightarrow> r' = r \<and> edited doc h1 t doc' h' (splice_tree p i j ts t) (mr_remap r)"
          using edit_outcome [OF ts(2) q(7) p _ _ _ _ q(9), where r = r] kept new_oids by blast
        have fields: "sync_fields (Some p) h1 = None \<longleftrightarrow> sync_fields (Some p) h = None"
          using same [OF q(2)] by (simp add: sync_fields_refuses)
        show ?thesis
        proof (cases result)
          case (Inl e)
          then show ?thesis
            using com(2) cmd addresses q(1) fields typed_schema_error unfolding \<open>outcome = Inr r\<close> par com(1) range_eq by auto
        next
          case res: (Inr r')
          then have ed: "r' = r" "edited doc h t doc' h' (splice_tree p i j ts t) (mr_remap r)"
            using com(2) edited_cong [OF _ same] by auto
          show ?thesis
            using current addresses q(1,5,6) frag(1) ok(1) ts(1) ed removed cmd unfolding \<open>outcome = Inr r\<close> par com(1) res range_eq by auto
        qed
      qed
    qed
  qed
qed

section \<open>On the example document\<close>

definition leaf_plugin :: fragment_plugin where
  "leaf_plugin = \<lparr>fp_parse = (\<lambda>source. if source = [] then Inr ParsedText
     else Inr (ParsedNodes (map (\<lambda>c. Node ''k'' [] [] None None None None []) source))), fp_container_kinds = []\<rparr>"

abbreviation work_gen :: "nat \<Rightarrow> uuid" where
  "work_gen k \<equiv> v4 (200 + k)"

lemma work_uuid4: "is_uuid4 (v4 200)" "is_uuid4 (v4 201)" "is_uuid4 (v4 202)" "is_uuid4 (v4 203)" "is_uuid4 (v4 204)"
  by (simp_all add: v4_def is_uuid4_def uuid_version_def)

lemma work_fragment:
  "\<exists>h1. fragment work_gen leaf_plugin work_doc ''x'' work_heap = Some (Inr [5], h1) \<and> next_oid h1 = 6 \<and> minted h1 = 1"
proof -
  let ?n = "\<lparr>ln_kind = ''k'', ln_fields = [], ln_children = [], ln_node_id = v4 200, ln_short_id = None,
     ln_extended_type = None, ln_buffer_range = None, ln_references = [], ln_parent = None\<rparr>"
  obtain h1 where h1: "to_live_list work_gen [Node ''k'' [] [] None None None None []] None work_heap = ([5], h1)"
    "next_oid h1 = 6" "minted h1 = 1" "obj h1 5 = ?n"
    by (simp add: generate_node_id_def alloc_def work_heap_def Let_def)
  have walk: "walk_list h1 [5] = Some [5]" using walk_forest [of h1 "[T 5 []]"] h1(4) by simp
  have new: "v4 200 \<notin> {v4 0, v4 1, v4 2}" by (simp add: v4_inj)
  then have known: "\<not> dict_has (td_nodes_by_id work_doc) (v4 200)" by (auto simp: work_doc_def)
  have "fragment work_gen leaf_plugin work_doc ''x'' work_heap = Some (Inr [5], re_identify work_gen work_doc [5] h1)"
    by (simp add: fragment_def leaf_plugin_def h1(1) unwrap_def walk del: to_live.simps to_live_list.simps re_identify.simps)
  then show ?thesis using h1(2,3) known by (auto simp: h1(4))
qed

lemma work_supplied: "ids_supplied work_gen leaf_plugin ''x'' work_doc work_heap"
proof -
  obtain h1 where h1: "fragment work_gen leaf_plugin work_doc ''x'' work_heap = Some (Inr [5], h1)" "next_oid h1 = 6" "minted h1 = 1"
    using work_fragment by blast
  have ids: "parsed_ids leaf_plugin ''x'' = []" by (simp add: parsed_ids_def leaf_plugin_def)
  have range: "{0..<Suc (Suc 0)} = {0, 1 :: nat}" by auto
  have "mints_new work_gen 0 2 (document_uuids work_doc)"
    by (auto simp: mints_new_def numeral_2_eq_2 range inj_on_def v4_inj document_uuids_def work_doc_def get_short_id_def split: if_splits)
  then show ?thesis
    using work_uuid4 h1 ids unfolding ids_supplied_def by (auto simp: work_heap_def range numeral_2_eq_2)
qed

theorem facade_replace_commits_witness:
  "\<exists>r doc' h'. facade_replace work_gen None leaf_plugin [RawInt 2] ''x'' (Some 1) work_doc work_heap = Some (Inr r, doc', h')
     \<and> (\<exists>us. loaded doc' h' (T 0 [T 5 us, T 2 []])) \<and> td_document_version doc' = 2 \<and> ln_short_id (obj h' 2) = Some 3"
proof -
  have bound: "set (oids (T 0 [T 1 [], T 2 []])) \<subseteq> {..<next_oid work_heap}" by (simp add: work_heap_def)
  note rep = facade_replace_commits [OF work_loaded bound work_supplied, of None "[RawInt 2]" "Some 1"]
  have nodes: "address_nodes None work_doc work_heap [RawInt 2] = Inr [1]"
    by (simp add: resolve_address_def normalize_node_address_def resolve_short_id_value_def tree_resolve_short_id_def
        get_node_id_def work_doc_def v4_inj)
  have range: "resolve_contiguous_range work_doc work_heap (map NodeRef [1]) = Inr ([1], 0, 0, 1)" using work_range by simp
  have facts: "\<not> stale work_doc (Some 1)" "parsed_ids leaf_plugin ''x'' = []" "sync_fields (Some 0) work_heap \<noteq> None"
    by (simp_all add: stale_def work_doc_def parsed_ids_def leaf_plugin_def sync_fields_refuses work_heap_def work_node_def)
  obtain h1 where frag: "fragment work_gen leaf_plugin work_doc ''x'' work_heap = Some (Inr [5], h1)" using work_fragment by blast
  obtain result doc' h' where run: "facade_replace work_gen None leaf_plugin [RawInt 2] ''x'' (Some 1) work_doc work_heap = Some (result, doc', h')"
    using rep by blast
  note res = rep [unfolded run nodes frag]
  show ?thesis
  proof (cases result)
    case (Inl e)
    then show ?thesis using res range facts by auto
  next
    case (Inr r)
    have "\<exists>z. t_oid z = 5 \<and> edited work_doc work_heap (T 0 [T 1 [], T 2 []]) doc' h' (T 0 [z, T 2 []]) (mr_remap r)"
      using res range by (auto simp: Inr list_splice_def map_eq_Cons_conv)
    then obtain us where "edited work_doc work_heap (T 0 [T 1 [], T 2 []]) doc' h' (T 0 [T 5 us, T 2 []]) (mr_remap r)"
      by (metis otree.collapse)
    then show ?thesis using run unfolding edited_def Inr by (auto simp: work_doc_def work_heap_def work_node_def)
  qed
qed

end
