(* ===== verification/Inserts.thy ===== *)
theory Inserts
  imports Edits
begin

text \<open>
  \<open>facade.insert\<close>: a fragment of several nodes is inserted node by node, against an anchor that stays. What a
  run of core insertions does to the tree, and the command around it.
\<close>

section \<open>The command\<close>

text \<open>\<open>index if index is None else index + offset\<close>; a \<open>bool\<close> becomes an integer.\<close>

fun nth_index :: "index_argument \<Rightarrow> nat \<Rightarrow> index_argument" where
  "nth_index NoIndex n = NoIndex"
| "nth_index (IntIndex i) n = IntIndex (i + int n)"
| "nth_index (BoolIndex b) n = IntIndex ((if b then 1 else 0) + int n)"

fun insert_each ::
  "tree_document \<Rightarrow> oid list \<Rightarrow> nat \<Rightarrow> string \<Rightarrow> node_ref option \<Rightarrow> node_ref option \<Rightarrow> index_argument \<Rightarrow> 's preflight \<Rightarrow>
   heap \<Rightarrow> 's \<Rightarrow> ((mutation_failure + mutation_result list) \<times> tree_document \<times> heap \<times> 's) option" where
  "insert_each doc [] offset position parent sibling index pf h s = Some (Inr [], doc, h, s)"
| "insert_each doc (x # xs) offset position parent sibling index pf h s =
     Option.bind (insert_node doc x position parent sibling (nth_index index offset) pf h s) (\<lambda>(outcome, doc1, h1, s1).
       case outcome of
         Inl f \<Rightarrow> Some (Inl f, doc1, h1, s1)
       | Inr r \<Rightarrow> map_option (\<lambda>(rest, world). (map_sum id (Cons r) rest, world))
           (insert_each doc1 xs (offset + 1) position parent sibling index pf h1 s1))"

definition backwards :: "string \<Rightarrow> bool" where
  "backwards position \<longleftrightarrow> position \<in> {''first_child'', ''after''}"

definition optional_node ::
  "plugin_reference option \<Rightarrow> tree_document \<Rightarrow> heap \<Rightarrow> raw_address option \<Rightarrow> py_exception + oid option" where
  "optional_node reference doc h address =
     (case address of
        None \<Rightarrow> Inr None
      | Some a \<Rightarrow> map_sum id (\<lambda>xs. Some (hd xs)) (address_nodes reference doc h [a]))"

definition joined_result :: "mutation_result list \<Rightarrow> mutation_result" where
  "joined_result rs = (hd rs)\<lparr>mr_remap := concat (map mr_remap rs), mr_inserted := concat (map mr_inserted rs)\<rparr>"

text \<open>The insertion of the parsed nodes and the commit.\<close>

definition insert_incoming ::
  "(nat \<Rightarrow> uuid) \<Rightarrow> string \<Rightarrow> oid option \<Rightarrow> oid option \<Rightarrow> index_argument \<Rightarrow> oid list \<Rightarrow> mutation_result command" where
  "insert_incoming gen position parent sibling index incoming doc h =
     Option.bind (with_allocator (insert_each doc (if backwards position then rev incoming else incoming) 0 position
         (map_option NodeRef parent) (map_option NodeRef sibling) index (facade_preflight gen) h) doc h) (\<lambda>(outcome, doc2, h2).
       case outcome of
         Inl f \<Rightarrow> Some (Inl (mutation_exception f), doc2, h2)
       | Inr results \<Rightarrow>
           if results = [] then Some (Inl builtin_error, doc2, h2)
           else commit_after (Inr (joined_result (if backwards position then rev results else results)))
                  [ln_parent (obj h2 (hd incoming))] doc2 h2)"

definition facade_insert ::
  "(nat \<Rightarrow> uuid) \<Rightarrow> plugin_reference option \<Rightarrow> fragment_plugin \<Rightarrow> string \<Rightarrow> string \<Rightarrow> raw_address option \<Rightarrow> raw_address option \<Rightarrow>
   index_argument \<Rightarrow> int option \<Rightarrow> mutation_result command" where
  "facade_insert gen reference plugin source position parent sibling index expected = operation expected INVALID_POSITION (\<lambda>doc h.
     case (optional_node reference doc h parent, optional_node reference doc h sibling) of
       (Inl e, _) \<Rightarrow> Some (Inl e, doc, h)
     | (Inr p, Inl e) \<Rightarrow> Some (Inl e, doc, h)
     | (Inr p, Inr q) \<Rightarrow>
         Option.bind (fragment gen plugin doc source h) (\<lambda>(parsed, h1).
           case parsed of
             Inl e \<Rightarrow> Some (Inl e, doc, h1)
           | Inr incoming \<Rightarrow> insert_incoming gen position p q index incoming doc h1))"

section \<open>Insertions one after the other\<close>

lemma splice_splice_forest:
  "distinct (forest_oids ts) \<Longrightarrow> p \<in> set (forest_oids ts) \<Longrightarrow>
   list_splice a b new2 (list_splice i j new (forest_subs p ts)) = list_splice k l new3 (forest_subs p ts) \<Longrightarrow>
   map (splice_tree p a b new2) (map (splice_tree p i j new) ts) = map (splice_tree p k l new3) ts
   \<and> forest_subs p (map (splice_tree p i j new) ts) = list_splice i j new (forest_subs p ts)"
proof (induction ts rule: forest_induct)
  case (Cons x ts us)
  have d: "distinct (forest_oids ts)" "distinct (forest_oids us)" "set (forest_oids ts) \<inter> set (forest_oids us) = {}"
    "x \<notin> set (forest_oids ts)" "x \<notin> set (forest_oids us)" using Cons.prems(1) by auto
  consider "x = p" | "x \<noteq> p" "p \<in> set (forest_oids ts)" "p \<notin> set (forest_oids us)"
    | "x \<noteq> p" "p \<notin> set (forest_oids ts)" "p \<in> set (forest_oids us)" using Cons.prems(2) d by auto
  then show ?case
  proof cases
    case 1
    have "forest_subs p us = []" by (rule subs_absent) (use 1 d(5) in simp)
    moreover have "map (splice_tree p i' j' n') us = us" for i' j' n' by (rule splice_absent) (use 1 d(5) in simp)
    ultimately show ?thesis using 1 Cons.prems(3) by (simp del: concat_eq_Nil_conv)
  next
    case 2
    have "forest_subs p us = []" by (rule subs_absent [OF 2(3)])
    then show ?thesis
      using 2 Cons.IH(1) [OF d(1)] Cons.prems(3) splice_absent [OF 2(3)] by (simp del: concat_eq_Nil_conv)
  next
    case 3
    have "forest_subs p ts = []" by (rule subs_absent [OF 3(2)])
    then show ?thesis
      using 3 Cons.IH(2) [OF d(2)] Cons.prems(3) splice_absent [OF 3(2)] by (simp del: concat_eq_Nil_conv)
  qed
qed simp

lemma splice_splice:
  assumes "distinct (oids t)" and "p \<in> set (oids t)"
    and "list_splice a b new2 (list_splice i j new (subs_of p t)) = list_splice k l new3 (subs_of p t)"
  shows "splice_tree p a b new2 (splice_tree p i j new t) = splice_tree p k l new3 t"
  using splice_splice_forest [of "[t]" p a b new2 i j new k l new3] assms by simp

lemma subs_splice:
  assumes "distinct (oids t)" and "p \<in> set (oids t)"
  shows "subs_of p (splice_tree p i j new t) = list_splice i j new (subs_of p t)"
  using splice_splice_forest [of "[t]" p 0 0 "[]" i j new i j new] assms by (simp add: list_splice_def)

lemma splice_twice: "i \<le> length xs \<Longrightarrow> list_splice i i ys (list_splice i i [z] xs) = list_splice i i (ys @ [z]) xs
    \<and> list_splice (Suc i) (Suc i) ys (list_splice i i [z] xs) = list_splice i i (z # ys) xs"
  by (simp add: list_splice_def)

lemma index_after_splice:
  assumes "list_index y xs = Some a" and "x \<noteq> y" and "i \<le> length xs"
  shows "list_index y (list_splice i i [x] xs) = Some (if a < i then a else a + 1)"
  using assms
proof (induction xs arbitrary: a i)
  case (Cons z xs)
  then show ?case by (cases i) (auto simp: list_splice_def split: if_splits)
qed simp

lemma attach_inside:
  assumes "position = ''first_child'' \<or> position = ''last_child'' \<or> position = ''child_index''" and "Option.bind parent resolve = Some p"
  shows "attach_point resolve h position parent sibling index
    = Inr (p, if position = ''first_child'' then 0 else if position = ''last_child'' then length (ln_children (obj h p))
         else (case index_value index of None \<Rightarrow> 0 | Some i \<Rightarrow> nat (max 0 (min i (int (length (ln_children (obj h p))))))))"
  using assms by (elim disjE) (simp_all add: attach_point_def Let_def split: option.split)

text \<open>The anchor stays, and the place moves on exactly when nodes are inserted front to back.\<close>

lemma next_insert_point:
  assumes "tracks doc h t" and "tracks doc1 h1 (splice_tree p i i [new] t)" and "t_oid new \<notin> set (oids t)"
    and "set_option parent \<union> set_option sibling \<subseteq> set (oids t)" and "set (oids t) \<subseteq> set (oids (splice_tree p i i [new] t))"
    and "insert_point doc h position (map_option NodeRef parent) (map_option NodeRef sibling) (nth_index index n) = Inr (p, i)"
    and "position_ok (Some position) (nth_index index n)"
  shows "insert_point doc1 h1 position (map_option NodeRef parent) (map_option NodeRef sibling) (nth_index index (Suc n))
      = Inr (p, if backwards position then i else Suc i)"
    and "position_ok (Some position) (nth_index index (Suc n))"
proof -
  have p: "p \<in> set (oids t)" "i \<le> length (subs_of p t)" by (rule insert_point_in [OF assms(1,6)])+
  have sub: "subs_of p (splice_tree p i i [new] t) = list_splice i i [new] (subs_of p t)" by (rule subs_splice [OF tracksD(3) [OF assms(1)] p(1)])
  have res: "Option.bind (map_option NodeRef z) (resolve_ref doc h) = z" "Option.bind (map_option NodeRef z) (resolve_ref doc1 h1) = z"
    if "set_option z \<subseteq> set (oids t)" for z
    using that assms(5) resolve_ref_node [OF tracksD(4) [OF assms(1)]] resolve_ref_node [OF tracksD(4) [OF assms(2)]]
    by (cases z; auto simp: subset_iff)+
  have kids: "ln_children (obj h p) = map t_oid (subs_of p t)"
    "ln_children (obj h1 p) = list_splice i i [t_oid new] (map t_oid (subs_of p t))"
    using tracked_children(1) [OF assms(1) p(1)] tracked_children(1) [OF assms(2)] p(1) assms(5) sub by (auto simp: map_list_splice)
  note point = assms(6) [unfolded insert_point_def attach_point_def Let_def res [of parent] res [of sibling]]
  have args: "set_option parent \<subseteq> set (oids t)" "set_option sibling \<subseteq> set (oids t)" using assms(4) by simp_all
  show "position_ok (Some position) (nth_index index (Suc n))"
    using assms(7) by (cases index) (auto simp: position_ok_def split: if_splits)
  show "insert_point doc1 h1 position (map_option NodeRef parent) (map_option NodeRef sibling) (nth_index index (Suc n))
      = Inr (p, if backwards position then i else Suc i)"
  proof (cases "position \<in> {''before'', ''after''}")
    case True
    obtain y a where y: "sibling = Some y" "list_index y (ln_children (obj h p)) = Some a" "i = (if position = ''before'' then a else a + 1)"
      "parent = Some p \<or> parent = None \<and> ln_parent (obj h y) = Some p"
      using True assms(6) unfolding insert_point_def attach_point_def Let_def res(1) [OF args(1)] res(1) [OF args(2)]
      by (auto split: option.splits if_splits)
    have "y \<in> set (ln_children (obj h p))" using list_index_SomeD [OF y(2)] by (metis nth_mem)
    moreover have "y \<noteq> t_oid new" using y(1) args(2) assms(3) by auto
    ultimately have at: "list_index y (ln_children (obj h1 p)) = Some (if a < i then a else a + 1)"
      using index_after_splice [of y "map t_oid (subs_of p t)" a "t_oid new" i] y(2) p(2) unfolding kids by simp
    then have "y \<in> set (ln_children (obj h1 p))" by (metis list_index_None option.distinct(1))
    then have "ln_parent (obj h1 y) = Some p"
      using child_in_tree(2) [OF tracksD(1,3) [OF assms(2)]] p(1) assms(5) by blast
    with at show ?thesis
      using True y(1,3,4) unfolding insert_point_def attach_point_def Let_def res(2) [OF args(1)] res(2) [OF args(2)]
      by (auto simp: backwards_def)
  next
    case False
    have inside: "position = ''first_child'' \<or> position = ''last_child'' \<or> position = ''child_index''" and par: "parent = Some p"
      and i: "i = (if position = ''first_child'' then 0 else if position = ''last_child'' then length (ln_children (obj h p))
         else (case index_value (nth_index index n) of None \<Rightarrow> 0 | Some i \<Rightarrow> nat (max 0 (min i (int (length (ln_children (obj h p))))))))"
      using False assms(6) unfolding insert_point_def attach_point_def Let_def res(1) [OF args(1)] res(1) [OF args(2)]
      by (auto split: option.splits if_splits)
    have len: "length (ln_children (obj h1 p)) = Suc (length (ln_children (obj h p)))"
      using kids p(2) by (simp add: list_splice_def)
    have point: "insert_point doc1 h1 position (map_option NodeRef parent) (map_option NodeRef sibling) (nth_index index (Suc n))
      = Inr (p, if position = ''first_child'' then 0 else if position = ''last_child'' then Suc (length (ln_children (obj h p)))
         else (case index_value (nth_index index (Suc n)) of None \<Rightarrow> 0
           | Some i \<Rightarrow> nat (max 0 (min i (int (Suc (length (ln_children (obj h p)))))))))"
      unfolding insert_point_def len [symmetric] by (rule attach_inside [OF inside]) (use res(2) [OF args(1)] par in simp)
    from inside show ?thesis
    proof (elim disjE)
      assume "position = ''child_index''"
      moreover from this obtain k where "index_value (nth_index index n) = Some k" "0 \<le> k" "index_value (nth_index index (Suc n)) = Some (k + 1)"
        using assms(7) by (cases index) (auto simp: position_ok_def VALID_POSITIONS_def index_value_def)
      moreover have "nat (max 0 (min (k + 1) (int (Suc m)))) = Suc (nat (max 0 (min k (int m))))" if "0 \<le> k" for m
        using that by (simp add: max_def min_def nat_add_distrib)
      ultimately show ?thesis using i unfolding point by (simp add: backwards_def)
    qed (use i point in \<open>simp_all add: backwards_def\<close>)
  qed
qed

text \<open>What a run of insertions needs of the trees still to be inserted.\<close>

definition insertable :: "(nat \<Rightarrow> uuid) \<Rightarrow> tree_document \<Rightarrow> heap \<Rightarrow> otree \<Rightarrow> otree list \<Rightarrow> short_id_map \<times> nat \<Rightarrow> bool" where
  "insertable gen doc h t us s \<longleftrightarrow> tracks doc h t \<and> incoming_ok doc h [] (fst s) us \<and> index_issued doc (fst s)
     \<and> fresh_stream gen (length (forest_oids us)) s
     \<and> (\<forall>x \<in> set (forest_oids us). ln_short_id (obj h x) = None \<and> \<not> dict_has (td_nodes_by_id doc) (ln_node_id (obj h x)))"

lemma insertable_apart: "insertable gen doc h t us s \<Longrightarrow> set (forest_oids us) \<inter> set (oids t) = {}"
  unfolding insertable_def by (rule incoming_apart [OF tracksD(4)]) blast+

lemma insert_one_rejected:
  assumes "insertable gen doc h t (u # us) s" and "insert_point doc h position parent sibling index = Inr (p, i)"
    and "(\<exists>x \<in> set (oids u). \<not> is_uuid4 (ln_node_id (obj h x))) \<or> \<not> position_ok (Some position) index"
  shows "\<exists>errors. insert_node doc (t_oid u) position parent sibling index (facade_preflight gen) h s = Some (Inl (MutationError errors), doc, h, s)
    \<and> errors \<noteq> []"
proof -
  note i = assms(1) [unfolded insertable_def]
  have tr: "tracks doc h t" using i by blast
  have p: "p \<in> set (oids t)" by (rule insert_point_in(1) [OF tr assms(2)])
  obtain os where os: "chain h (Some p) (p # os)" by (rule chain_in_tree [OF tracksD(1) [OF tr] p])
  have "\<exists>q. linked h q u" using i by (simp add: incoming_ok_def)
  then have sh: "shaped h u" using linked_shaped [of h _ "[u]"] by auto
  have bad: "violated doc h u (p # os) (Some p) (Some position) index (facade_preflight gen)
      (if \<exists>x \<in> set (oids u). \<not> is_uuid4 (ln_node_id (obj h x)) then INVALID_SELECTOR else INVALID_POSITION)"
    using assms(3) unfolding violated_def by (cases "\<exists>x \<in> set (oids u). \<not> is_uuid4 (ln_node_id (obj h x))") simp_all
  from insert_rejected [OF sh assms(2) os bad] show ?thesis using bad by fastforce
qed

lemma insert_one:
  assumes "insertable gen doc h t (u # us) s" and "insert_point doc h position parent sibling index = Inr (p, i)"
    and "\<forall>x \<in> set (oids u). is_uuid4 (ln_node_id (obj h x))" and "position_ok (Some position) index"
  shows "\<exists>r doc1 h1 s1. insert_node doc (t_oid u) position parent sibling index (facade_preflight gen) h s = Some (Inr r, doc1, h1, s1)
    \<and> insertable gen doc1 h1 (splice_tree p i i [u] t) us s1
    \<and> header_kept doc doc1 \<and> content_kept h h1 \<and> allocator_ran gen (length (oids u)) s s1
    \<and> (\<forall>x \<in> set (oids t). ln_short_id (obj h1 x) = ln_short_id (obj h x)) \<and> next_short_id (fst s) \<le> next_short_id (fst s1)
    \<and> (\<forall>e \<in> set (mr_remap r). \<exists>i. sr_new_short_id e = Some i \<and> next_short_id (fst s) \<le> i \<and> i < next_short_id (fst s1))"
proof -
  obtain m k where s: "s = (m, k)" by (cases s)
  note i = assms(1) [unfolded insertable_def s fst_conv]
  have tr: "tracks doc h t" using i by blast
  have p: "p \<in> set (oids t)" "i \<le> length (subs_of p t)" by (rule insert_point_in [OF tr assms(2)])+
  obtain os where os: "chain h (Some p) (p # os)" "set (p # os) \<subseteq> set (oids t)" by (rule chain_in_tree [OF tracksD(1) [OF tr] p(1)])
  have new: "\<forall>x \<in> set (oids u). \<not> dict_has (td_nodes_by_id doc) (ln_node_id (obj h x))" using i by auto
  have one: "incoming_ok doc h [] m [u]" using i by (auto simp: incoming_ok_def inj_on_def)
  have shared: "[] = (case pf_used_short_ids (facade_preflight gen) of None \<Rightarrow> [] | Some ids \<Rightarrow> ids)"
    "pf_next_short_id (facade_preflight gen) = Some (next_short_id_of gen)" by simp_all
  have stream: "fresh_stream gen (length (oids u) + length (forest_oids us)) (m, k)" using i by simp
  have ok: "\<not> violated doc h u (p # os) (Some p) (Some position) index (facade_preflight gen) c" for c
    using facade_accepts [OF tr os(2) new] assms(3,4) by blast
  have issued: "index_issued doc m" using i by blast
  obtain r doc1 h1 m1 k1 where ins: "insert_node doc (t_oid u) position parent sibling index (facade_preflight gen) h (m, k) = Some (Inr r, doc1, h1, (m1, k1))"
    "tracks doc1 h1 (splice_tree p i i [u] t)" "index_issued doc1 m1" "fresh_stream gen (length (forest_oids us)) (m1, k1)"
    "\<forall>x. x \<notin> set (oids t) \<union> set (oids u) \<longrightarrow> obj h1 x = obj h x" "\<forall>x \<in> set (oids t). ln_short_id (obj h1 x) = ln_short_id (obj h x)"
    "\<forall>e \<in> set (mr_remap r). \<exists>s. sr_new_short_id e = Some s \<and> next_short_id m \<le> s \<and> s < next_short_id m1" "next_short_id m \<le> next_short_id m1"
    by (rule insert_accepted [OF tr one issued shared stream assms(2) os(1) ok]) blast
  have "\<exists>q. linked h q u" using i by (simp add: incoming_ok_def)
  then have sh: "shaped h u" using linked_shaped [of h _ "[u]"] by auto
  note kept = insert_node_kept [OF ins(1) sh shared(2)]
  have ids: "ln_node_id (obj h1 x) = ln_node_id (obj h x)" for x using kept by (simp add: content_kept_def)
  have N: "distinct (oids u @ forest_oids us)" "inj_on (\<lambda>x. ln_node_id (obj h x)) (set (oids u) \<union> set (forest_oids us))"
    using i by (simp_all add: incoming_ok_def)
  have apart: "set (forest_oids us) \<inter> (set (oids t) \<union> set (oids u)) = {}"
    using insertable_apart [OF assms(1)] N(1) by auto
  have same: "obj h1 x = obj h x" if "x \<in> set (forest_oids us)" for x
  proof -
    have "x \<notin> set (oids t) \<union> set (oids u)" using apart that by blast
    then show ?thesis using ins(5) by blast
  qed
  have links: "list_all (\<lambda>t. \<exists>q. linked h1 q t) us"
  proof -
    have "\<exists>q. linked h1 q v" if v: "v \<in> set us" for v
    proof -
      obtain q where "linked h q v" using i v by (auto simp: incoming_ok_def list_all_iff)
      moreover have "x \<in> set (oids v) \<Longrightarrow> obj h1 x = obj h x" for x by (rule same) (use v in auto)
      ultimately have "linked h1 q v" by (intro linked_tree_cong [of h q v h1]) simp_all
      then show ?thesis by blast
    qed
    then show ?thesis by (simp add: list_all_iff)
  qed
  have short: "\<forall>x \<in> set (forest_oids us). ln_short_id (obj h1 x) = None" using i same by simp
  have incoming: "incoming_ok doc1 h1 [] m1 us"
    using links N short unfolding incoming_ok_def by (auto simp: inj_on_def ids simp del: set_concat)
  have "set (oids (splice_tree p i i [u] t)) = set (oids t) \<union> set (oids u)"
    using splice_oids(2) [OF tracksD(3) [OF tr] p(1) order_refl p(2), of "[u]"] N(1) insertable_apart [OF assms(1)] by (auto simp: list_slice_def)
  note table = tracksD(4) [OF ins(2), unfolded this]
  have fresh: "\<not> dict_has (td_nodes_by_id doc1) (ln_node_id (obj h1 x))" if x: "x \<in> set (forest_oids us)" for x
  proof
    assume "dict_has (td_nodes_by_id doc1) (ln_node_id (obj h1 x))"
    then obtain y where y: "y \<in> set (oids t) \<union> set (oids u)" "ln_node_id (obj h y) = ln_node_id (obj h x)"
      using table_ok_get [OF table] by (auto simp: ids)
    show False
    proof (cases "y \<in> set (oids t)")
      case True
      then have "dict_get (td_nodes_by_id doc) (ln_node_id (obj h x)) = Some y" using table_ok_get [OF tracksD(4) [OF tr]] y(2) by blast
      then show False using i x by simp
    next
      case False
      then have "y = x" using inj_onD [OF N(2) y(2)] y(1) x by simp
      then show False using apart y(1) x by blast
    qed
  qed
  have "insertable gen doc1 h1 (splice_tree p i i [u] t) us (m1, k1)"
    unfolding insertable_def fst_conv using ins(2-4) incoming short fresh by blast
  then show ?thesis using ins(1,6-8) kept unfolding s by auto
qed

text \<open>
  The whole run: all trees are placed, in their order or back to front as the position asks, or the one the preflight
  refuses stops it and the trees before stay in.
\<close>

abbreviation placed :: "string \<Rightarrow> 'a list \<Rightarrow> 'a list" where
  "placed position us \<equiv> if backwards position then rev us else us"

lemma splice_nothing: "splice_tree p i i [] t = t"
proof -
  have "map (splice_tree p i i []) ts = ts" for ts by (induction ts rule: forest_induct) (simp_all add: list_splice_def)
  from this [of "[t]"] show ?thesis by simp
qed

lemma splice_placed:
  assumes "distinct (oids t)" and "p \<in> set (oids t)" and "i \<le> length (subs_of p t)"
  shows "splice_tree p (if backwards position then i else Suc i) (if backwards position then i else Suc i) (placed position us) (splice_tree p i i [u] t)
    = splice_tree p i i (placed position (u # us)) t"
  by (rule splice_splice [OF assms(1,2)]) (use splice_twice [OF assms(3)] in simp)

lemma insert_each_outcome:
  assumes "insertable gen doc h t us s" and "set_option parent \<union> set_option sibling \<subseteq> set (oids t)"
    and "insert_point doc h position (map_option NodeRef parent) (map_option NodeRef sibling) (nth_index index n) = Inr (p, i)"
  shows "\<exists>result doc' h' s'. insert_each doc (map t_oid us) n position (map_option NodeRef parent) (map_option NodeRef sibling) index
        (facade_preflight gen) h s = Some (result, doc', h', s')
    \<and> header_kept doc doc' \<and> content_kept h h' \<and> allocator_ran gen (length (forest_oids us)) s s'
    \<and> (\<forall>x \<in> set (oids t). ln_short_id (obj h' x) = ln_short_id (obj h x)) \<and> next_short_id (fst s) \<le> next_short_id (fst s')
    \<and> (case result of
         Inl f \<Rightarrow> (\<exists>errors. f = MutationError errors \<and> errors \<noteq> [])
           \<and> ((\<exists>x \<in> set (forest_oids us). \<not> is_uuid4 (ln_node_id (obj h x))) \<or> \<not> position_ok (Some position) (nth_index index n))
           \<and> (\<exists>vs ws. us = vs @ ws \<and> ws \<noteq> [] \<and> tracks doc' h' (splice_tree p i i (placed position vs) t)
                \<and> (vs = [] \<longrightarrow> doc' = doc \<and> h' = h \<and> s' = s) \<and> (vs \<noteq> [] \<longrightarrow> position_ok (Some position) (nth_index index n)))
       | Inr rs \<Rightarrow> length rs = length us \<and> tracks doc' h' (splice_tree p i i (placed position us) t)
           \<and> (us \<noteq> [] \<longrightarrow> position_ok (Some position) (nth_index index n))
           \<and> (\<forall>r \<in> set rs. \<forall>e \<in> set (mr_remap r). \<exists>i. sr_new_short_id e = Some i \<and> next_short_id (fst s) \<le> i \<and> i < next_short_id (fst s')))"
  using assms
proof (induction us arbitrary: doc h t s n i)
  case Nil
  then show ?case by (simp add: insertable_def splice_nothing)
next
  case (Cons u us)
  let ?ins = "insert_each doc (map t_oid (u # us)) n position (map_option NodeRef parent) (map_option NodeRef sibling) index (facade_preflight gen) h s"
  show ?case
  proof (cases "(\<forall>x \<in> set (oids u). is_uuid4 (ln_node_id (obj h x))) \<and> position_ok (Some position) (nth_index index n)")
    case False
    then obtain errors where "insert_node doc (t_oid u) position (map_option NodeRef parent) (map_option NodeRef sibling) (nth_index index n) (facade_preflight gen) h s
        = Some (Inl (MutationError errors), doc, h, s)" "errors \<noteq> []"
      using insert_one_rejected [OF Cons.prems(1,3)] by blast
    then have run: "?ins = Some (Inl (MutationError errors), doc, h, s)" by simp
    have "(\<exists>x \<in> set (forest_oids (u # us)). \<not> is_uuid4 (ln_node_id (obj h x))) \<or> \<not> position_ok (Some position) (nth_index index n)"
      using False by auto
    moreover have "tracks doc h (splice_tree p i i (placed position []) t)" using Cons.prems(1) by (simp add: insertable_def splice_nothing)
    moreover have "u # us = [] @ u # us" by simp
    ultimately show ?thesis
      unfolding run using \<open>errors \<noteq> []\<close>
      by (intro exI [of _ "Inl (MutationError errors)"] exI [of _ doc] exI [of _ h] exI [of _ s]) fastforce
  next
    case True
    obtain r doc1 h1 s1 where one: "insert_node doc (t_oid u) position (map_option NodeRef parent) (map_option NodeRef sibling) (nth_index index n)
        (facade_preflight gen) h s = Some (Inr r, doc1, h1, s1)" "insertable gen doc1 h1 (splice_tree p i i [u] t) us s1"
      "header_kept doc doc1" "content_kept h h1" "allocator_ran gen (length (oids u)) s s1"
      "\<forall>x \<in> set (oids t). ln_short_id (obj h1 x) = ln_short_id (obj h x)" "next_short_id (fst s) \<le> next_short_id (fst s1)"
      "\<forall>e \<in> set (mr_remap r). \<exists>i. sr_new_short_id e = Some i \<and> next_short_id (fst s) \<le> i \<and> i < next_short_id (fst s1)"
      using insert_one [OF Cons.prems(1,3)] True by blast
    have tr: "tracks doc h t" "tracks doc1 h1 (splice_tree p i i [u] t)" using Cons.prems(1) one(2) by (simp_all add: insertable_def)
    have p: "p \<in> set (oids t)" "i \<le> length (subs_of p t)" by (rule insert_point_in [OF tr(1) Cons.prems(3)])+
    have apart: "set (oids u) \<inter> set (oids t) = {}" "distinct (oids u)"
      using insertable_apart [OF Cons.prems(1)] Cons.prems(1) by (auto simp: insertable_def incoming_ok_def)
    have more: "set (oids (splice_tree p i i [u] t)) = set (oids t) \<union> set (oids u)"
      using splice_oids(2) [OF tracksD(3) [OF tr(1)] p(1) order_refl p(2), of "[u]"] apart by (simp add: list_slice_def)
    have sub: "set (oids t) \<subseteq> set (oids (splice_tree p i i [u] t))" unfolding more by blast
    have "t_oid u \<notin> set (oids t)" using apart(1) root_in_oids [of u] by blast
    note point = next_insert_point [OF tr this Cons.prems(2) sub Cons.prems(3)] True
    have args: "set_option parent \<union> set_option sibling \<subseteq> set (oids (splice_tree p i i [u] t))" using Cons.prems(2) sub by blast
    have kept_ids: "ln_node_id (obj h1 x) = ln_node_id (obj h x)" for x using one(4) by (simp add: content_kept_def)
    let ?t = "splice_tree p i i [u] t" let ?i = "if backwards position then i else Suc i"
    have pt: "insert_point doc1 h1 position (map_option NodeRef parent) (map_option NodeRef sibling) (nth_index index (Suc n)) = Inr (p, ?i)"
      and ok: "position_ok (Some position) (nth_index index (Suc n))" using point True by blast+
    obtain result doc' h' s' where rest: "insert_each doc1 (map t_oid us) (Suc n) position (map_option NodeRef parent) (map_option NodeRef sibling) index
        (facade_preflight gen) h1 s1 = Some (result, doc', h', s')"
      and frame: "header_kept doc1 doc'" "content_kept h1 h'" "allocator_ran gen (length (forest_oids us)) s1 s'"
        "\<forall>x \<in> set (oids ?t). ln_short_id (obj h' x) = ln_short_id (obj h1 x)" "next_short_id (fst s1) \<le> next_short_id (fst s')"
      and res: "case result of
         Inl f \<Rightarrow> (\<exists>errors. f = MutationError errors \<and> errors \<noteq> [])
           \<and> ((\<exists>x \<in> set (forest_oids us). \<not> is_uuid4 (ln_node_id (obj h1 x))) \<or> \<not> position_ok (Some position) (nth_index index (Suc n)))
           \<and> (\<exists>vs ws. us = vs @ ws \<and> ws \<noteq> [] \<and> tracks doc' h' (splice_tree p ?i ?i (placed position vs) ?t)
                \<and> (vs = [] \<longrightarrow> doc' = doc1 \<and> h' = h1 \<and> s' = s1) \<and> (vs \<noteq> [] \<longrightarrow> position_ok (Some position) (nth_index index (Suc n))))
       | Inr rs \<Rightarrow> length rs = length us \<and> tracks doc' h' (splice_tree p ?i ?i (placed position us) ?t)
           \<and> (us \<noteq> [] \<longrightarrow> position_ok (Some position) (nth_index index (Suc n)))
           \<and> (\<forall>r \<in> set rs. \<forall>e \<in> set (mr_remap r). \<exists>i. sr_new_short_id e = Some i \<and> next_short_id (fst s1) \<le> i \<and> i < next_short_id (fst s'))"
      using Cons.IH [OF one(2) args pt] by (elim exE conjE) (rule that)
    have run: "?ins = Some (map_sum id (Cons r) result, doc', h', s')" by (simp add: one(1) rest)
    have "header_kept doc doc'" using one(3) frame(1) by (simp add: header_kept_def)
    moreover have "content_kept h h'" by (rule content_kept_trans [OF one(4) frame(2)])
    moreover have "allocator_ran gen (length (forest_oids (u # us))) s s'" using allocator_ran_trans [OF one(5) frame(3)] by simp
    moreover have "\<forall>x \<in> set (oids t). ln_short_id (obj h' x) = ln_short_id (obj h x)" using frame(4) one(6) sub by (metis subsetD)
    moreover have "next_short_id (fst s) \<le> next_short_id (fst s')" using one(7) frame(5) by simp
    moreover note splice = splice_placed [OF tracksD(3) [OF tr(1)] p, of position]
    moreover have "case map_sum id (Cons r) result of
         Inl f \<Rightarrow> (\<exists>errors. f = MutationError errors \<and> errors \<noteq> [])
           \<and> ((\<exists>x \<in> set (forest_oids (u # us)). \<not> is_uuid4 (ln_node_id (obj h x))) \<or> \<not> position_ok (Some position) (nth_index index n))
           \<and> (\<exists>vs ws. u # us = vs @ ws \<and> ws \<noteq> [] \<and> tracks doc' h' (splice_tree p i i (placed position vs) t)
                \<and> (vs = [] \<longrightarrow> doc' = doc \<and> h' = h \<and> s' = s) \<and> (vs \<noteq> [] \<longrightarrow> position_ok (Some position) (nth_index index n)))
       | Inr rs \<Rightarrow> length rs = length (u # us) \<and> tracks doc' h' (splice_tree p i i (placed position (u # us)) t)
           \<and> (u # us \<noteq> [] \<longrightarrow> position_ok (Some position) (nth_index index n))
           \<and> (\<forall>r \<in> set rs. \<forall>e \<in> set (mr_remap r). \<exists>i. sr_new_short_id e = Some i \<and> next_short_id (fst s) \<le> i \<and> i < next_short_id (fst s'))"
    proof (cases result)
      case (Inl f)
      obtain vs ws errors where vs: "us = vs @ ws" "ws \<noteq> []" "tracks doc' h' (splice_tree p i i (placed position (u # vs)) t)"
        "f = MutationError errors" "errors \<noteq> []" "\<exists>x \<in> set (forest_oids us). \<not> is_uuid4 (ln_node_id (obj h x))"
        using res ok unfolding Inl splice kept_ids sum.case by blast
      have "u # us = (u # vs) @ ws" by (simp add: vs(1))
      moreover have "\<exists>x \<in> set (forest_oids (u # us)). \<not> is_uuid4 (ln_node_id (obj h x))" using vs(6) by auto
      ultimately show ?thesis using vs(2-5) True unfolding Inl by (simp only: sum.case map_sum.simps id_apply) blast
    next
      case (Inr rs)
      then show ?thesis using res one(7,8) frame(5) True unfolding splice by fastforce
    qed
    ultimately show ?thesis unfolding run by blast
  qed
qed

section \<open>Insertion through the facade\<close>

lemma insert_point_cong:
  assumes "tracks doc h t" and "tracks doc h' t" and "\<And>x. x \<in> set (oids t) \<Longrightarrow> obj h' x = obj h x"
    and "set_option parent \<union> set_option sibling \<subseteq> set (oids t)"
  shows "insert_point doc h' position (map_option NodeRef parent) (map_option NodeRef sibling) index
    = insert_point doc h position (map_option NodeRef parent) (map_option NodeRef sibling) index"
proof -
  have res: "Option.bind (map_option NodeRef z) (resolve_ref doc h) = z" "Option.bind (map_option NodeRef z) (resolve_ref doc h') = z"
    if "set_option z \<subseteq> set (oids t)" for z
    using that resolve_ref_node [OF tracksD(4) [OF assms(1)]] resolve_ref_node [OF tracksD(4) [OF assms(2)]] by (cases z; auto)+
  have args: "set_option parent \<subseteq> set (oids t)" "set_option sibling \<subseteq> set (oids t)" using assms(4) by simp_all
  have up: "obj h' p = obj h p" if "x \<in> set (oids t)" "ln_parent (obj h x) = Some p" for x p
    using parent_in_tree [OF tracksD(1) [OF assms(1)] that] assms(3) by blast
  show ?thesis
    unfolding insert_point_def attach_point_def Let_def res(1) [OF args(1)] res(1) [OF args(2)] res(2) [OF args(1)] res(2) [OF args(2)]
    using args assms(3) up by (cases parent; cases sibling) (auto split: option.splits)
qed

lemma optional_node_in:
  "table_ok doc h S \<Longrightarrow> optional_node reference doc h address = Inr z \<Longrightarrow> set_option z \<subseteq> S"
proof (cases address)
  case (Some a)
  assume table: "table_ok doc h S" and z: "optional_node reference doc h address = Inr z"
  obtain xs where xs: "address_nodes reference doc h [a] = Inr xs" "z = Some (hd xs)"
    using z Some unfolding optional_node_def by (cases "address_nodes reference doc h [a]") (simp_all del: address_nodes.simps)
  then have "xs \<noteq> []" by (auto split: sum.splits option.splits)
  then show ?thesis using address_nodes_in [OF table xs(1)] xs(2) by (auto intro: hd_in_set subsetD)
qed (simp add: optional_node_def)

lemma ready_insertable: "ready gen doc h t ts \<Longrightarrow> insertable gen doc h t (placed position ts) (td_short_id_map doc, minted h)"
proof -
  assume rdy: "ready gen doc h t ts"
  have "set (forest_oids (rev ts)) = set (forest_oids ts)" "length (forest_oids (rev ts)) = length (forest_oids ts)"
    "distinct (forest_oids (rev ts)) = distinct (forest_oids ts)"
    by (simp_all add: rev_map [symmetric] sum_list_rev length_concat)
  then show ?thesis
    using rdy loaded_tracks [of doc h t] unfolding ready_def insertable_def incoming_ok_def
    by (auto simp: list_all_iff simp del: set_concat map_concat)
qed

text \<open>The loop of the command, on a ready document, up to the commit.\<close>

lemma inserted_fragment:
  assumes "ready gen doc h t ts" and "set_option parent \<union> set_option sibling \<subseteq> set (oids t)"
    and "insert_point doc h position (map_option NodeRef parent) (map_option NodeRef sibling) (nth_index index 0) = Inr (p, i)"
  shows "\<exists>result doc2 h2 m k. insert_each doc (map t_oid (placed position ts)) 0 position (map_option NodeRef parent) (map_option NodeRef sibling)
        index (facade_preflight gen) h (td_short_id_map doc, minted h) = Some (result, doc2, h2, (m, k))
    \<and> header_kept doc doc2 \<and> content_kept h h2 \<and> allocator_ran gen (length (forest_oids ts)) (td_short_id_map doc, minted h) (m, k)
    \<and> (case result of
         Inl f \<Rightarrow> ((\<exists>x \<in> set (forest_oids ts). \<not> is_uuid4 (ln_node_id (obj h x))) \<or> \<not> position_ok (Some position) (nth_index index 0))
           \<and> (doc2 = doc \<and> h2 = h \<and> m = td_short_id_map doc \<and> k = minted h
              \<or> (\<exists>vs. vs \<noteq> [] \<and> position_ok (Some position) (nth_index index 0) \<and> tracks doc2 h2 (splice_tree p i i vs t)))
       | Inr rs \<Rightarrow> length rs = length ts \<and> tracks doc2 h2 (splice_tree p i i ts t) \<and> (ts \<noteq> [] \<longrightarrow> position_ok (Some position) (nth_index index 0))
           \<and> (\<forall>e \<in> set (concat (map mr_remap (placed position rs))). \<exists>s. sr_new_short_id e = Some s
                \<and> next_short_id (td_short_id_map doc) \<le> s \<and> s < next_short_id m))"
proof -
  have same: "set (forest_oids (placed position ts)) = set (forest_oids ts)" "length (forest_oids (placed position ts)) = length (forest_oids ts)"
    "placed position (placed position ts) = ts" "length (placed position ts) = length ts" "placed position ts \<noteq> [] \<longleftrightarrow> ts \<noteq> []"
    by (simp_all add: rev_map [symmetric] sum_list_rev length_concat)
  obtain result doc2 h2 s' where run: "insert_each doc (map t_oid (placed position ts)) 0 position (map_option NodeRef parent) (map_option NodeRef sibling)
        index (facade_preflight gen) h (td_short_id_map doc, minted h) = Some (result, doc2, h2, s')"
    "header_kept doc doc2" "content_kept h h2" "allocator_ran gen (length (forest_oids ts)) (td_short_id_map doc, minted h) s'"
    and res: "case result of
         Inl f \<Rightarrow> (\<exists>errors. f = MutationError errors \<and> errors \<noteq> [])
           \<and> ((\<exists>x \<in> set (forest_oids ts). \<not> is_uuid4 (ln_node_id (obj h x))) \<or> \<not> position_ok (Some position) (nth_index index 0))
           \<and> (\<exists>vs ws. placed position ts = vs @ ws \<and> ws \<noteq> [] \<and> tracks doc2 h2 (splice_tree p i i (placed position vs) t)
                \<and> (vs = [] \<longrightarrow> doc2 = doc \<and> h2 = h \<and> s' = (td_short_id_map doc, minted h)) \<and> (vs \<noteq> [] \<longrightarrow> position_ok (Some position) (nth_index index 0)))
       | Inr rs \<Rightarrow> length rs = length ts \<and> tracks doc2 h2 (splice_tree p i i ts t)
           \<and> (ts \<noteq> [] \<longrightarrow> position_ok (Some position) (nth_index index 0))
           \<and> (\<forall>r \<in> set rs. \<forall>e \<in> set (mr_remap r). \<exists>i. sr_new_short_id e = Some i \<and> next_short_id (td_short_id_map doc) \<le> i \<and> i < next_short_id (fst s'))"
    using insert_each_outcome [OF ready_insertable [OF assms(1), of position] assms(2,3), unfolded same fst_conv]
    by (elim exE conjE) (rule that)
  obtain m k where s': "s' = (m, k)" by (cases s')
  note run = run [unfolded s'] and res = res [unfolded s' fst_conv]
  show ?thesis
  proof (cases result)
    case (Inl f)
    obtain vs where vs: "tracks doc2 h2 (splice_tree p i i (placed position vs) t)"
      "vs = [] \<longrightarrow> doc2 = doc \<and> h2 = h \<and> (m, k) = (td_short_id_map doc, minted h)" "vs \<noteq> [] \<longrightarrow> position_ok (Some position) (nth_index index 0)"
      using res unfolding Inl sum.case by blast
    have "placed position vs \<noteq> [] \<longleftrightarrow> vs \<noteq> []" by simp
    then show ?thesis using run res vs unfolding Inl by (intro exI conjI, simp) fastforce+
  next
    case (Inr rs)
    have "\<forall>e \<in> set (concat (map mr_remap (placed position rs))). \<exists>s. sr_new_short_id e = Some s \<and> next_short_id (td_short_id_map doc) \<le> s \<and> s < next_short_id m"
      using res unfolding Inr by auto
    then show ?thesis using run res unfolding Inr by auto
  qed
qed

text \<open>What the command does once its arguments are nodes of a ready document.\<close>

lemma insert_incoming_outcome:
  fixes position :: string and index :: index_argument
  assumes "ready gen doc h t ts" and "set_option parent \<union> set_option sibling \<subseteq> set (oids t)"
  defines "point \<equiv> insert_point doc h position (map_option NodeRef parent) (map_option NodeRef sibling) (nth_index index 0)"
  shows "\<exists>result doc' h'. insert_incoming gen position parent sibling index (map t_oid ts) doc h = Some (result, doc', h') \<and>
    (case result of
       Inl e \<Rightarrow> td_document_version doc' = td_document_version doc \<and>
         (doc' = doc \<and> h' = h \<and> (\<forall>p i. point = Inr (p, i) \<longrightarrow> ts = [] \<or> \<not> position_ok (Some position) (nth_index index 0)
              \<or> (\<exists>x \<in> set (forest_oids ts). \<not> is_uuid4 (ln_node_id (obj h x))))
          \<or> e = node_schema_error INVALID_PARENT_TYPE \<and> (\<exists>p i. p \<in> set (oids t) \<and> sync_fields (Some p) h = None \<and> tracks doc' h' (splice_tree p i i ts t))
          \<or> (\<exists>x \<in> set (forest_oids ts). \<not> is_uuid4 (ln_node_id (obj h x))) \<and> (\<exists>p i vs. vs \<noteq> [] \<and> tracks doc' h' (splice_tree p i i vs t)))
     | Inr r \<Rightarrow> ts \<noteq> [] \<and> (\<exists>p i. point = Inr (p, i) \<and> p \<in> set (oids t) \<and> i \<le> length (subs_of p t)
         \<and> edited doc h t doc' h' (splice_tree p i i ts t) (mr_remap r)))"
proof -
  have tr: "tracks doc h t" using assms(1) loaded_tracks by (simp add: ready_def)
  let ?each = "insert_each doc (map t_oid (placed position ts)) 0 position (map_option NodeRef parent) (map_option NodeRef sibling) index
    (facade_preflight gen) h (td_short_id_map doc, minted h)"
  have cmd: "insert_incoming gen position parent sibling index (map t_oid ts) doc h =
      (case outcome of Inl f \<Rightarrow> Some (Inl (mutation_exception f), doc2\<lparr>td_short_id_map := m\<rparr>, h2\<lparr>minted := k\<rparr>)
       | Inr rs \<Rightarrow> if rs = [] then Some (Inl builtin_error, doc2\<lparr>td_short_id_map := m\<rparr>, h2\<lparr>minted := k\<rparr>)
           else commit_after (Inr (joined_result (placed position rs))) [ln_parent (obj h2 (hd (map t_oid ts)))] (doc2\<lparr>td_short_id_map := m\<rparr>) (h2\<lparr>minted := k\<rparr>))"
    if "?each = Some (outcome, doc2, h2, (m, k))" for outcome doc2 h2 m k
    using that by (cases "backwards position") (simp_all add: insert_incoming_def with_allocator_def rev_map split: sum.split)
  show ?thesis
  proof (cases "ts = [] \<or> (\<exists>c. point = Inl c)")
    case True
    have "\<exists>e. insert_incoming gen position parent sibling index (map t_oid ts) doc h = Some (Inl e, doc, h)"
    proof (cases "ts = []")
      case False
      then obtain u us c where "placed position ts = u # us" "point = Inl c" using True by (cases "placed position ts") (auto split: if_splits)
      then have "?each = Some (Inl (rejection c), doc, h, (td_short_id_map doc, minted h))" by (simp add: insert_node_def point_def)
      from cmd [OF this] show ?thesis by simp
    qed (use cmd in simp)
    then show ?thesis using True by auto
  next
    case False
    then obtain p i where point: "point = Inr (p, i)" and "ts \<noteq> []" by (cases point) auto
    note p = insert_point_in [OF tr point [unfolded point_def]]
    obtain outcome doc2 h2 m k where out: "?each = Some (outcome, doc2, h2, (m, k))" "header_kept doc doc2" "content_kept h h2"
      "allocator_ran gen (length (forest_oids ts)) (td_short_id_map doc, minted h) (m, k)"
      and res: "case outcome of
         Inl f \<Rightarrow> ((\<exists>x \<in> set (forest_oids ts). \<not> is_uuid4 (ln_node_id (obj h x))) \<or> \<not> position_ok (Some position) (nth_index index 0))
           \<and> (doc2 = doc \<and> h2 = h \<and> m = td_short_id_map doc \<and> k = minted h
              \<or> (\<exists>vs. vs \<noteq> [] \<and> position_ok (Some position) (nth_index index 0) \<and> tracks doc2 h2 (splice_tree p i i vs t)))
       | Inr rs \<Rightarrow> length rs = length ts \<and> tracks doc2 h2 (splice_tree p i i ts t) \<and> (ts \<noteq> [] \<longrightarrow> position_ok (Some position) (nth_index index 0))
           \<and> (\<forall>e \<in> set (concat (map mr_remap (placed position rs))). \<exists>s. sr_new_short_id e = Some s
                \<and> next_short_id (td_short_id_map doc) \<le> s \<and> s < next_short_id m)"
      using inserted_fragment [OF assms(1,2) point [unfolded point_def]] by (elim exE conjE) (rule that)
    note cmd = cmd [OF out(1)]
    show ?thesis
    proof (cases outcome)
      case (Inl f)
      have run: "insert_incoming gen position parent sibling index (map t_oid ts) doc h
          = Some (Inl (mutation_exception f), doc2\<lparr>td_short_id_map := m\<rparr>, h2\<lparr>minted := k\<rparr>)" using cmd by (simp add: Inl)
      have version: "td_document_version doc2 = td_document_version doc" using out(2) by (simp add: header_kept_def)
      from res [unfolded Inl sum.case] consider "doc2 = doc" "h2 = h" "m = td_short_id_map doc" "k = minted h"
        | vs where "vs \<noteq> []" "position_ok (Some position) (nth_index index 0)" "tracks doc2 h2 (splice_tree p i i vs t)" by blast
      then show ?thesis
      proof cases
        case 1
        then show ?thesis using run res unfolding Inl by auto
      next
        case 2
        have "tracks (doc2\<lparr>td_short_id_map := m\<rparr>) (h2\<lparr>minted := k\<rparr>) (splice_tree p i i vs t)" by (rule tracks_cong [OF 2(3)]) simp_all
        then have "(\<exists>x \<in> set (forest_oids ts). \<not> is_uuid4 (ln_node_id (obj h x)))
            \<and> (\<exists>p i vs. vs \<noteq> [] \<and> tracks (doc2\<lparr>td_short_id_map := m\<rparr>) (h2\<lparr>minted := k\<rparr>) (splice_tree p i i vs t))"
          using res 2(1,2) unfolding Inl sum.case by blast
        then show ?thesis using version by (simp only: run option.inject prod.inject) (intro exI conjI, (rule refl)+, simp)
      qed
    next
      case (Inr rs)
      have N: "distinct (forest_oids ts)" "set (forest_oids ts) \<inter> set (oids t) = {}"
        using assms(1) by (auto simp: ready_def incoming_ok_def)
      note more = splice_oids(2) [OF tracksD(3) [OF tr] p(1) order_refl p(2) N]
      have in_new: "p \<in> set (oids (splice_tree p i i ts t))" "set (oids (splice_tree p i i ts t)) \<subseteq> set (oids t) \<union> set (forest_oids ts)"
        using p(1) unfolding more by (auto simp: list_slice_def)
      have tr2: "tracks doc2 h2 (splice_tree p i i ts t)" using res by (simp add: Inr)
      have par: "ln_parent (obj h2 (hd (map t_oid ts))) = Some p"
      proof (rule child_in_tree(2) [OF tracksD(1,3) [OF tr2] in_new(1)])
        show "hd (map t_oid ts) \<in> set (ln_children (obj h2 p))"
          using tracked_children(1) [OF tr2 in_new(1)] subs_splice [OF tracksD(3) [OF tr] p(1)] \<open>ts \<noteq> []\<close>
          by (simp add: list_splice_def hd_map)
      qed
      have remap: "\<forall>e \<in> set (mr_remap (joined_result (placed position rs))). \<exists>s. sr_new_short_id e = Some s
          \<and> next_short_id (td_short_id_map doc) \<le> s \<and> s < next_short_id m" using res by (simp add: Inr joined_result_def)
      have "rs \<noteq> []" using res \<open>ts \<noteq> []\<close> by (auto simp: Inr)
      then have run: "insert_incoming gen position parent sibling index (map t_oid ts) doc h
          = commit_after (Inr (joined_result (placed position rs))) [Some p] (doc2\<lparr>td_short_id_map := m\<rparr>) (h2\<lparr>minted := k\<rparr>)"
        using cmd par by (simp add: Inr)
      from edit_outcome [OF assms(1) tr2 in_new out(2-4) remap, where r = "joined_result (placed position rs)"] obtain result doc' h'
        where com: "insert_incoming gen position parent sibling index (map t_oid ts) doc h = Some (result, doc', h')"
        "case result of
             Inl e \<Rightarrow> e = node_schema_error INVALID_PARENT_TYPE \<and> sync_fields (Some p) h = None \<and> tracks doc' h' (splice_tree p i i ts t)
               \<and> td_document_version doc' = td_document_version doc
           | Inr r' \<Rightarrow> r' = joined_result (placed position rs) \<and> edited doc h t doc' h' (splice_tree p i i ts t) (mr_remap (joined_result (placed position rs)))"
        unfolding run by blast
      show ?thesis
        unfolding com(1) by (intro exI conjI, rule refl) (use com(2) point p \<open>ts \<noteq> []\<close> in \<open>cases result; simp; blast\<close>)
    qed
  qed
qed

text \<open>
  C6. Insertion through the facade: on a loaded document, with ids supplied as assumed, it always returns. On success the version was not
  stale and the place resolved; the document is loaded, one version later, with all the parsed trees at that place in the order of the
  source, whichever of the five positions was asked for; nodes that were there keep UUID and short id, and the reported new short ids belong to no node.
  An error is of the public hierarchy, the version is as before, and there are three cases: no object and no table has changed, and the version was stale, an address or the place did not
  resolve, the source gave no node, the position argument is not valid, or some UUID of the source is not of version 4; the parent's fields cannot hold its children, which
  is found only after the insertion; or a later tree of the source has such a UUID, and the trees inserted before it stay in the tree without a commit.
\<close>

theorem facade_insert_commits:
  assumes "loaded doc h t" and "set (oids t) \<subseteq> {..<next_oid h}" and "ids_supplied gen plugin source doc h"
  shows "\<exists>result doc' h'. facade_insert gen reference plugin source position parent sibling index expected doc h = Some (result, doc', h') \<and>
    (case result of
       Inl e \<Rightarrow> (\<exists>c. e = Engine c) \<and> td_document_version doc' = td_document_version doc
         \<and> (doc' = doc \<and> (\<forall>x < next_oid h. obj h' x = obj h x)
              \<and> (\<forall>a b p i roots h1. optional_node reference doc h parent = Inr a \<and> optional_node reference doc h sibling = Inr b
                  \<and> fragment gen plugin doc source h = Some (Inr roots, h1)
                  \<and> insert_point doc h position (map_option NodeRef a) (map_option NodeRef b) (nth_index index 0) = Inr (p, i)
                  \<longrightarrow> stale doc expected \<or> roots = [] \<or> \<not> position_ok (Some position) (nth_index index 0)
                    \<or> (\<exists>u \<in> set (parsed_ids plugin source). \<not> is_uuid4 u))
            \<or> e = Engine InvalidParentType \<and> (\<exists>p i ts. sync_fields (Some p) h = None \<and> tracks doc' h' (splice_tree p i i ts t))
            \<or> (\<exists>u \<in> set (parsed_ids plugin source). \<not> is_uuid4 u) \<and> (\<exists>p i vs. vs \<noteq> [] \<and> tracks doc' h' (splice_tree p i i vs t)))
     | Inr r \<Rightarrow> \<not> stale doc expected \<and> (\<exists>a b p i ts h1. optional_node reference doc h parent = Inr a \<and> optional_node reference doc h sibling = Inr b
         \<and> fragment gen plugin doc source h = Some (Inr (map t_oid ts), h1) \<and> ts \<noteq> []
         \<and> insert_point doc h position (map_option NodeRef a) (map_option NodeRef b) (nth_index index 0) = Inr (p, i)
         \<and> p \<in> set (oids t) \<and> i \<le> length (subs_of p t)
         \<and> edited doc h t doc' h' (splice_tree p i i ts t) (mr_remap r)))"
proof (cases "stale doc expected")
  case True
  then show ?thesis by (simp add: facade_insert_def operation_def)
next
  case current: False
  note run = facade_insert_def operation_def
  obtain parsed h1 where frag: "fragment gen plugin doc source h = Some (parsed, h1)" "next_oid h \<le> next_oid h1" "\<forall>x < next_oid h. obj h1 x = obj h x"
    "\<forall>roots. parsed = Inr roots \<longrightarrow> (\<exists>ts. roots = map t_oid ts \<and> ready gen doc h1 t ts \<and> set (forest_oids ts) \<subseteq> {next_oid h..<next_oid h1}
        \<and> ((\<forall>u \<in> set (parsed_ids plugin source). is_uuid4 u) \<longrightarrow> (\<forall>x \<in> set (forest_oids ts). is_uuid4 (ln_node_id (obj h1 x)))))"
    using fragment_ready [OF assms] by blast
  have same: "obj h1 x = obj h x" if "x \<in> set (oids t)" for x using frag(3) assms(2) that by auto
  have load1: "loaded doc h1 t" by (rule loaded_frame [OF assms(1) same])
  note tr = loaded_tracks [OF assms(1)] loaded_tracks [OF load1]
  show ?thesis
  proof (cases "(\<exists>a b. optional_node reference doc h parent = Inr a \<and> optional_node reference doc h sibling = Inr b) \<and> (\<exists>roots. parsed = Inr roots)")
    case False
    then obtain e h2 where "facade_insert gen reference plugin source position parent sibling index expected doc h = Some (Inl (typed INVALID_POSITION e), doc, h2)"
      "h2 = h \<or> h2 = h1"
      using current frag(1) by (cases "optional_node reference doc h parent"; cases "optional_node reference doc h sibling"; cases parsed) (auto simp: run)
    then show ?thesis using False frag(1,3) typed_engine by auto
  next
    case True
    then obtain a b roots where ok: "optional_node reference doc h parent = Inr a" "optional_node reference doc h sibling = Inr b" "parsed = Inr roots" by blast
    obtain ts where frag_ts: "roots = map t_oid ts" "ready gen doc h1 t ts"
      "(\<forall>u \<in> set (parsed_ids plugin source). is_uuid4 u) \<longrightarrow> (\<forall>x \<in> set (forest_oids ts). is_uuid4 (ln_node_id (obj h1 x)))"
      using frag(4) ok(3) by blast
    have "(\<exists>x \<in> set (forest_oids ts). \<not> is_uuid4 (ln_node_id (obj h1 x))) \<longrightarrow> (\<exists>u \<in> set (parsed_ids plugin source). \<not> is_uuid4 u)"
      using frag_ts(3) by blast
    note ts = frag_ts(1,2) this
    have refs: "set_option a \<union> set_option b \<subseteq> set (oids t)" using optional_node_in [OF tracksD(4) [OF tr(1)]] ok by blast
    have point_eq: "insert_point doc h1 position (map_option NodeRef a) (map_option NodeRef b) (nth_index index 0)
        = insert_point doc h position (map_option NodeRef a) (map_option NodeRef b) (nth_index index 0)"
      by (rule insert_point_cong [OF tr _ refs]) (rule same)
    have fields: "sync_fields (Some p) h1 = None \<longleftrightarrow> sync_fields (Some p) h = None" if "p \<in> set (oids t)" for p
      using same [OF that] by (simp add: sync_fields_refuses)
    let ?point = "insert_point doc h position (map_option NodeRef a) (map_option NodeRef b) (nth_index index 0)"
    obtain result doc' h' where ins: "insert_incoming gen position a b index (map t_oid ts) doc h1 = Some (result, doc', h')"
      and res: "case result of
       Inl e \<Rightarrow> td_document_version doc' = td_document_version doc \<and>
         (doc' = doc \<and> h' = h1 \<and> (\<forall>p i. ?point = Inr (p, i) \<longrightarrow> ts = [] \<or> \<not> position_ok (Some position) (nth_index index 0)
              \<or> (\<exists>x \<in> set (forest_oids ts). \<not> is_uuid4 (ln_node_id (obj h1 x))))
          \<or> e = node_schema_error INVALID_PARENT_TYPE \<and> (\<exists>p i. p \<in> set (oids t) \<and> sync_fields (Some p) h1 = None \<and> tracks doc' h' (splice_tree p i i ts t))
          \<or> (\<exists>x \<in> set (forest_oids ts). \<not> is_uuid4 (ln_node_id (obj h1 x))) \<and> (\<exists>p i vs. vs \<noteq> [] \<and> tracks doc' h' (splice_tree p i i vs t)))
     | Inr r \<Rightarrow> ts \<noteq> [] \<and> (\<exists>p i. ?point = Inr (p, i) \<and> p \<in> set (oids t) \<and> i \<le> length (subs_of p t)
         \<and> edited doc h1 t doc' h' (splice_tree p i i ts t) (mr_remap r))"
      using insert_incoming_outcome [OF ts(2) refs, of position index, unfolded point_eq] by (elim exE conjE) (rule that)
    have cmd: "facade_insert gen reference plugin source position parent sibling index expected doc h = Some (map_sum (typed INVALID_POSITION) id result, doc', h')"
      using current frag(1) ok ins ts(1) by (simp add: run)
    show ?thesis
    proof (cases result)
      case (Inl e)
      have cmd: "facade_insert gen reference plugin source position parent sibling index expected doc h = Some (Inl (typed INVALID_POSITION e), doc', h')"
        using cmd by (simp add: Inl)
      have version: "td_document_version doc' = td_document_version doc" using res by (simp add: Inl)
      from res [unfolded Inl sum.case] consider
          "doc' = doc" "h' = h1" "\<And>p i. ?point = Inr (p, i) \<Longrightarrow> ts = [] \<or> \<not> position_ok (Some position) (nth_index index 0)
              \<or> (\<exists>x \<in> set (forest_oids ts). \<not> is_uuid4 (ln_node_id (obj h1 x)))"
        | "e = node_schema_error INVALID_PARENT_TYPE" "\<exists>p i. sync_fields (Some p) h = None \<and> tracks doc' h' (splice_tree p i i ts t)"
        | "\<exists>u \<in> set (parsed_ids plugin source). \<not> is_uuid4 u" "\<exists>p i vs. vs \<noteq> [] \<and> tracks doc' h' (splice_tree p i i vs t)"
        using fields ts(3) by blast
      then show ?thesis
      proof cases
        case 1
        have "\<not> position_ok (Some position) (nth_index index 0) \<or> roots = [] \<or> (\<exists>u \<in> set (parsed_ids plugin source). \<not> is_uuid4 u)"
          if "?point = Inr (p, i)" for p i
          using 1(3) [OF that] ts(1,3) by blast
        then show ?thesis using cmd version 1(1,2) frag(1,3) ok typed_engine by auto
      next
        case 2
        then have "\<exists>p i ts. sync_fields (Some p) h = None \<and> tracks doc' h' (splice_tree p i i ts t)" by blast
        then show ?thesis using cmd version typed_schema_error 2(1) by simp
      next
        case 3
        then have "(\<exists>u \<in> set (parsed_ids plugin source). \<not> is_uuid4 u) \<and> (\<exists>p i vs. vs \<noteq> [] \<and> tracks doc' h' (splice_tree p i i vs t))"
          by blast
        then show ?thesis using cmd version typed_engine by simp
      qed
    next
      case (Inr r)
      obtain p i where at: "?point = Inr (p, i)" "p \<in> set (oids t)" "i \<le> length (subs_of p t)" "ts \<noteq> []"
        "edited doc h1 t doc' h' (splice_tree p i i ts t) (mr_remap r)"
        using res [unfolded Inr sum.case] by blast
      have ed: "edited doc h t doc' h' (splice_tree p i i ts t) (mr_remap r)" by (rule edited_cong [OF at(5)]) (rule same)
      have done_r: "facade_insert gen reference plugin source position parent sibling index expected doc h = Some (Inr r, doc', h')"
        using cmd by (simp add: Inr)
      show ?thesis
        unfolding done_r
        by (rule exI [of _ "Inr r"], rule exI [of _ doc'], rule exI [of _ h'], rule conjI, rule refl, unfold sum.case, rule conjI, rule current,
            rule exI [of _ a], rule exI [of _ b], rule exI [of _ p], rule exI [of _ i], rule exI [of _ ts], rule exI [of _ h1])
          (use ok frag(1) ts(1) at(1-4) ed in simp)
    qed
  qed
qed

section \<open>On the example document\<close>

theorem facade_insert_commits_witness:
  "\<exists>r doc' h'. facade_insert work_gen None leaf_plugin ''x'' ''after'' None (Some (RawInt 2)) NoIndex (Some 1) work_doc work_heap = Some (Inr r, doc', h')
     \<and> (\<exists>us. loaded doc' h' (T 0 [T 1 [], T 5 us, T 2 []])) \<and> td_document_version doc' = 2 \<and> ln_short_id (obj h' 2) = Some 3"
proof -
  have bound: "set (oids (T 0 [T 1 [], T 2 []])) \<subseteq> {..<next_oid work_heap}" by (simp add: work_heap_def)
  note ins = facade_insert_commits [OF work_loaded bound work_supplied, of None "''after''" None "Some (RawInt 2)" NoIndex "Some 1"]
  have nodes: "optional_node None work_doc work_heap None = Inr None" "optional_node None work_doc work_heap (Some (RawInt 2)) = Inr (Some 1)"
    by (simp_all add: optional_node_def resolve_address_def normalize_node_address_def resolve_short_id_value_def tree_resolve_short_id_def
        get_node_id_def work_doc_def v4_inj)
  have point: "insert_point work_doc work_heap ''after'' None (Some (NodeRef 1)) NoIndex = Inr (0, 1)"
    by (simp add: insert_point_def attach_point_def resolve_ref_def work_defs v4_inj)
  have facts: "\<not> stale work_doc (Some 1)" "parsed_ids leaf_plugin ''x'' = []" "position_ok (Some ''after'') NoIndex"
    by (simp_all add: stale_def work_doc_def parsed_ids_def leaf_plugin_def position_ok_def VALID_POSITIONS_def)
  have fields: "sync_fields (Some p) work_heap \<noteq> None" for p
    by (simp add: sync_fields_refuses work_heap_def work_node_def)
  obtain h1 where frag: "fragment work_gen leaf_plugin work_doc ''x'' work_heap = Some (Inr [5], h1)" using work_fragment by blast
  obtain result doc' h' where run: "facade_insert work_gen None leaf_plugin ''x'' ''after'' None (Some (RawInt 2)) NoIndex (Some 1) work_doc work_heap
      = Some (result, doc', h')" using ins by blast
  note res = ins [unfolded run nodes frag]
  show ?thesis
  proof (cases result)
    case (Inl e)
    then show ?thesis using res point facts fields by auto
  next
    case (Inr r)
    have "\<exists>z. t_oid z = 5 \<and> edited work_doc work_heap (T 0 [T 1 [], T 2 []]) doc' h' (T 0 [T 1 [], z, T 2 []]) (mr_remap r)"
      using res point by (auto simp: Inr list_splice_def map_eq_Cons_conv)
    then obtain us where "edited work_doc work_heap (T 0 [T 1 [], T 2 []]) doc' h' (T 0 [T 1 [], T 5 us, T 2 []]) (mr_remap r)"
      by (metis otree.collapse)
    then show ?thesis using run unfolding edited_def Inr by (auto simp: work_doc_def work_heap_def work_node_def)
  qed
qed

end
