(* ===== verification/Bodies.thy ===== *)
theory Bodies
  imports Inserts
begin

text \<open>
  \<open>updates.set_body\<close> for a body of nodes, and \<open>facade.set_body\<close>: all children of a node are replaced. The preflight is run for
  every root without an allocator first, so that nothing is removed for a body that would be refused.
\<close>

section \<open>Replacing all children\<close>

fun dry_run ::
  "tree_document \<Rightarrow> oid list \<Rightarrow> oid \<Rightarrow> 's preflight \<Rightarrow> heap \<Rightarrow> 's \<Rightarrow> (short_id_error + validation_error list) option" where
  "dry_run doc [] p pf h s = Some (Inr [])"
| "dry_run doc (r # rs) p pf h s =
     Option.bind (validate_mutation doc r (Some p) (Some ''last_child'') NoIndex (pf\<lparr>pf_next_short_id := None\<rparr>) h s) (\<lambda>(result, _).
       case result of
         Inl e \<Rightarrow> Some (Inl e)
       | Inr v \<Rightarrow> map_option (map_sum id ((@) (vr_errors v))) (dry_run doc rs p pf h s))"

text \<open>The insertions after the old children are gone.\<close>

definition insert_body ::
  "oid \<Rightarrow> oid list \<Rightarrow> node_address list \<Rightarrow> 's preflight \<Rightarrow> tree_document \<Rightarrow> heap \<Rightarrow> 's \<Rightarrow> 's outcome option" where
  "insert_body p roots removed pf doc h s =
     map_option (\<lambda>(outcome, doc', h', s').
       (map_sum id (\<lambda>results. \<lparr>mr_node_id = Some (ln_node_id (obj h' p)), mr_short_id = ln_short_id (obj h' p), mr_position = Some 0,
          mr_remap = concat (map mr_remap results), mr_removed = removed, mr_inserted = concat (map mr_inserted results)\<rparr>) outcome,
        doc', h', s'))
       (insert_each doc roots 0 ''last_child'' (Some (NodeRef p)) None NoIndex pf h s)"

definition replace_children ::
  "tree_document \<Rightarrow> oid \<Rightarrow> oid list \<Rightarrow> 's preflight \<Rightarrow> heap \<Rightarrow> 's \<Rightarrow> 's outcome option" where
  "replace_children doc p roots pf h s =
     Option.bind (fragments_of h roots) (\<lambda>nodes.
       if \<not> distinct (map (\<lambda>x. ln_node_id (obj h x)) nodes) then Some (Inl (rejection NODE_ID_CONFLICT), doc, h, s)
       else Option.bind (dry_run doc roots p pf h s) (\<lambda>checked.
         case checked of
           Inl e \<Rightarrow> Some (Inl (AllocatorRaised e), doc, h, s)
         | Inr errors \<Rightarrow>
             if errors \<noteq> [] then Some (Inl (MutationError errors), doc, h, s)
             else if ln_children (obj h p) = [] then insert_body p roots [] pf doc h s
             else Option.bind (delete_nodes doc (map NodeRef (ln_children (obj h p))) h s) (\<lambda>(outcome, doc1, h1, s1).
               case outcome of
                 Inl f \<Rightarrow> Some (Inl f, doc1, h1, s1)
               | Inr r \<Rightarrow> insert_body p roots (mr_removed r) pf doc1 h1 s1)))"

definition set_node_body :: "tree_document \<Rightarrow> node_ref \<Rightarrow> oid list \<Rightarrow> 's preflight \<Rightarrow> heap \<Rightarrow> 's \<Rightarrow> 's outcome option" where
  "set_node_body doc r roots pf h s =
     (case resolve_stored doc h r of
        None \<Rightarrow> Some (Inl (rejection NODE_NOT_FOUND), doc, h, s)
      | Some x \<Rightarrow> replace_children doc x roots pf h s)"

definition facade_set_body ::
  "(nat \<Rightarrow> uuid) \<Rightarrow> plugin_reference option \<Rightarrow> fragment_plugin \<Rightarrow> raw_address \<Rightarrow> string \<Rightarrow> int option \<Rightarrow> mutation_result command" where
  "facade_set_body gen reference plugin address source expected = operation expected INVALID_PARENT_TYPE (\<lambda>doc h.
     case address_nodes reference doc h [address] of
       Inl e \<Rightarrow> Some (Inl e, doc, h)
     | Inr xs \<Rightarrow>
         Option.bind (fragment gen plugin doc source h) (\<lambda>(parsed, h1).
           case parsed of
             Inl e \<Rightarrow> Some (Inl e, doc, h1)
           | Inr incoming \<Rightarrow>
               Option.bind (with_allocator (set_node_body doc (NodeRef (hd xs)) incoming (facade_preflight gen) h1) doc h1)
                 (\<lambda>(outcome, doc2, h2). commit_after outcome [Some (hd xs)] doc2 h2)))"

section \<open>What a deletion leaves alone\<close>

definition links_kept :: "oid set \<Rightarrow> heap \<Rightarrow> heap \<Rightarrow> bool" where
  "links_kept S h h' \<longleftrightarrow> (\<forall>x. ln_short_id (obj h' x) = ln_short_id (obj h x)
     \<and> (x \<notin> S \<longrightarrow> ln_children (obj h' x) = ln_children (obj h x) \<and> ln_parent (obj h' x) = ln_parent (obj h x)))"

lemma links_kept_refl [simp]: "links_kept S h h" by (simp add: links_kept_def)

lemma links_kept_trans: "links_kept S h h1 \<Longrightarrow> links_kept S h1 h2 \<Longrightarrow> links_kept S h h2"
  by (simp add: links_kept_def)

lemma links_kept_mono: "links_kept S h h' \<Longrightarrow> S \<subseteq> S' \<Longrightarrow> links_kept S' h h'"
  by (auto simp: links_kept_def)

lemma shift_subtrees_kept:
  assumes "shift_subtrees d os h = Some h'"
  shows "content_kept h h' \<and> links_kept {} h h'"
proof (rule shift_subtrees.raw_induct [where P = "\<lambda>d os h h'. content_kept h h' \<and> links_kept {} h h'", OF _ assms])
  fix f d os h h'
  assume IH: "\<And>d os h h'. f d os h = Some h' \<Longrightarrow> content_kept h h' \<and> links_kept {} h h'"
    and run: "(case os of [] \<Rightarrow> Some h
      | x # rest \<Rightarrow> let h1 = put x (shift_node d (obj h x)) h in Option.bind (f d (ln_children (obj h1 x)) h1) (f d rest)) = Some h'"
  show "content_kept h h' \<and> links_kept {} h h'"
  proof (cases os)
    case (Cons x rest)
    let ?h1 = "put x (shift_node d (obj h x)) h"
    obtain h2 where h2: "f d (ln_children (obj ?h1 x)) ?h1 = Some h2" "f d rest h2 = Some h'"
      using run by (auto simp: Cons Let_def bind_eq_Some_conv)
    have one: "content_kept h ?h1" "links_kept {} h ?h1"
      by (auto simp: content_kept_def links_kept_def shift_node_def split: option.split)
    note two = IH [OF h2(1)] and three = IH [OF h2(2)]
    show ?thesis
      using content_kept_trans [OF content_kept_trans [OF one(1) conjunct1 [OF two]] conjunct1 [OF three]]
        links_kept_trans [OF links_kept_trans [OF one(2) conjunct2 [OF two]] conjunct2 [OF three]] by blast
  qed (use run in simp)
qed

lemma unregister_all_links: "unregister_all xs (doc, h) = Some (doc', h') \<Longrightarrow> links_kept (set xs) h h'"
proof (induction xs arbitrary: doc h)
  case (Cons x xs)
  then obtain ns where "unregister_all xs (fold (unregister_node h) ns doc, set_parent None x h) = Some (doc', h')"
    by (auto simp: unregister_subtree_def bind_eq_Some_conv)
  from Cons.IH [OF this] show ?case by (auto simp: links_kept_def)
qed simp

lemma remove_range_kept:
  assumes "remove_range xs p i j doc h = Some (doc', h')"
  shows "header_kept doc doc' \<and> content_kept h h' \<and> links_kept (insert p (set xs)) h h'"
proof -
  let ?h1 = "set_children p (take i (ln_children (obj h p)) @ drop j (ln_children (obj h p))) h"
  obtain h2 where h2: "content_kept ?h1 h2" "links_kept {p} ?h1 h2" "unregister_all xs (doc, h2) = Some (doc', h')"
  proof (cases "range_byte_length h xs = 0")
    case True
    then show ?thesis using assms that [of ?h1] by (simp add: remove_range_def Let_def)
  next
    case False
    let ?hs = "shrink_range p (range_byte_length h xs) ?h1"
    have one: "content_kept ?h1 ?hs" "links_kept {p} ?h1 ?hs"
      by (auto simp: shrink_range_def content_kept_def links_kept_def split: option.split)
    obtain h2 where two: "shift_subtrees (- range_byte_length h xs) (drop i (take i (ln_children (obj h p)) @ drop j (ln_children (obj h p)))) ?hs = Some h2"
      "unregister_all xs (doc, h2) = Some (doc', h')"
      using assms False by (auto simp: remove_range_def Let_def bind_eq_Some_conv)
    note shift = shift_subtrees_kept [OF two(1)]
    show ?thesis
      by (rule that [OF content_kept_trans [OF one(1) conjunct1 [OF shift]]
            links_kept_trans [OF one(2) links_kept_mono [OF conjunct2 [OF shift]]] two(2)]) simp
  qed
  have "links_kept {p} h ?h1" by (simp add: links_kept_def)
  then have "links_kept (insert p (set xs)) h h'"
    using links_kept_trans [OF links_kept_trans [OF links_kept_mono links_kept_mono [OF h2(2)]] links_kept_mono [OF unregister_all_links [OF h2(3)]],
      of "{p}" h "insert p (set xs)"] by auto
  then show ?thesis using unregister_all_kept [OF h2(3)] content_kept_trans [of h h2 h'] content_kept_trans [of h ?h1 h2] h2(1) by simp
qed

section \<open>The preflight of a body\<close>

lemma plan_without_allocator: "\<exists>plan. plan_loop h used None xs s = (Inr plan, s)"
proof (induction xs)
  case (Cons x xs)
  then obtain plan where "plan_loop h used None xs s = (Inr plan, s)" by blast
  then show ?case by (simp add: plan_loop.simps Let_def)
qed simp

text \<open>The preflight of one root without allocator: it reports an error exactly for an id that is not a UUID4.\<close>

lemma dry_root:
  fixes s :: 's and pf :: "'s preflight"
  assumes "ready gen doc h t ts" and "r \<in> set ts" and "p \<in> set (oids t)"
    and "pf = \<lparr>pf_is_type_compatible = None, pf_references = None, pf_loaded_documents = None, pf_used_short_ids = None, pf_next_short_id = None\<rparr>"
  shows "\<exists>v. validate_mutation doc (t_oid r) (Some p) (Some ''last_child'') NoIndex pf h s = Some (Inr v, s)
    \<and> (vr_errors v = [] \<longleftrightarrow> (\<forall>x \<in> set (oids r). is_uuid4 (ln_node_id (obj h x))))"
proof -
  have tr: "tracks doc h t" using assms(1) loaded_tracks by (simp add: ready_def)
  obtain os where os: "chain h (Some p) (p # os)" "set (p # os) \<subseteq> set (oids t)" by (rule chain_in_tree [OF tracksD(1) [OF tr] assms(3)])
  have "\<exists>q. linked h q r" using assms(1,2) by (auto simp: ready_def incoming_ok_def list_all_iff)
  then have sh: "shaped h r" using linked_shaped [of h _ "[r]"] by auto
  have new: "\<forall>x \<in> set (oids r). \<not> dict_has (td_nodes_by_id doc) (ln_node_id (obj h x))"
    using assms(1,2) by (auto simp: ready_def)
  have known: "dict_has (td_nodes_by_id doc) (ln_node_id (obj h a))" if "a \<in> set (oids t)" for a
    using table_ok_get [OF tracksD(4) [OF tr], of "ln_node_id (obj h a)" a] that by simp
  have apart: "ln_node_id (obj h a) \<noteq> ln_node_id (obj h x)" if "a \<in> set (p # os)" "x \<in> set (oids r)" for a x
    using known [of a] new os(2) that by force
  have "position_ok (Some ''last_child'') NoIndex" by (simp add: position_ok_def VALID_POSITIONS_def)
  then have violated: "violated doc h r (p # os) (Some p) (Some ''last_child'') NoIndex pf c
      \<longleftrightarrow> c = INVALID_SELECTOR \<and> (\<exists>x \<in> set (oids r). \<not> is_uuid4 (ln_node_id (obj h x)))" for c
    using new apart unfolding violated_def by (auto simp: assms(4))
  obtain outcome s' where run: "validate_mutation doc (t_oid r) (Some p) (Some ''last_child'') NoIndex pf h s = Some (outcome, s')"
    and out: "if \<exists>x \<in> set (oids r). \<not> is_uuid4 (ln_node_id (obj h x))
      then s' = s \<and> (\<exists>errors. outcome = Inr \<lparr>vr_success = False, vr_errors = errors, vr_short_id_plan = []\<rparr>
        \<and> ve_code ` set errors = {c. c = INVALID_SELECTOR \<and> (\<exists>x \<in> set (oids r). \<not> is_uuid4 (ln_node_id (obj h x)))})
      else \<forall>v. outcome = Inr v \<longrightarrow> vr_success v \<and> vr_errors v = []"
    using validate_mutation_outcome [OF sh os(1), of doc "Some ''last_child''" NoIndex pf s] unfolding violated by auto
  have "(\<exists>v. outcome = Inr v) \<and> s' = s"
    using run plan_without_allocator [of h "[]" "oids r" s]
    by (auto simp: validate_mutation_def iter_fragment_tree [OF sh] bind_eq_Some_conv Let_def assms(4)
        split: if_splits prod.splits sum.splits)
  then show ?thesis using run out by (fastforce split: if_splits)
qed

lemma dry_run_outcome:
  assumes "ready gen doc h t ts" and "set rs \<subseteq> set ts" and "p \<in> set (oids t)"
  shows "\<exists>errors. dry_run doc (map t_oid rs) p (facade_preflight gen) h s = Some (Inr errors)
    \<and> (errors = [] \<longleftrightarrow> (\<forall>x \<in> set (forest_oids rs). is_uuid4 (ln_node_id (obj h x))))"
  using assms(2)
proof (induction rs)
  case (Cons r rs)
  obtain v where "validate_mutation doc (t_oid r) (Some p) (Some ''last_child'') NoIndex ((facade_preflight gen)\<lparr>pf_next_short_id := None\<rparr>) h s = Some (Inr v, s)"
    "vr_errors v = [] \<longleftrightarrow> (\<forall>x \<in> set (oids r). is_uuid4 (ln_node_id (obj h x)))"
    using dry_root [OF assms(1) _ assms(3), of r "(facade_preflight gen)\<lparr>pf_next_short_id := None\<rparr>" s] Cons.prems
    by (auto simp: facade_preflight_def)
  moreover obtain errors where "dry_run doc (map t_oid rs) p (facade_preflight gen) h s = Some (Inr errors)"
    "errors = [] \<longleftrightarrow> (\<forall>x \<in> set (forest_oids rs). is_uuid4 (ln_node_id (obj h x)))"
    using Cons by auto
  ultimately show ?case by (simp del: set_concat, simp only: ball_Un)
qed simp

section \<open>After the old children are gone\<close>

lemma tracked_issued:
  assumes "tracks doc h t" and "\<forall>x \<in> set (oids t). \<forall>i. ln_short_id (obj h x) = Some i \<longrightarrow> i < next_short_id m"
  shows "index_issued doc m"
proof -
  have "table_ok doc h (set (oids t))" using assms(1) by (simp add: tracks_def)
  then have "dict_wf (td_short_id_index doc)"
    "\<And>i u. dict_get (td_short_id_index doc) i = Some u \<Longrightarrow> \<exists>x \<in> set (oids t). ln_short_id (obj h x) = Some i"
    unfolding table_ok_def by blast+
  then show ?thesis using assms(2) by (fastforce simp: index_issued_def list_all_iff dict_wf_def)
qed

lemma whole_range:
  assumes "tracks doc h t" and "p \<in> set (oids t)" and "ln_children (obj h p) \<noteq> []"
  shows "resolve_contiguous_range doc h (map NodeRef (ln_children (obj h p)))
    = Inr (ln_children (obj h p), p, 0, length (ln_children (obj h p)))"
proof -
  note t = tracksD [OF assms(1)]
  have kids: "x \<in> set (oids t)" "ln_parent (obj h x) = Some p" if "x \<in> set (ln_children (obj h p))" for x
    using child_in_tree [OF t(1,3) assms(2) that] by blast+
  have "resolve_targets (resolve_ref doc h) (map NodeRef xs) = Some xs" if "set xs \<subseteq> set (oids t)" for xs
    using that by (induction xs) (auto simp: resolve_ref_node [OF t(4)])
  then have res: "resolve_targets (resolve_ref doc h) (map NodeRef (ln_children (obj h p))) = Some (ln_children (obj h p))"
    using kids(1) by blast
  obtain c cs where c: "ln_children (obj h p) = c # cs" using assms(3) by (cases "ln_children (obj h p)") auto
  have "list_all (\<lambda>x. ln_parent (obj h x) = Some p) (tl (ln_children (obj h p)))" "ln_parent (obj h (hd (ln_children (obj h p)))) = Some p"
    "list_index (hd (ln_children (obj h p))) (ln_children (obj h p)) = Some 0"
    using kids(2) by (auto simp: c list_all_iff)
  then show ?thesis using assms(3) res by (simp add: resolve_contiguous_range_def contiguous_range_def Let_def)
qed

text \<open>The document and heap in which the insertions of a body start.\<close>

lemma emptied:
  assumes "ready gen doc h t ts" and "p \<in> set (oids t)" and "ln_children (obj h p) \<noteq> []"
  defines "t1 \<equiv> splice_tree p 0 (length (subs_of p t)) [] t"
  shows "\<exists>r doc1 h1. delete_nodes doc (map NodeRef (ln_children (obj h p))) h s = Some (Inr r, doc1, h1, s)
    \<and> insertable gen doc1 h1 t1 ts (td_short_id_map doc, minted h) \<and> header_kept doc doc1 \<and> content_kept h h1"
proof -
  have load: "loaded doc h t" using assms(1) by (simp add: ready_def)
  have tr: "tracks doc h t" by (rule loaded_tracks [OF load])
  let ?kids = "ln_children (obj h p)" let ?n = "length (subs_of p t)"
  have kids: "?kids = map t_oid (subs_of p t)" by (rule tracked_children(1) [OF tr assms(2)])
  note range = whole_range [OF tr assms(2,3)]
  have "\<exists>r doc1 h1. delete_nodes doc (map NodeRef ?kids) h s = Some (Inr r, doc1, h1, s) \<and> tracks doc1 h1 t1"
  proof -
    obtain result doc1 h1 where out: "delete_nodes doc (map NodeRef ?kids) h s = Some (result, doc1, h1, s)"
      "case result of Inl e \<Rightarrow> doc1 = doc \<and> h1 = h \<and> (\<exists>c. resolve_contiguous_range doc h (map NodeRef ?kids) = Inl c \<and> e = rejection c)
       | Inr r \<Rightarrow> \<exists>xs q i j. resolve_contiguous_range doc h (map NodeRef ?kids) = Inr (xs, q, i, j) \<and> tracks doc1 h1 (splice_tree q i j [] t)"
      using delete_outcome [OF tr, of "map NodeRef ?kids" s] by (elim exE conjE) (rule that, assumption, auto split: sum.splits)
    then show ?thesis using kids unfolding range t1_def by (cases result) auto
  qed
  then obtain r doc1 h1 where del: "delete_nodes doc (map NodeRef ?kids) h s = Some (Inr r, doc1, h1, s)" "tracks doc1 h1 t1" by blast
  then have "remove_range ?kids p 0 (length ?kids) doc h = Some (doc1, h1)"
    unfolding delete_nodes_def range by (auto simp: Let_def)
  note kept = remove_range_kept [OF this]
  have inside: "set xs \<subseteq> set (oids t)" if "xs = p # ?kids" for xs
    using that assms(2) child_in_tree(1) [OF tracksD(1,3) [OF tr] assms(2)] by auto
  have sub: "set (oids t1) \<subseteq> set (oids t)"
    using splice_oids(2) [OF tracksD(3) [OF tr] assms(2), of 0 ?n "[]"] unfolding t1_def by auto
  have ids: "ln_node_id (obj h1 x) = ln_node_id (obj h x)" "ln_short_id (obj h1 x) = ln_short_id (obj h x)" for x
    using kept by (simp_all add: content_kept_def links_kept_def)
  note rdy = assms(1) [unfolded ready_def incoming_ok_def]
  have apart: "set (oids t) \<inter> set (forest_oids ts) = {}" using rdy by blast
  have links: "ln_children (obj h1 x) = ln_children (obj h x) \<and> ln_parent (obj h1 x) = ln_parent (obj h x)" if "x \<in> set (forest_oids ts)" for x
  proof -
    have "x \<notin> insert p (set ?kids)" using inside [OF refl] apart that by auto
    then show ?thesis using kept by (simp add: links_kept_def)
  qed
  have linked: "list_all (\<lambda>t. \<exists>q. linked h1 q t) ts"
  proof (unfold list_all_iff, rule ballI)
    fix u assume u: "u \<in> set ts"
    then obtain q where "linked h q u" using rdy by (auto simp: list_all_iff)
    then have "linked h1 q u" by (rule linked_tree_cong) (rule links, use u in auto)
    then show "\<exists>q. linked h1 q u" by blast
  qed
  have none: "\<forall>x \<in> set (forest_oids ts). ln_short_id (obj h x) = None" using rdy by blast
  have incoming: "incoming_ok doc1 h1 [] (td_short_id_map doc) ts"
    using linked rdy none unfolding incoming_ok_def ids by simp
  have issued: "index_issued doc1 (td_short_id_map doc)"
    by (rule tracked_issued [OF del(2)]) (use known_short_id(4) [OF load] sub in \<open>auto simp: ids\<close>)
  have new: "\<not> dict_has (td_nodes_by_id doc1) (ln_node_id (obj h1 x))" if x: "x \<in> set (forest_oids ts)" for x
  proof
    assume "dict_has (td_nodes_by_id doc1) (ln_node_id (obj h1 x))"
    then obtain y where "dict_get (td_nodes_by_id doc1) (ln_node_id (obj h1 x)) = Some y" by auto
    then have "y \<in> set (oids t)" "ln_node_id (obj h y) = ln_node_id (obj h x)"
      using tracksD(4) [OF del(2)] sub unfolding table_ok_def ids by blast+
    then have "dict_has (td_nodes_by_id doc) (ln_node_id (obj h x))"
      using table_ok_get [OF tracksD(4) [OF tr], of "ln_node_id (obj h x)" y] by simp
    then show False using rdy x by blast
  qed
  have "insertable gen doc1 h1 t1 ts (td_short_id_map doc, minted h)"
    using del(2) incoming issued new none rdy unfolding insertable_def ids fst_conv by blast
  then show ?thesis using del(1) kept by blast
qed

text \<open>Replacing all children, on a ready document: nothing happens, or the tree has the new ones for the old ones.\<close>

lemma replace_children_outcome:
  assumes "ready gen doc h t ts" and "p \<in> set (oids t)"
  shows "\<exists>result doc2 h2 m k. replace_children doc p (map t_oid ts) (facade_preflight gen) h (td_short_id_map doc, minted h)
      = Some (result, doc2, h2, (m, k))
    \<and> (case result of
         Inl f \<Rightarrow> doc2 = doc \<and> h2 = h \<and> m = td_short_id_map doc \<and> k = minted h \<and> (\<exists>errors. f = MutationError errors)
           \<and> (\<exists>x \<in> set (forest_oids ts). \<not> is_uuid4 (ln_node_id (obj h x)))
       | Inr r \<Rightarrow> (\<forall>x \<in> set (forest_oids ts). is_uuid4 (ln_node_id (obj h x)))
           \<and> tracks doc2 h2 (splice_tree p 0 (length (subs_of p t)) ts t) \<and> header_kept doc doc2 \<and> content_kept h h2
           \<and> allocator_ran gen (length (forest_oids ts)) (td_short_id_map doc, minted h) (m, k)
           \<and> (\<forall>e \<in> set (mr_remap r). \<exists>s. sr_new_short_id e = Some s \<and> next_short_id (td_short_id_map doc) \<le> s \<and> s < next_short_id m))"
proof -
  let ?s = "(td_short_id_map doc, minted h)" and ?n = "length (subs_of p t)" and ?pf = "facade_preflight gen"
  let ?t1 = "splice_tree p 0 ?n [] t"
  have tr: "tracks doc h t" using assms(1) loaded_tracks by (simp add: ready_def)
  note rdy = assms(1) [unfolded ready_def incoming_ok_def]
  have sh: "list_all (shaped h) ts" using rdy linked_shaped [of h _ "[u]" for u] by (auto simp: list_all_iff)
  have ids: "distinct (map (\<lambda>x. ln_node_id (obj h x)) (forest_oids ts))" using rdy by (simp add: distinct_map)
  obtain errors where dry: "dry_run doc (map t_oid ts) p ?pf h ?s = Some (Inr errors)"
    "errors = [] \<longleftrightarrow> (\<forall>x \<in> set (forest_oids ts). is_uuid4 (ln_node_id (obj h x)))"
    using dry_run_outcome [OF assms(1) order_refl assms(2)] by blast
  show ?thesis
  proof (cases "errors = []")
    case False
    then have "replace_children doc p (map t_oid ts) ?pf h ?s = Some (Inl (MutationError errors), doc, h, ?s)"
      using dry(1) ids by (simp add: replace_children_def fragments_of_forest [OF sh])
    then show ?thesis using False dry(2) by auto
  next
    case True
    then have ok: "\<forall>x \<in> set (forest_oids ts). is_uuid4 (ln_node_id (obj h x))" using dry(2) by blast
    obtain removed doc1 h1 where start: "replace_children doc p (map t_oid ts) ?pf h ?s = insert_body p (map t_oid ts) removed ?pf doc1 h1 ?s"
      "insertable gen doc1 h1 ?t1 ts ?s" "header_kept doc doc1" "content_kept h h1"
    proof (cases "ln_children (obj h p) = []")
      case empty: True
      then have "?n = 0" using tracked_children(1) [OF tr assms(2)] by simp
      then show ?thesis
        using that [of "[]" doc h] empty True dry(1) ids ready_insertable [OF assms(1), of "''last_child''"]
        by (simp add: replace_children_def fragments_of_forest [OF sh] splice_nothing backwards_def)
    next
      case False
      obtain r doc1 h1 where "delete_nodes doc (map NodeRef (ln_children (obj h p))) h ?s = Some (Inr r, doc1, h1, ?s)"
        "insertable gen doc1 h1 ?t1 ts ?s" "header_kept doc doc1" "content_kept h h1"
        using emptied [OF assms False, of ?s] by blast
      then show ?thesis
        using that [of "mr_removed r" doc1 h1] False True dry(1) ids
        by (simp add: replace_children_def fragments_of_forest [OF sh])
    qed
    have p1: "p \<in> set (oids ?t1)"
      using splice_oids(2) [OF tracksD(3) [OF tr] assms(2), of 0 ?n "[]"] assms(2) range_parts(6) [OF tr assms(2), of 0 ?n] by simp
    have tr1: "tracks doc1 h1 ?t1" using start(2) by (simp add: insertable_def)
    have "subs_of p ?t1 = []" using subs_splice [OF tracksD(3) [OF tr] assms(2), of 0 ?n "[]"] by (simp add: list_splice_def)
    then have "ln_children (obj h1 p) = []" using tracked_children(1) [OF tr1 p1] by simp
    then have point: "insert_point doc1 h1 ''last_child'' (map_option NodeRef (Some p)) (map_option NodeRef None) (nth_index NoIndex 0) = Inr (p, 0)"
      using resolve_ref_node [OF tracksD(4) [OF tr1] p1] by (simp add: insert_point_def attach_point_def)
    have pos: "position_ok (Some ''last_child'') (nth_index NoIndex 0)" by (simp add: position_ok_def VALID_POSITIONS_def)
    have anchors: "set_option (Some p) \<union> set_option None \<subseteq> set (oids ?t1)" using p1 by simp
    have "\<exists>outcome doc2 h2 s2. insert_each doc1 (map t_oid ts) 0 ''last_child'' (Some (NodeRef p)) None NoIndex ?pf h1 ?s = Some (outcome, doc2, h2, s2)
      \<and> header_kept doc1 doc2 \<and> content_kept h1 h2 \<and> allocator_ran gen (length (forest_oids ts)) ?s s2
      \<and> (case outcome of
         Inl f \<Rightarrow> (\<exists>x \<in> set (forest_oids ts). \<not> is_uuid4 (ln_node_id (obj h1 x))) \<or> \<not> position_ok (Some ''last_child'') (nth_index NoIndex 0)
       | Inr rs \<Rightarrow> tracks doc2 h2 (splice_tree p 0 0 (placed ''last_child'' ts) ?t1)
           \<and> (\<forall>r \<in> set rs. \<forall>e \<in> set (mr_remap r). \<exists>i. sr_new_short_id e = Some i \<and> next_short_id (td_short_id_map doc) \<le> i \<and> i < next_short_id (fst s2)))"
      using insert_each_outcome [OF start(2) anchors point]
      by (elim exE conjE) (intro exI conjI, simp, assumption+, simp add: backwards_def split: sum.splits)
    then obtain outcome doc2 h2 s2 where out: "insert_each doc1 (map t_oid ts) 0 ''last_child'' (Some (NodeRef p)) None NoIndex ?pf h1 ?s = Some (outcome, doc2, h2, s2)"
      "header_kept doc1 doc2" "content_kept h1 h2" "allocator_ran gen (length (forest_oids ts)) ?s s2"
      and res2: "case outcome of
         Inl f \<Rightarrow> (\<exists>x \<in> set (forest_oids ts). \<not> is_uuid4 (ln_node_id (obj h1 x))) \<or> \<not> position_ok (Some ''last_child'') (nth_index NoIndex 0)
       | Inr rs \<Rightarrow> tracks doc2 h2 (splice_tree p 0 0 (placed ''last_child'' ts) ?t1)
           \<and> (\<forall>r \<in> set rs. \<forall>e \<in> set (mr_remap r). \<exists>i. sr_new_short_id e = Some i \<and> next_short_id (td_short_id_map doc) \<le> i \<and> i < next_short_id (fst s2))"
      by (elim exE conjE) (rule that)
    obtain m k where s2: "s2 = (m, k)" by (cases s2)
    note each = out [unfolded s2] and res = res2 [unfolded s2 fst_conv]
    have "ln_node_id (obj h1 x) = ln_node_id (obj h x)" for x using start(4) by (simp add: content_kept_def)
    then obtain rs where rs: "outcome = Inr rs" using res ok pos by (cases outcome) auto
    have "splice_tree p 0 0 (placed ''last_child'' ts) ?t1 = splice_tree p 0 ?n ts t"
      by (rule splice_splice [OF tracksD(3) [OF tr] assms(2)]) (simp add: list_splice_def backwards_def)
    then have "tracks doc2 h2 (splice_tree p 0 ?n ts t)" using res by (simp add: rs)
    moreover have "header_kept doc doc2" using start(3) each(2) by (simp add: header_kept_def)
    moreover have "content_kept h h2" by (rule content_kept_trans [OF start(4) each(3)])
    moreover obtain r where "replace_children doc p (map t_oid ts) ?pf h ?s = Some (Inr r, doc2, h2, (m, k))" "mr_remap r = concat (map mr_remap rs)"
      using each(1) by (simp add: start(1) insert_body_def rs)
    moreover have "\<exists>s. sr_new_short_id e = Some s \<and> next_short_id (td_short_id_map doc) \<le> s \<and> s < next_short_id m"
      if "e \<in> set (concat (map mr_remap rs))" for e
      using res that by (auto simp: rs)
    ultimately show ?thesis using each(4) ok by (intro exI [of _ "Inr r"] exI [of _ doc2] exI [of _ h2] exI [of _ m] exI [of _ k]) simp
  qed
qed

section \<open>The command\<close>

lemma set_body_outcome:
  assumes "ready gen doc h t ts" and "p \<in> set (oids t)"
  defines "t' \<equiv> splice_tree p 0 (length (subs_of p t)) ts t"
  shows "\<exists>result doc' h'. Option.bind (with_allocator (set_node_body doc (NodeRef p) (map t_oid ts) (facade_preflight gen) h) doc h)
        (\<lambda>(outcome, doc2, h2). commit_after outcome [Some p] doc2 h2) = Some (result, doc', h') \<and>
    (case result of
       Inl e \<Rightarrow> td_document_version doc' = td_document_version doc
         \<and> (doc' = doc \<and> h' = h \<and> (\<exists>x \<in> set (forest_oids ts). \<not> is_uuid4 (ln_node_id (obj h x)))
          \<or> e = node_schema_error INVALID_PARENT_TYPE \<and> sync_fields (Some p) h = None \<and> tracks doc' h' t')
     | Inr r \<Rightarrow> edited doc h t doc' h' t' (mr_remap r))"
proof -
  have tr: "tracks doc h t" using assms(1) loaded_tracks by (simp add: ready_def)
  obtain outcome doc2 h2 m k where out: "replace_children doc p (map t_oid ts) (facade_preflight gen) h (td_short_id_map doc, minted h)
      = Some (outcome, doc2, h2, (m, k))"
    and res: "case outcome of
         Inl f \<Rightarrow> doc2 = doc \<and> h2 = h \<and> m = td_short_id_map doc \<and> k = minted h \<and> (\<exists>errors. f = MutationError errors)
           \<and> (\<exists>x \<in> set (forest_oids ts). \<not> is_uuid4 (ln_node_id (obj h x)))
       | Inr r \<Rightarrow> (\<forall>x \<in> set (forest_oids ts). is_uuid4 (ln_node_id (obj h x)))
           \<and> tracks doc2 h2 (splice_tree p 0 (length (subs_of p t)) ts t) \<and> header_kept doc doc2 \<and> content_kept h h2
           \<and> allocator_ran gen (length (forest_oids ts)) (td_short_id_map doc, minted h) (m, k)
           \<and> (\<forall>e \<in> set (mr_remap r). \<exists>s. sr_new_short_id e = Some s \<and> next_short_id (td_short_id_map doc) \<le> s \<and> s < next_short_id m)"
    using replace_children_outcome [OF assms(1,2)] by (elim exE conjE) (rule that)
  have run: "Option.bind (with_allocator (set_node_body doc (NodeRef p) (map t_oid ts) (facade_preflight gen) h) doc h)
        (\<lambda>(outcome, doc2, h2). commit_after outcome [Some p] doc2 h2)
      = commit_after outcome [Some p] (doc2\<lparr>td_short_id_map := m\<rparr>) (h2\<lparr>minted := k\<rparr>)"
    using out resolve_stored_node [OF tracksD(4) [OF tr] assms(2)] by (simp add: with_allocator_def set_node_body_def)
  show ?thesis
  proof (cases outcome)
    case (Inl f)
    then show ?thesis using res unfolding run by (auto simp: commit_after_def)
  next
    case (Inr r)
    note ok = res [unfolded Inr sum.case, folded t'_def]
    have apart: "set (forest_oids ts) \<inter> set (oids t) = {}" "distinct (forest_oids ts)"
      using assms(1) by (auto simp: ready_def incoming_ok_def)
    note new_oids = splice_oids(2) [OF tracksD(3) [OF tr] assms(2) le0 order_refl apart(2,1), folded t'_def]
    have p: "p \<in> set (oids t')"
      using range_parts(6) [OF tr assms(2) le0 order_refl] assms(2) unfolding new_oids by blast
    have new: "set (oids t') \<subseteq> set (oids t) \<union> set (forest_oids ts)" unfolding new_oids by blast
    obtain result doc' h' where com: "commit_after (Inr r) [Some p] (doc2\<lparr>td_short_id_map := m\<rparr>) (h2\<lparr>minted := k\<rparr>) = Some (result, doc', h')"
      "case result of
         Inl e \<Rightarrow> e = node_schema_error INVALID_PARENT_TYPE \<and> sync_fields (Some p) h = None \<and> tracks doc' h' t'
           \<and> td_document_version doc' = td_document_version doc
       | Inr r' \<Rightarrow> r' = r \<and> edited doc h t doc' h' t' (mr_remap r)"
      using edit_outcome [OF assms(1) conjunct1 [OF conjunct2 [OF ok]] p new, of m k "mr_remap r" r] ok by blast
    then show ?thesis unfolding run Inr com(1) by (cases result) auto
  qed
qed

text \<open>
  C7. Setting a body through the facade: on a loaded document, with ids supplied as assumed, it always returns. On success the version was
  not stale, and the document is loaded, one version later, with the parsed trees for the children of the addressed node and nothing else changed:
  nodes that were there keep UUID and short id, and the reported new short ids belong to no node. An error is of the public hierarchy and leaves
  the version. Either no object and no table has changed, and the version was stale, the address did not resolve, the source was refused, or
  some UUID of it is not of version 4; or the fields of the node cannot hold its children, which is found only after the old
  children are gone.
\<close>

theorem facade_set_body_commits:
  assumes "loaded doc h t" and "set (oids t) \<subseteq> {..<next_oid h}" and "ids_supplied gen plugin source doc h"
  shows "\<exists>result doc' h'. facade_set_body gen reference plugin address source expected doc h = Some (result, doc', h') \<and>
    (case result of
       Inl e \<Rightarrow> (\<exists>c. e = Engine c) \<and> td_document_version doc' = td_document_version doc
         \<and> (doc' = doc \<and> (\<forall>x < next_oid h. obj h' x = obj h x)
              \<and> (\<forall>xs roots h1. address_nodes reference doc h [address] = Inr xs \<and> fragment gen plugin doc source h = Some (Inr roots, h1)
                  \<longrightarrow> stale doc expected \<or> (\<exists>u \<in> set (parsed_ids plugin source). \<not> is_uuid4 u))
            \<or> e = Engine InvalidParentType \<and> (\<exists>x ts. address_nodes reference doc h [address] = Inr [x]
                \<and> sync_fields (Some x) h = None \<and> tracks doc' h' (splice_tree x 0 (length (subs_of x t)) ts t)))
     | Inr r \<Rightarrow> \<not> stale doc expected \<and> (\<exists>x ts h1. address_nodes reference doc h [address] = Inr [x] \<and> x \<in> set (oids t)
         \<and> fragment gen plugin doc source h = Some (Inr (map t_oid ts), h1)
         \<and> edited doc h t doc' h' (splice_tree x 0 (length (subs_of x t)) ts t) (mr_remap r)))"
proof (cases "stale doc expected")
  case True
  then show ?thesis by (simp add: facade_set_body_def operation_def)
next
  case current: False
  note run = facade_set_body_def operation_def
  obtain parsed h1 where frag: "fragment gen plugin doc source h = Some (parsed, h1)" "next_oid h \<le> next_oid h1" "\<forall>x < next_oid h. obj h1 x = obj h x"
    "\<forall>roots. parsed = Inr roots \<longrightarrow> (\<exists>ts. roots = map t_oid ts \<and> ready gen doc h1 t ts \<and> set (forest_oids ts) \<subseteq> {next_oid h..<next_oid h1}
        \<and> ((\<forall>u \<in> set (parsed_ids plugin source). is_uuid4 u) \<longrightarrow> (\<forall>x \<in> set (forest_oids ts). is_uuid4 (ln_node_id (obj h1 x)))))"
    using fragment_ready [OF assms] by blast
  have same: "obj h1 x = obj h x" if "x \<in> set (oids t)" for x using frag(3) assms(2) that by auto
  have tr: "tracks doc h t" by (rule loaded_tracks [OF assms(1)])
  show ?thesis
  proof (cases "(\<exists>xs. address_nodes reference doc h [address] = Inr xs) \<and> (\<exists>roots. parsed = Inr roots)")
    case False
    then obtain e h2 where "facade_set_body gen reference plugin address source expected doc h = Some (Inl (typed INVALID_PARENT_TYPE e), doc, h2)"
      "h2 = h \<or> h2 = h1"
      using current frag(1) by (cases "address_nodes reference doc h [address]"; cases parsed) (auto simp: run)
    then show ?thesis using False frag(1,3) typed_engine by auto
  next
    case True
    then obtain xs roots where ok: "address_nodes reference doc h [address] = Inr xs" "parsed = Inr roots" by blast
    then obtain x where x: "xs = [x]" by (auto split: sum.splits option.splits)
    have xt: "x \<in> set (oids t)" using address_nodes_in [OF tracksD(4) [OF tr] ok(1)] x by simp
    obtain ts where ts: "roots = map t_oid ts" "ready gen doc h1 t ts"
      "(\<forall>u \<in> set (parsed_ids plugin source). is_uuid4 u) \<longrightarrow> (\<forall>x \<in> set (forest_oids ts). is_uuid4 (ln_node_id (obj h1 x)))"
      using frag(4) ok(2) by blast
    have fields: "sync_fields (Some x) h1 = None \<longleftrightarrow> sync_fields (Some x) h = None" using same [OF xt] by (simp add: sync_fields_refuses)
    let ?t' = "splice_tree x 0 (length (subs_of x t)) ts t"
    obtain result doc' h' where body: "Option.bind (with_allocator (set_node_body doc (NodeRef x) (map t_oid ts) (facade_preflight gen) h1) doc h1)
        (\<lambda>(outcome, doc2, h2). commit_after outcome [Some x] doc2 h2) = Some (result, doc', h')"
      and res: "case result of
       Inl e \<Rightarrow> td_document_version doc' = td_document_version doc
         \<and> (doc' = doc \<and> h' = h1 \<and> (\<exists>x \<in> set (forest_oids ts). \<not> is_uuid4 (ln_node_id (obj h1 x)))
          \<or> e = node_schema_error INVALID_PARENT_TYPE \<and> sync_fields (Some x) h1 = None \<and> tracks doc' h' ?t')
     | Inr r \<Rightarrow> edited doc h1 t doc' h' ?t' (mr_remap r)"
      using set_body_outcome [OF ts(2) xt] by (elim exE conjE) (rule that)
    have cmd: "facade_set_body gen reference plugin address source expected doc h = Some (map_sum (typed INVALID_PARENT_TYPE) id result, doc', h')"
      using current frag(1) ok ts(1) body x by (simp add: run)
    show ?thesis
    proof (cases result)
      case (Inl e)
      have version: "td_document_version doc' = td_document_version doc" using res by (simp add: Inl)
      from res [unfolded Inl sum.case] consider "doc' = doc" "h' = h1" "\<exists>u \<in> set (parsed_ids plugin source). \<not> is_uuid4 u"
        | "e = node_schema_error INVALID_PARENT_TYPE" "sync_fields (Some x) h = None \<and> tracks doc' h' ?t'"
        using fields ts(3) by blast
      then show ?thesis
      proof cases
        case 1
        then show ?thesis using cmd frag(3) typed_engine by (simp add: Inl)
      next
        case 2
        have "\<exists>z us. address_nodes reference doc h [address] = Inr [z]
            \<and> sync_fields (Some z) h = None \<and> tracks doc' h' (splice_tree z 0 (length (subs_of z t)) us t)"
          using ok(1) x 2(2) by blast
        then show ?thesis using cmd version 2(1) typed_schema_error by (simp add: Inl)
      qed
    next
      case (Inr r)
      have "edited doc h t doc' h' ?t' (mr_remap r)" by (rule edited_cong [OF res [unfolded Inr sum.case]]) (rule same)
      then have "\<exists>z us h2. address_nodes reference doc h [address] = Inr [z] \<and> z \<in> set (oids t)
         \<and> fragment gen plugin doc source h = Some (Inr (map t_oid us), h2)
         \<and> edited doc h t doc' h' (splice_tree z 0 (length (subs_of z t)) us t) (mr_remap r)"
        using ok x xt frag(1) ts(1) by blast
      then show ?thesis using cmd current by (simp add: Inr)
    qed
  qed
qed

section \<open>On the example document\<close>

theorem facade_set_body_commits_witness:
  "\<exists>r doc' h'. facade_set_body work_gen None leaf_plugin (RawInt 1) ''x'' (Some 1) work_doc work_heap = Some (Inr r, doc', h')
     \<and> (\<exists>us. loaded doc' h' (T 0 [T 5 us])) \<and> td_document_version doc' = 2 \<and> ln_short_id (obj h' 0) = Some 1"
proof -
  have bound: "set (oids (T 0 [T 1 [], T 2 []])) \<subseteq> {..<next_oid work_heap}" by (simp add: work_heap_def)
  note body = facade_set_body_commits [OF work_loaded bound work_supplied, of None "RawInt 1" "Some 1"]
  have nodes: "address_nodes None work_doc work_heap [RawInt 1] = Inr [0]"
    by (simp add: resolve_address_def normalize_node_address_def resolve_short_id_value_def tree_resolve_short_id_def
        get_node_id_def work_doc_def v4_inj)
  have facts: "\<not> stale work_doc (Some 1)" "parsed_ids leaf_plugin ''x'' = []" "sync_fields (Some 0) work_heap \<noteq> None"
    by (simp_all add: stale_def work_doc_def parsed_ids_def leaf_plugin_def sync_fields_refuses work_heap_def work_node_def)
  obtain h1 where frag: "fragment work_gen leaf_plugin work_doc ''x'' work_heap = Some (Inr [5], h1)" using work_fragment by blast
  obtain result doc' h' where run: "facade_set_body work_gen None leaf_plugin (RawInt 1) ''x'' (Some 1) work_doc work_heap = Some (result, doc', h')"
    using body by blast
  note res = body [unfolded run nodes frag]
  show ?thesis
  proof (cases result)
    case (Inl e)
    then show ?thesis using res facts by auto
  next
    case (Inr r)
    have "\<exists>z. t_oid z = 5 \<and> edited work_doc work_heap (T 0 [T 1 [], T 2 []]) doc' h' (T 0 [z]) (mr_remap r)"
      using res by (auto simp: Inr list_splice_def map_eq_Cons_conv)
    then obtain us where "edited work_doc work_heap (T 0 [T 1 [], T 2 []]) doc' h' (T 0 [T 5 us]) (mr_remap r)"
      by (metis otree.collapse)
    then show ?thesis using run unfolding edited_def Inr by (auto simp: work_doc_def work_heap_def work_node_def)
  qed
qed

end
