(* ===== verification/Json.thy ===== *)
theory Json
  imports Python_Std "HOL-Library.List_Lexorder" "HOL-Library.Char_ord"
begin

text \<open>
  The part of Python's \<open>json\<close> module that the storage layer uses: \<open>json.dumps\<close> with and without
  \<open>ensure_ascii\<close> and with sorted keys, \<open>json.loads\<close>, and the UTF-8 encoding around them. As everywhere, a string
  is a list of characters of code 0 to 255; \<open>loads\<close> refuses a text with a character beyond.
\<close>

section \<open>Values and their canonical order\<close>

text \<open>A number with a fraction or an exponent is kept as its text.\<close>

datatype json = JNull | JBool bool | JInt int | JFloat string | JStr string | JArr "json list" | JObj "(string \<times> json) list"

text \<open>\<open>sort_keys\<close>: members sorted by key at every depth. Keys of a dictionary are distinct.\<close>

fun canonical :: "json \<Rightarrow> json" where
  "canonical (JArr js) = JArr (map canonical js)"
| "canonical (JObj ms) = JObj (sort_key fst (map (\<lambda>(k, j). (k, canonical j)) ms))"
| "canonical j = j"

section \<open>Writing\<close>

definition u_escape :: "char \<Rightarrow> string" where
  "u_escape c = CHR 0x5C # CHR ''u'' # hex_fixed 4 (ccode c)"

definition escape_char :: "bool \<Rightarrow> char \<Rightarrow> string" where
  "escape_char ascii c =
     (if c = CHR 0x22 then [CHR 0x5C, CHR 0x22]
      else if c = CHR 0x5C then [CHR 0x5C, CHR 0x5C]
      else if c = CHR 0x0A then [CHR 0x5C, CHR ''n'']
      else if c = CHR 0x0D then [CHR 0x5C, CHR ''r'']
      else if c = CHR 0x09 then [CHR 0x5C, CHR ''t'']
      else if c = CHR 0x0C then [CHR 0x5C, CHR ''f'']
      else if c = CHR 0x08 then [CHR 0x5C, CHR ''b'']
      else if ccode c < 32 \<or> ascii \<and> 126 < ccode c then u_escape c
      else [c])"

definition dumps_string :: "bool \<Rightarrow> string \<Rightarrow> string" where
  "dumps_string ascii s = CHR 0x22 # concat (map (escape_char ascii) s) @ [CHR 0x22]"

fun joined :: "string \<Rightarrow> string list \<Rightarrow> string" where
  "joined sep [] = []"
| "joined sep [s] = s"
| "joined sep (s # t # ss) = s @ sep @ joined sep (t # ss)"

text \<open>The separators of items and of keys, and \<open>ensure_ascii\<close>.\<close>

type_synonym dialect = "string \<times> string \<times> bool"

fun print_json :: "dialect \<Rightarrow> json \<Rightarrow> string" where
  "print_json d JNull = ''null''"
| "print_json d (JBool b) = (if b then ''true'' else ''false'')"
| "print_json d (JInt i) = py_str_int i"
| "print_json d (JFloat s) = s"
| "print_json d (JStr s) = dumps_string (snd (snd d)) s"
| "print_json d (JArr js) = CHR ''['' # joined (fst d) (map (print_json d) js) @ '']''"
| "print_json d (JObj ms) = CHR ''{'' #
     joined (fst d) (map (\<lambda>(k, j). dumps_string (snd (snd d)) k @ fst (snd d) @ print_json d j) ms) @ ''}''"

definition json_dumps :: "dialect \<Rightarrow> json \<Rightarrow> string" where
  "json_dumps d j = print_json d (canonical j)"

definition default_dialect :: dialect where "default_dialect = ('', '', '': '', True)"

definition compact_dialect :: dialect where "compact_dialect = ('','', '':'', False)"

section \<open>Reading\<close>

definition json_ws :: "char \<Rightarrow> bool" where
  "json_ws c \<longleftrightarrow> ccode c \<in> {32, 9, 10, 13}"

definition is_digit :: "char \<Rightarrow> bool" where
  "is_digit c \<longleftrightarrow> 48 \<le> ccode c \<and> ccode c \<le> 57"

definition hex4 :: "char \<Rightarrow> char \<Rightarrow> char \<Rightarrow> char \<Rightarrow> nat option" where
  "hex4 a b c d = (case map digit_value [a, b, c, d] of
     [Some w, Some x, Some y, Some z] \<Rightarrow> Some (((w * 16 + x) * 16 + y) * 16 + z) | _ \<Rightarrow> None)"

definition simple_escape :: "char \<Rightarrow> char option" where
  "simple_escape e =
     (if e \<in> {CHR 0x22, CHR 0x5C, CHR 0x2F} then Some e
      else if e = CHR ''n'' then Some (CHR 0x0A)
      else if e = CHR ''r'' then Some (CHR 0x0D)
      else if e = CHR ''t'' then Some (CHR 0x09)
      else if e = CHR ''f'' then Some (CHR 0x0C)
      else if e = CHR ''b'' then Some (CHR 0x08)
      else None)"

text \<open>After the opening quote: the string and what follows the closing one.\<close>

fun scan_string :: "string \<Rightarrow> (string \<times> string) option" where
  "scan_string [] = None"
| "scan_string (c # cs) =
     (if c = CHR 0x22 then Some ([], cs)
      else if c = CHR 0x5C then
        (case cs of
           [] \<Rightarrow> None
         | e # rest \<Rightarrow>
             if e = CHR ''u'' then
               (case rest of
                  p # q # r # s # rest' \<Rightarrow>
                    (case hex4 p q r s of
                       None \<Rightarrow> None
                     | Some n \<Rightarrow> if n < 256 then map_option (apfst ((#) (char_of n))) (scan_string rest') else None)
                | _ \<Rightarrow> None)
             else (case simple_escape e of None \<Rightarrow> None | Some x \<Rightarrow> map_option (apfst ((#) x)) (scan_string rest)))
      else if ccode c < 32 then None
      else map_option (apfst ((#) c)) (scan_string cs))"

text \<open>\<open>-?(0|[1-9][0-9]*)\<close>, then an optional fraction and an optional exponent.\<close>

definition parse_whole :: "string \<Rightarrow> string" where
  "parse_whole t = (case t of c # _ \<Rightarrow> if c = CHR ''0'' then [c] else takeWhile is_digit t | [] \<Rightarrow> [])"

definition parse_fraction :: "string \<Rightarrow> string" where
  "parse_fraction s = (case s of c # cs \<Rightarrow> if c = CHR ''.'' then c # takeWhile is_digit cs else [] | [] \<Rightarrow> [])"

definition parse_exponent :: "string \<Rightarrow> string" where
  "parse_exponent s =
     (case s of
        c # cs \<Rightarrow>
          if c = CHR ''e'' \<or> c = CHR ''E'' then
            let sign = (case cs of x # _ \<Rightarrow> if x = CHR ''-'' \<or> x = CHR ''+'' then [x] else [] | [] \<Rightarrow> []);
                ds = takeWhile is_digit (drop (length sign) cs)
            in if ds = [] then [] else c # sign @ ds
          else []
      | [] \<Rightarrow> [])"

definition number_parts :: "string \<Rightarrow> string \<times> string \<times> string" where
  "number_parts t =
     (let whole = parse_whole t; f = parse_fraction (drop (length whole) t); fraction = (if length f \<le> 1 then [] else f)
      in (whole, fraction, parse_exponent (drop (length whole + length fraction) t)))"

definition number_sign :: "string \<Rightarrow> string" where
  "number_sign s = (case s of c # _ \<Rightarrow> if c = CHR ''-'' then [c] else [] | [] \<Rightarrow> [])"

definition parse_number :: "string \<Rightarrow> (json \<times> string) option" where
  "parse_number s =
     (let sign = number_sign s; t = drop (length sign) s; (whole, fraction, exponent) = number_parts t;
          rest = drop (length whole + length fraction + length exponent) t
      in if whole = [] then None
         else if fraction @ exponent \<noteq> [] then Some (JFloat (sign @ whole @ fraction @ exponent), rest)
         else map_option (\<lambda>n. (JInt (if sign \<noteq> [] then - n else n), rest)) (py_int 10 whole))"

definition starts :: "string \<Rightarrow> string \<Rightarrow> bool" where
  "starts p s \<longleftrightarrow> take (length p) s = p"

definition parse_atom :: "string \<Rightarrow> (json \<times> string) option" where
  "parse_atom s =
     (if starts ''null'' s then Some (JNull, drop 4 s)
      else if starts ''true'' s then Some (JBool True, drop 4 s)
      else if starts ''false'' s then Some (JBool False, drop 5 s)
      else if starts ''NaN'' s then Some (JFloat ''NaN'', drop 3 s)
      else if starts ''Infinity'' s then Some (JFloat ''Infinity'', drop 8 s)
      else if starts ''-Infinity'' s then Some (JFloat ''-Infinity'', drop 9 s)
      else parse_number s)"

text \<open>The scanner. The first argument bounds the depth of the calls; \<open>parse_fuel\<close> below shows that the length of the text is enough.\<close>

fun parse_value :: "nat \<Rightarrow> string \<Rightarrow> (json \<times> string) option"
  and parse_items :: "nat \<Rightarrow> json list \<Rightarrow> string \<Rightarrow> (json \<times> string) option"
  and parse_members :: "nat \<Rightarrow> (string, json) pydict \<Rightarrow> string \<Rightarrow> (json \<times> string) option" where
  "parse_value 0 s = None"
| "parse_value (Suc n) s =
     (case s of
        [] \<Rightarrow> None
      | c # cs \<Rightarrow>
          if c = CHR 0x22 then map_option (apfst JStr) (scan_string cs)
          else if c = CHR ''{'' then
            (case dropWhile json_ws cs of
               [] \<Rightarrow> None
             | d # r \<Rightarrow> if d = CHR ''}'' then Some (JObj [], r) else if d = CHR 0x22 then parse_members n [] r else None)
          else if c = CHR ''['' then
            (case dropWhile json_ws cs of
               [] \<Rightarrow> None
             | d # r \<Rightarrow> if d = CHR '']'' then Some (JArr [], r) else parse_items n [] (d # r))
          else parse_atom s)"
| "parse_items 0 acc s = None"
| "parse_items (Suc n) acc s =
     (case parse_value n s of
        None \<Rightarrow> None
      | Some (v, r) \<Rightarrow>
          (case dropWhile json_ws r of
             [] \<Rightarrow> None
           | c # r' \<Rightarrow>
               if c = CHR '']'' then Some (JArr (acc @ [v]), r')
               else if c = CHR '','' then parse_items n (acc @ [v]) (dropWhile json_ws r')
               else None))"
| "parse_members 0 acc s = None"
| "parse_members (Suc n) acc s =
     (case scan_string s of
        None \<Rightarrow> None
      | Some (k, r) \<Rightarrow>
          (case dropWhile json_ws r of
             [] \<Rightarrow> None
           | c # r1 \<Rightarrow>
               if c \<noteq> CHR '':'' then None
               else (case parse_value n (dropWhile json_ws r1) of
                       None \<Rightarrow> None
                     | Some (v, r2) \<Rightarrow>
                         (case dropWhile json_ws r2 of
                            [] \<Rightarrow> None
                          | c # r3 \<Rightarrow>
                              if c = CHR ''}'' then Some (JObj (dict_set k v acc), r3)
                              else if c = CHR '','' then
                                (case dropWhile json_ws r3 of
                                   [] \<Rightarrow> None
                                 | d # r4 \<Rightarrow> if d = CHR 0x22 then parse_members n (dict_set k v acc) r4 else None)
                              else None))))"

definition json_loads :: "string \<Rightarrow> json option" where
  "json_loads s =
     (case parse_value (2 * length s + 2) (dropWhile json_ws s) of
        None \<Rightarrow> None
      | Some (v, rest) \<Rightarrow> if dropWhile json_ws rest = [] then Some v else None)"

text \<open>
  \<open>loads\<close> makes a float of a number with a fraction or an exponent, which \<open>dumps\<close> writes in its shortest form; that form,
  as a function of the number's text, is the parameter \<open>shortest\<close>.
\<close>

fun with_floats :: "(string \<Rightarrow> string) \<Rightarrow> json \<Rightarrow> json" where
  "with_floats shortest (JFloat s) = JFloat (shortest s)"
| "with_floats shortest (JArr js) = JArr (map (with_floats shortest) js)"
| "with_floats shortest (JObj ms) = JObj (map (\<lambda>(k, j). (k, with_floats shortest j)) ms)"
| "with_floats shortest j = j"

section \<open>UTF-8\<close>

definition utf8_char :: "char \<Rightarrow> 8 word list" where
  "utf8_char c = (let n = ccode c in
     if n < 128 then [of_nat n] else [of_nat (192 + n div 64), of_nat (128 + n mod 64)])"

definition utf8_encode :: "string \<Rightarrow> 8 word list" where
  "utf8_encode s = concat (map utf8_char s)"

text \<open>\<open>bytes.decode\<close>; \<open>None\<close> is \<open>UnicodeDecodeError\<close>, or a character beyond code 255.\<close>

fun utf8_decode :: "8 word list \<Rightarrow> string option" where
  "utf8_decode [] = Some []"
| "utf8_decode (b # bs) =
     (if unat b < 128 then map_option ((#) (char_of (unat b))) (utf8_decode bs)
      else (case bs of
              [] \<Rightarrow> None
            | c # cs \<Rightarrow>
                if unat b \<in> {194, 195} \<and> 128 \<le> unat c \<and> unat c < 192
                then map_option ((#) (char_of ((unat b - 192) * 64 + (unat c - 128)))) (utf8_decode cs)
                else None))"

section \<open>The encoding reads back\<close>

lemma ccode_less [simp]: "ccode c < 256" unfolding ccode_def by (rule nat_of_char_less_256)

lemma char_of_ccode [simp]: "char_of (ccode c) = c" by (simp add: ccode_def)

lemma utf8_roundtrip: "utf8_decode (utf8_encode s) = Some s"
proof (induction s)
  case (Cons c s)
  have high: "128 \<le> ccode c \<Longrightarrow> 192 + ccode c div 64 \<in> {194, 195} \<and> ccode c div 64 * 64 + ccode c mod 64 = ccode c"
  proof -
    assume "128 \<le> ccode c"
    moreover have "ccode c div 64 < 4" by (rule less_mult_imp_div_less) simp
    ultimately have "2 \<le> ccode c div 64" "ccode c div 64 < 4" by (simp_all add: le_div_geq div_le_mono [of 128 _ 64, simplified])
    then have "ccode c div 64 \<in> {2, 3}" by auto
    then show "192 + ccode c div 64 \<in> {194, 195} \<and> ccode c div 64 * 64 + ccode c mod 64 = ccode c" by auto
  qed
  show ?case
  proof (cases "ccode c < 128")
    case True
    have "unat (of_nat (ccode c) :: 8 word) = ccode c" by (simp add: unat_of_nat)
    then show ?thesis using Cons True by (simp add: utf8_encode_def utf8_char_def Let_def)
  next
    case False
    obtain x y :: "8 word" where xy: "utf8_char c = [x, y]" "x = of_nat (192 + ccode c div 64)" "y = of_nat (128 + ccode c mod 64)"
      using False by (simp add: utf8_char_def Let_def)
    have "ccode c div 64 < 4" by (rule less_mult_imp_div_less) simp
    then have "unat x = 192 + ccode c div 64" unfolding xy(2) by (subst unat_of_nat) simp
    moreover have "ccode c mod 64 < 64" by simp
    then have "unat y = 128 + ccode c mod 64" unfolding xy(3) by (subst unat_of_nat) simp
    ultimately show ?thesis using Cons high False by (auto simp: utf8_encode_def xy(1))
  qed
qed (simp add: utf8_encode_def)

lemma hex4_fixed:
  assumes "n < 256"
  shows "\<exists>p q r s. hex_fixed 4 n = [p, q, r, s] \<and> hex4 p q r s = Some n"
proof -
  have digits: "n div 16 div 16 = 0" "n div 16 < 16" "n mod 16 < 16" using assms by auto
  have four: "hex_fixed 4 n = hex_fixed (Suc (Suc (Suc (Suc 0)))) n" by (simp only: numeral_nat)
  have "hex_fixed 4 n = [hex_char 0, hex_char 0, hex_char (n div 16), hex_char (n mod 16)]"
    unfolding four using digits by (simp only: hex_fixed.simps) simp
  moreover have "hex4 (hex_char 0) (hex_char 0) (hex_char (n div 16)) (hex_char (n mod 16)) = Some n"
    using digits by (simp add: hex4_def digit_value_hex_char)
  ultimately show ?thesis by blast
qed

lemma scan_escape: "scan_string (escape_char ascii c @ rest) = map_option (apfst ((#) c)) (scan_string rest)"
proof (cases "c \<in> {CHR 0x22, CHR 0x5C, CHR 0x0A, CHR 0x0D, CHR 0x09, CHR 0x0C, CHR 0x08}")
  case True
  then have "\<exists>e. escape_char ascii c = [CHR 0x5C, e] \<and> simple_escape e = Some c \<and> e \<noteq> CHR ''u''"
    by (elim insertE emptyE) (simp_all add: escape_char_def simple_escape_def)
  then show ?thesis by auto
next
  case False
  obtain p q r s where "hex_fixed 4 (ccode c) = [p, q, r, s]" "hex4 p q r s = Some (ccode c)" using hex4_fixed [OF ccode_less] by blast
  then show ?thesis using False by (simp add: escape_char_def u_escape_def)
qed

lemma scan_dumped: "scan_string (concat (map (escape_char ascii) s) @ CHR 0x22 # rest) = Some (s, rest)"
  by (induction s) (simp_all add: scan_escape)

section \<open>Every text is read to its end\<close>

declare dropWhile_eq_Nil_conv [simp del]

lemma scan_string_shorter: "scan_string s = Some (t, r) \<Longrightarrow> length r < length s"
proof (induction "length s" arbitrary: s t r rule: less_induct)
  case less
  have IH: "length r' < length s'" if "scan_string s' = Some (t', r')" "length s' < length s" for s' t' r'
    by (rule less.hyps [OF that(2,1)])
  show ?case
    using less.prems
    by (cases s) (auto split: if_splits list.splits option.splits dest!: IH)
qed

lemma parse_number_shorter:
  assumes "parse_number s = Some (v, r)" shows "length r < length s"
proof -
  define t where "t = drop (length (number_sign s)) s"
  obtain w f e where w: "number_parts t = (w, f, e)" by (cases "number_parts t")
  have r: "w \<noteq> []" "r = drop (length w + length f + length e) t"
    using assms by (auto simp: parse_number_def Let_def t_def [symmetric] w split: if_split_asm)
  have "w = parse_whole t" using w by (simp add: number_parts_def Let_def)
  then have "t \<noteq> []" using r(1) by (auto simp: parse_whole_def)
  then have "length r < length t" using r diff_less [of "length w + length f + length e" "length t"] by simp
  then show ?thesis by (simp add: t_def)
qed

lemma skip_less: "n < length (dropWhile json_ws s) \<Longrightarrow> n < length s"
  using length_dropWhile_le [of json_ws s] by simp

lemma skip_shorter: "dropWhile json_ws s = c # r \<Longrightarrow> length r < length s"
  using length_dropWhile_le [of json_ws s] by simp

lemma parse_atom_shorter: "parse_atom (c # cs) = Some (v, r) \<Longrightarrow> length r < length (c # cs)"
  using parse_number_shorter [of "c # cs" v r] by (auto simp: parse_atom_def split: if_split_asm)

lemma parse_shorter:
  "parse_value n s = Some (v, r) \<Longrightarrow> length r < length s"
  "parse_items n js s = Some (v, r) \<Longrightarrow> length r < length s"
  "parse_members n ms s = Some (v, r) \<Longrightarrow> length r < length s"
proof (induction n arbitrary: s v r js ms)
  case (Suc n)
  { case 1
    show ?case
      using 1 by (cases s) (auto split: if_split_asm list.split_asm dest!: scan_string_shorter parse_atom_shorter Suc skip_shorter)
  next
    case 2
    show ?case
      using 2 by (auto split: if_split_asm list.split_asm option.split_asm dest!: Suc skip_less skip_shorter)
  next
    case 3
    show ?case
      using 3 by (auto split: if_split_asm list.split_asm option.split_asm dest!: Suc skip_less skip_shorter scan_string_shorter)
  }
qed simp_all

text \<open>The bound given to the scanner is enough: a larger one gives the same result.\<close>

lemma parse_fuel:
  "2 * length s < n \<Longrightarrow> 2 * length s < m \<Longrightarrow> parse_value n s = parse_value m s"
  "2 * length s + 1 < n \<Longrightarrow> 2 * length s + 1 < m \<Longrightarrow> parse_items n js s = parse_items m js s"
  "2 * length s + 1 < n \<Longrightarrow> 2 * length s + 1 < m \<Longrightarrow> parse_members n ms s = parse_members m ms s"
proof (induction n arbitrary: s js ms m)
  case (Suc n)
  { case 1
    then obtain k where m: "m = Suc k" by (cases m) auto
    show ?case
    proof (cases s)
      case (Cons c cs)
      show ?thesis
      proof (cases "dropWhile json_ws cs")
        case r: (Cons d r)
        have "2 * length (d # r) + 1 < n" "2 * length (d # r) + 1 < k"
          using skip_shorter [OF r] length_dropWhile_le [of json_ws cs] 1 by (simp_all add: r m Cons)
        then have "parse_items n [] (d # r) = parse_items k [] (d # r)" "parse_members n [] r = parse_members k [] r"
          by (intro Suc(2), simp_all) (intro Suc(3), simp_all)
        then show ?thesis by (simp add: m Cons r)
      next
        case Nil
        then show ?thesis by (simp add: m Cons Nil del: dropWhile_eq_Nil_conv)
      qed
    qed (simp add: m)
  next
    case 2
    then obtain k where m: "m = Suc k" by (cases m) auto
    have v: "parse_value n s = parse_value k s" by (rule Suc(1)) (use 2 m in simp_all)
    show ?case
    proof (cases "parse_value k s")
      case (Some q)
      obtain x r where q: "q = (x, r)" by (cases q)
      have "length r < length s" using parse_shorter(1) Some q by blast
      then have "parse_items n js (dropWhile json_ws r') = parse_items k js (dropWhile json_ws r')" if "dropWhile json_ws r = c # r'" for c r' js
        by (intro Suc(2)) (use 2 skip_shorter [OF that] length_dropWhile_le [of json_ws r'] in \<open>simp_all add: m\<close>)
      then show ?thesis using v by (cases "dropWhile json_ws r") (simp_all add: m Some q)
    qed (simp add: m v)
  next
    case 3
    then obtain k where m: "m = Suc k" by (cases m) auto
    show ?case
    proof (cases "scan_string s")
      case (Some q)
      obtain x r where q: "q = (x, r)" by (cases q)
      have r: "length r < length s" using scan_string_shorter Some q by blast
      show ?thesis
      proof (cases "dropWhile json_ws r")
        case r1: (Cons c r1)
        have l1: "length (dropWhile json_ws r1) < length s" using skip_shorter [OF r1] length_dropWhile_le [of json_ws r1] r by simp
        have v: "parse_value n (dropWhile json_ws r1) = parse_value k (dropWhile json_ws r1)" by (rule Suc(1)) (use 3 m l1 in simp_all)
        show ?thesis
        proof (cases "parse_value k (dropWhile json_ws r1)")
          case val: (Some w)
          obtain y r2 where w: "w = (y, r2)" by (cases w)
          have l2: "length r2 < length s" using parse_shorter(1) [OF val [unfolded w]] l1 by simp
          have "parse_members n ms r4 = parse_members k ms r4" if "dropWhile json_ws r2 = d # r3" "dropWhile json_ws r3 = e # r4" for d r3 e r4 ms
            by (intro Suc(3)) (use 3 l2 skip_shorter [OF that(1)] skip_shorter [OF that(2)] in \<open>simp_all add: m\<close>)
          then show ?thesis using v by (simp add: m Some q r1 val w split: list.split)
        qed (simp add: m Some q r1 v)
      qed (simp add: m Some q)
    qed (simp add: m)
  }
qed simp_all

section \<open>What is written reads back\<close>

fun json_ok :: "json \<Rightarrow> bool" where
  "json_ok (JInt i) \<longleftrightarrow> nat \<bar>i\<bar> < decimal_bound"
| "json_ok (JFloat s) \<longleftrightarrow> False"
| "json_ok (JArr js) \<longleftrightarrow> list_all json_ok js"
| "json_ok (JObj ms) \<longleftrightarrow> distinct (map fst ms) \<and> list_all (\<lambda>(k, j). json_ok j) ms"
| "json_ok j \<longleftrightarrow> True"

definition dialect_ok :: "dialect \<Rightarrow> bool" where
  "dialect_ok d \<longleftrightarrow> (\<exists>a b. fst d = CHR '','' # a \<and> fst (snd d) = CHR '':'' # b \<and> list_all json_ws a \<and> list_all json_ws b)"

lemma dialects_ok [simp]: "dialect_ok default_dialect" "dialect_ok compact_dialect"
  by (simp_all add: dialect_ok_def default_dialect_def compact_dialect_def json_ws_def ccode_def)

text \<open>What may follow a number.\<close>

definition ends_number :: "string \<Rightarrow> bool" where
  "ends_number s \<longleftrightarrow> (case s of [] \<Rightarrow> True | c # _ \<Rightarrow> \<not> is_digit c \<and> c \<notin> {CHR ''.'', CHR ''e'', CHR ''E''})"

lemma ends_numberI: "c \<in> {CHR '','', CHR '']'', CHR ''}''} \<Longrightarrow> ends_number (c # s)"
  by (auto simp: ends_number_def is_digit_def ccode_def)

lemma digit_char: "d < 10 \<Longrightarrow> is_digit (hex_char d) \<and> (hex_char d = CHR ''0'' \<longleftrightarrow> d = 0)"
proof -
  assume "d < 10"
  then have "d \<in> {0, 1, 2, 3, 4, 5, 6, 7, 8, 9}" by auto
  then show ?thesis by (elim insertE emptyE) (simp_all add: hex_char_def is_digit_def ccode_def)
qed

lemma dec_digits_all: "list_all is_digit (dec_digits n)"
  by (induction n rule: dec_digits.induct) (subst dec_digits.simps, auto simp: digit_char)

lemma dec_digits_zero: "hd (dec_digits n) = CHR ''0'' \<Longrightarrow> n = 0"
proof (induction n rule: dec_digits.induct)
  case (1 n)
  show ?case
  proof (cases "n < 10")
    case True
    then show ?thesis using 1(2) digit_char [OF True] by (simp add: dec_digits.simps [of n])
  next
    case False
    then have "hd (dec_digits (n div 10)) = CHR ''0''" using 1(2) by (simp add: dec_digits.simps [of n])
    then show ?thesis using 1(1) [OF False] False by simp
  qed
qed

lemma whole_digits: "ends_number rest \<Longrightarrow> parse_whole (dec_digits n @ rest) = dec_digits n"
proof -
  assume rest: "ends_number rest"
  have all: "takeWhile is_digit (dec_digits n @ rest) = dec_digits n"
    using dec_digits_all [of n] rest
    by (subst takeWhile_append2) (auto simp: list_all_iff ends_number_def split: list.splits)
  obtain c cs where c: "dec_digits n = c # cs" by (cases "dec_digits n") auto
  show ?thesis
  proof (cases "c = CHR ''0''")
    case True
    then have "n = 0" using dec_digits_zero [of n] c by simp
    then have "dec_digits n = [c]" using c by (simp add: dec_digits.simps [of 0])
    then show ?thesis using True by (simp add: parse_whole_def)
  next
    case False
    then show ?thesis using all c by (simp add: parse_whole_def)
  qed
qed

lemma no_fraction: "ends_number s \<Longrightarrow> parse_fraction s = [] \<and> parse_exponent s = []"
  by (cases s) (simp_all add: parse_fraction_def parse_exponent_def ends_number_def)

lemma number_parts_digits: "ends_number rest \<Longrightarrow> number_parts (dec_digits n @ rest) = (dec_digits n, [], [])"
  by (simp add: number_parts_def Let_def whole_digits no_fraction)

lemma parse_int: "ends_number rest \<Longrightarrow> nat \<bar>i\<bar> < decimal_bound \<Longrightarrow> parse_number (py_str_int i @ rest) = Some (JInt i, rest)"
proof -
  assume rest: "ends_number rest" and i: "nat \<bar>i\<bar> < decimal_bound"
  show ?thesis
  proof (cases "i < 0")
    case True
    then show ?thesis using i by (simp add: parse_number_def number_sign_def py_str_int_def number_parts_digits [OF rest] py_int_dec_digits)
  next
    case False
    obtain c cs where c: "dec_digits (nat i) = c # cs" by (cases "dec_digits (nat i)") auto
    have "is_digit c" using dec_digits_all [of "nat i"] c by simp
    then have "number_sign (py_str_int i @ rest) = []" using False c by (auto simp: number_sign_def py_str_int_def is_digit_def ccode_def)
    then show ?thesis using i False number_parts_digits [OF rest, of "nat i"] by (simp add: parse_number_def py_str_int_def py_int_dec_digits)
  qed
qed

text \<open>A printed value starts with a character that is neither white space nor a closing bracket.\<close>

definition value_head :: "char \<Rightarrow> bool" where
  "value_head c \<longleftrightarrow> \<not> json_ws c \<and> c \<notin> {CHR '']'', CHR ''}'', CHR '','', CHR '':''}"

lemma int_head:
  obtains c cs where "py_str_int i = c # cs" and "is_digit c \<or> c = CHR ''-'' \<and> (\<exists>d ds. cs = d # ds \<and> is_digit d)"
proof -
  have digits: "\<exists>c cs. dec_digits n = c # cs \<and> is_digit c" for n
    using dec_digits_all [of n] by (cases "dec_digits n") auto
  show ?thesis using digits [of "nat i"] digits [of "nat (- i)"] that by (cases "i < 0") (auto simp: py_str_int_def)
qed

lemma digit_apart: "is_digit c \<Longrightarrow> c \<notin> set ''ntfNI-'' \<and> c \<notin> {CHR 0x22, CHR ''{'', CHR ''[''} \<and> value_head c"
  by (auto simp: is_digit_def value_head_def json_ws_def ccode_def)

lemma print_head: "json_ok j \<Longrightarrow> \<exists>c cs. print_json d j = c # cs \<and> value_head c"
proof (cases j)
  case (JInt i)
  obtain c cs where "py_str_int i = c # cs" "is_digit c \<or> c = CHR ''-''" by (rule int_head [of i]) blast
  moreover have "value_head (CHR ''-'')" by (simp add: value_head_def json_ws_def ccode_def)
  ultimately show ?thesis using digit_apart by (auto simp: JInt)
qed (simp_all add: value_head_def json_ws_def ccode_def dumps_string_def)

lemma skip_to: "list_all json_ws a \<Longrightarrow> value_head c \<Longrightarrow> dropWhile json_ws (a @ c # s) = c # s"
  by (induction a) (simp_all add: value_head_def)

lemma marks [simp]: "\<not> json_ws (CHR '']'')" "\<not> json_ws (CHR ''}'')" "\<not> json_ws (CHR '','')" "\<not> json_ws (CHR '':'')" "\<not> json_ws (CHR 0x22)"
  by (simp_all add: json_ws_def ccode_def)

definition reads :: "dialect \<Rightarrow> json \<Rightarrow> bool" where
  "reads d j \<longleftrightarrow> (\<forall>rest m. ends_number rest \<longrightarrow> 2 * length (print_json d j @ rest) < m \<longrightarrow>
     parse_value m (print_json d j @ rest) = Some (j, rest))"

lemma reads_int: "nat \<bar>i\<bar> < decimal_bound \<Longrightarrow> reads d (JInt i)"
proof (unfold reads_def, intro allI impI)
  fix rest m assume i: "nat \<bar>i\<bar> < decimal_bound" and rest: "ends_number rest" and m: "2 * length (print_json d (JInt i) @ rest) < m"
  obtain c cs where c: "py_str_int i = c # cs" "is_digit c \<or> c = CHR ''-'' \<and> (\<exists>d ds. cs = d # ds \<and> is_digit d)" by (rule int_head)
  have apart: "c \<notin> {CHR 0x22, CHR ''{'', CHR ''[''}" using c(2) digit_apart [of c] by (elim disjE conjE) simp_all
  have "\<not> starts w (py_str_int i @ rest)" if "w \<in> {''null'', ''true'', ''false'', ''NaN'', ''Infinity'', ''-Infinity''}" for w
    using that c(2) digit_apart [of c] digit_apart [of "CHR ''I''"] by (elim insertE emptyE) (simp_all add: starts_def c(1), auto simp: is_digit_def ccode_def)
  then have "parse_atom (py_str_int i @ rest) = parse_number (py_str_int i @ rest)" unfolding parse_atom_def by simp
  then have "parse_atom (py_str_int i @ rest) = Some (JInt i, rest)" using parse_int [OF rest i] by simp
  moreover obtain n where "m = Suc n" using m by (cases m) auto
  ultimately show "parse_value m (print_json d (JInt i) @ rest) = Some (JInt i, rest)"
    using apart by (simp add: c(1))
qed

lemma items_read:
  assumes "dialect_ok d" and "js \<noteq> []" and "\<forall>j \<in> set js. json_ok j \<and> reads d j"
    and "2 * length (joined (fst d) (map (print_json d) js) @ CHR '']'' # rest) + 1 < m"
  shows "parse_items m acc (joined (fst d) (map (print_json d) js) @ CHR '']'' # rest) = Some (JArr (acc @ js), rest)"
  using assms(2-)
proof (induction js arbitrary: acc m)
  case (Cons j js)
  obtain n where m: "m = Suc n" using Cons.prems(3) by (cases m) auto
  obtain a where a: "fst d = CHR '','' # a" "list_all json_ws a" using assms(1) by (auto simp: dialect_ok_def)
  show ?case
  proof (cases js)
    case Nil
    have "parse_value n (print_json d j @ CHR '']'' # rest) = Some (j, CHR '']'' # rest)"
      using Cons.prems(2,3) ends_numberI [of "CHR '']''"] unfolding reads_def by (simp add: m Nil)
    then show ?thesis by (simp add: Nil m)
  next
    case (Cons k ks)
    let ?more = "joined (fst d) (map (print_json d) js) @ CHR '']'' # rest"
    obtain c cs where c: "print_json d k = c # cs" "value_head c" using print_head Cons.prems(2) Cons by (metis list.set_intros(1,2))
    have more: "dropWhile json_ws (a @ ?more) = ?more" using skip_to [OF a(2) c(2)] by (cases ks) (simp_all add: Cons c(1))
    have shown: "joined (fst d) (map (print_json d) (j # js)) @ CHR '']'' # rest = print_json d j @ CHR '','' # a @ ?more"
      by (simp add: Cons a(1))
    have "parse_value n (print_json d j @ CHR '','' # a @ ?more) = Some (j, CHR '','' # a @ ?more)"
      using Cons.prems(2,3) ends_numberI [of "CHR '',''"] unfolding reads_def shown by (simp add: m)
    moreover have "parse_items n (acc @ [j]) ?more = Some (JArr ((acc @ [j]) @ js), rest)"
      by (rule Cons.IH) (use Cons.prems(2,3) Cons in \<open>auto simp: shown m a(1)\<close>)
    ultimately show ?thesis unfolding shown by (simp add: m more)
  qed
qed simp

lemma members_read:
  assumes "dialect_ok d" and "ms \<noteq> []" and "\<forall>(k, j) \<in> set ms. json_ok j \<and> reads d j" and "distinct (map fst (acc @ ms))"
  defines "show_member \<equiv> \<lambda>(k, j). dumps_string (snd (snd d)) k @ fst (snd d) @ print_json d j"
  assumes "CHR 0x22 # s = joined (fst d) (map show_member ms) @ CHR ''}'' # rest" and "2 * length s + 1 < m"
  shows "parse_members m acc s = Some (JObj (acc @ ms), rest)"
  using assms(2-4,6-)
proof (induction ms arbitrary: acc m s)
  case (Cons e ms)
  obtain k j where e: "e = (k, j)" by (cases e)
  obtain n where m: "m = Suc n" using Cons.prems(5) by (cases m) auto
  obtain a b where ab: "fst d = CHR '','' # a" "list_all json_ws a" "fst (snd d) = CHR '':'' # b" "list_all json_ws b"
    using assms(1) by (auto simp: dialect_ok_def)
  let ?tail = "if ms = [] then CHR ''}'' # rest else CHR '','' # a @ joined (fst d) (map show_member ms) @ CHR ''}'' # rest"
  have s: "s = concat (map (escape_char (snd (snd d))) k) @ CHR 0x22 # CHR '':'' # b @ print_json d j @ ?tail"
  proof -
    have one: "show_member e = CHR 0x22 # concat (map (escape_char (snd (snd d))) k) @ CHR 0x22 # CHR '':'' # b @ print_json d j"
      by (simp add: e show_member_def dumps_string_def ab(3))
    have "joined (fst d) (map show_member (e # ms)) @ CHR ''}'' # rest = show_member e @ ?tail"
      by (cases ms) (simp_all add: ab(1))
    then have "CHR 0x22 # s = show_member e @ ?tail" using Cons.prems(4) by (rule trans [rotated])
    then show ?thesis by (simp only: one append_Cons append_assoc list.inject simp_thms)
  qed
  have key: "scan_string s = Some (k, CHR '':'' # b @ print_json d j @ ?tail)" unfolding s by (rule scan_dumped)
  have j: "json_ok j" "reads d j" using Cons.prems(2) by (simp_all add: e)
  obtain c cs where c: "print_json d j = c # cs" "value_head c" using print_head [OF j(1)] by blast
  have val: "dropWhile json_ws (b @ print_json d j @ ?tail) = print_json d j @ ?tail" using skip_to [OF ab(4) c(2)] by (simp add: c(1))
  have "ends_number ?tail" by (simp add: ends_numberI)
  moreover have "2 * length (print_json d j @ ?tail) < n" using Cons.prems(5) unfolding s by (simp add: m)
  ultimately have parsed: "parse_value n (print_json d j @ ?tail) = Some (j, ?tail)"
    using j(2) unfolding reads_def by blast
  have new: "dict_set k j acc = acc @ [(k, j)]" by (rule dict_set_new) (use Cons.prems(3) e in \<open>auto simp: map_of_eq_None_iff\<close>)
  show ?case
  proof (cases ms)
    case Nil
    then show ?thesis using key val parsed new by (simp add: m e)
  next
    case more: (Cons e2 ms2)
    obtain s2 where s2: "CHR 0x22 # s2 = joined (fst d) (map show_member ms) @ CHR ''}'' # rest"
      by (cases e2; cases ms2) (simp_all add: more show_member_def dumps_string_def)
    have skip: "dropWhile json_ws (a @ CHR 0x22 # s2) = CHR 0x22 # s2"
      by (rule skip_to [OF ab(2)]) (simp add: value_head_def)
    have "parse_members n (acc @ [(k, j)]) s2 = Some (JObj ((acc @ [(k, j)]) @ ms), rest)"
    proof (rule Cons.IH)
      have "length s2 + 1 = length (joined (fst d) (map show_member ms) @ CHR ''}'' # rest)" using arg_cong [OF s2, of length] by (simp only: list.size)
      then show "2 * length s2 + 1 < n" using Cons.prems(5) unfolding s by (simp add: m more)
    qed (use Cons.prems more s2 e in auto)
    then show ?thesis using key val parsed new skip s2 [symmetric] more by (simp add: m e)
  qed
qed simp

text \<open>A value with distinct keys, without fractions, and with integers short enough for \<open>int()\<close>, is read back.\<close>

lemma json_reads:
  assumes "dialect_ok d" shows "json_ok j \<Longrightarrow> reads d j"
proof (induction j)
  case (JStr s)
  then show ?case unfolding reads_def
    by (intro allI impI, case_tac m) (simp_all add: dumps_string_def scan_dumped)
next
  case (JArr js)
  then have js: "\<forall>j \<in> set js. json_ok j \<and> reads d j" by (simp add: list_all_iff)
  show ?case unfolding reads_def
  proof (intro allI impI)
    fix rest m assume m: "2 * length (print_json d (JArr js) @ rest) < m"
    then obtain n where n: "m = Suc n" by (cases m) auto
    show "parse_value m (print_json d (JArr js) @ rest) = Some (JArr js, rest)"
    proof (cases js)
      case Nil
      then show ?thesis by (simp add: n)
    next
      case (Cons k ks)
      obtain c cs where c: "print_json d k = c # cs" "value_head c" using print_head js Cons by (metis list.set_intros(1))
      have "parse_items n [] (joined (fst d) (map (print_json d) js) @ CHR '']'' # rest) = Some (JArr ([] @ js), rest)"
        by (rule items_read [OF assms]) (use js m Cons in \<open>auto simp: n\<close>)
      moreover obtain r where "joined (fst d) (map (print_json d) js) @ CHR '']'' # rest = c # r"
        by (cases ks) (simp_all add: Cons c(1))
      ultimately show ?thesis using c(2) by (simp add: n value_head_def)
    qed
  qed
next
  case (JObj ms)
  then have ms: "\<forall>(k, j) \<in> set ms. json_ok j \<and> reads d j" "distinct (map fst ([] @ ms))" by (fastforce simp: list_all_iff)+
  show ?case unfolding reads_def
  proof (intro allI impI)
    fix rest m assume m: "2 * length (print_json d (JObj ms) @ rest) < m"
    then obtain n where n: "m = Suc n" by (cases m) auto
    show "parse_value m (print_json d (JObj ms) @ rest) = Some (JObj ms, rest)"
    proof (cases ms)
      case Nil
      then show ?thesis by (simp add: n)
    next
      case (Cons e es)
      let ?text = "joined (fst d) (map (\<lambda>(k, j). dumps_string (snd (snd d)) k @ fst (snd d) @ print_json d j) ms) @ CHR ''}'' # rest"
      obtain s where s: "CHR 0x22 # s = ?text"
        by (cases e; cases es) (simp_all add: Cons dumps_string_def)
      have "parse_members n [] s = Some (JObj ([] @ ms), rest)"
      proof (rule members_read [OF assms _ ms s])
        have "print_json d (JObj ms) @ rest = CHR ''{'' # ?text" by simp
        then have "length (print_json d (JObj ms) @ rest) = length s + 2" using arg_cong [OF s, of length] by (simp only: list.size)
        then show "2 * length s + 1 < n" using m n by simp
      qed (simp add: Cons)
      then show ?thesis using s [symmetric] by (simp add: n)
    qed
  qed
next
  case (JInt i)
  then show ?case by (simp add: reads_int)
next
  case JNull
  show ?case unfolding reads_def by (intro allI impI, case_tac m) (simp_all add: parse_atom_def starts_def)
next
  case (JBool b)
  show ?case unfolding reads_def by (intro allI impI, case_tac m) (simp_all add: parse_atom_def starts_def)
qed simp

lemma json_printed_read: "json_ok j \<Longrightarrow> dialect_ok d \<Longrightarrow> json_loads (print_json d j) = Some j"
proof -
  assume ok: "json_ok j" and d: "dialect_ok d"
  obtain c cs where c: "print_json d j = c # cs" "value_head c" using print_head [OF ok] by blast
  have "parse_value (2 * length (print_json d j) + 2) (print_json d j @ []) = Some (j, [])"
    by (rule json_reads [OF d ok, unfolded reads_def, rule_format]) (simp_all add: ends_number_def)
  moreover have "dropWhile json_ws (print_json d j) = print_json d j" using c by (simp add: value_head_def)
  ultimately show ?thesis by (simp add: json_loads_def del: parse_value.simps)
qed

lemma canonical_ok: "json_ok j \<Longrightarrow> json_ok (canonical j)"
proof (induction j)
  case (JObj ms)
  let ?ms = "map (\<lambda>(k, j). (k, canonical j)) ms"
  have "map fst ?ms = map fst ms" by (induction ms) auto
  then have "distinct (map fst ?ms)" using JObj.prems by (simp only: json_ok.simps)
  then have "distinct (map fst (sort_key fst ?ms))" unfolding distinct_map distinct_sort set_sort .
  moreover have "list_all (\<lambda>(k, j). json_ok j) (sort_key fst ?ms)" using JObj by (fastforce simp: list_all_iff)
  ultimately show ?case by simp
qed (auto simp: list_all_iff)

text \<open>\<open>loads(dumps(value))\<close> is the value with sorted keys.\<close>

lemma json_roundtrip: "json_ok j \<Longrightarrow> dialect_ok d \<Longrightarrow> json_loads (json_dumps d j) = Some (canonical j)"
  by (simp add: json_dumps_def json_printed_read canonical_ok)

end
