(* ===== verification/File_Txn.thy ===== *)
theory File_Txn
  imports Json
begin

text \<open>
  \<open>storage/file_txn.py\<close>: several files published as one recoverable transaction. A disk is a table from paths to
  inodes, so that a hard link is a second entry with the same inode. The environment answers every system call: it
  proceeds, it fails, or a write stops short. A crash is an environment all of whose answers fail from some call on.
\<close>

section \<open>Paths\<close>

text \<open>\<open>pathlib\<close> on POSIX: a root, which is empty, one slash or two, and the parts. \<open>Path(text)\<close> drops empty parts and dots.\<close>

datatype py_path = Path (path_root: string) (path_parts: "string list")

definition parse_path :: "string \<Rightarrow> py_path" where
  "parse_path s =
     (let root = (if starts ''//'' s \<and> \<not> starts ''///'' s then ''//'' else if starts ''/'' s then ''/'' else [])
      in Path root (filter (\<lambda>p. p \<noteq> [] \<and> p \<noteq> ''.'') (split_on (CHR ''/'') (drop (length root) s))))"

definition path_str :: "py_path \<Rightarrow> string" where
  "path_str p = (let s = path_root p @ joined ''/'' (path_parts p) in if s = [] then ''.'' else s)"

text \<open>\<open>path.with_name(path.name + suffix)\<close>; \<open>None\<close> is the \<open>ValueError\<close> of a path without a name.\<close>

definition with_suffix :: "py_path \<Rightarrow> string \<Rightarrow> py_path option" where
  "with_suffix p ext =
     (if path_parts p = [] then None
      else Some (Path (path_root p) (butlast (path_parts p) @ [last (path_parts p) @ ext])))"

definition temp_path :: "py_path \<Rightarrow> py_path option" where "temp_path p = with_suffix p ''.tmp''"

definition backup_path :: "py_path \<Rightarrow> py_path option" where "backup_path p = with_suffix p ''.bak''"

section \<open>The file system\<close>

type_synonym file_bytes = "8 word list"

record disk =
  entries :: "py_path \<Rightarrow> nat option"
  inodes :: "nat \<Rightarrow> file_bytes"
  next_inode :: nat
  calls :: nat

datatype os_answer = Proceeds | Stops nat | Fails nat

type_synonym os = "nat \<Rightarrow> os_answer"

datatype os_error = FileNotFound | OtherOSError

definition tick :: "disk \<Rightarrow> disk" where "tick d = d\<lparr>calls := Suc (calls d)\<rparr>"

definition exists_path :: "disk \<Rightarrow> py_path \<Rightarrow> bool" where "exists_path d p \<longleftrightarrow> entries d p \<noteq> None"

text \<open>\<open>os.open(path, O_WRONLY | O_CREAT | O_TRUNC)\<close>: the inode is the file descriptor.\<close>

definition sys_open :: "os \<Rightarrow> py_path \<Rightarrow> disk \<Rightarrow> (os_error + nat) \<times> disk" where
  "sys_open env p d =
     (case env (calls d) of
        Fails _ \<Rightarrow> (Inl OtherOSError, tick d)
      | _ \<Rightarrow>
          (case entries d p of
             Some i \<Rightarrow> (Inr i, (tick d)\<lparr>inodes := (inodes d)(i := [])\<rparr>)
           | None \<Rightarrow> (Inr (next_inode d), (tick d)\<lparr>entries := (entries d)(p \<mapsto> next_inode d),
               inodes := (inodes d)(next_inode d := []), next_inode := Suc (next_inode d)\<rparr>)))"

text \<open>\<open>os.write\<close> to the file just opened: it returns how many bytes it wrote. A failure may leave some of them, too.\<close>

definition sys_write :: "os \<Rightarrow> nat \<Rightarrow> file_bytes \<Rightarrow> disk \<Rightarrow> (os_error + nat) \<times> disk" where
  "sys_write env fd content d =
     (case env (calls d) of
        Fails n \<Rightarrow> (Inl OtherOSError, (tick d)\<lparr>inodes := (inodes d)(fd := take n content)\<rparr>)
      | Stops n \<Rightarrow> (Inr (length (take n content)), (tick d)\<lparr>inodes := (inodes d)(fd := take n content)\<rparr>)
      | Proceeds \<Rightarrow> (Inr (length content), (tick d)\<lparr>inodes := (inodes d)(fd := content)\<rparr>))"

definition sys_fsync :: "os \<Rightarrow> nat \<Rightarrow> disk \<Rightarrow> (os_error + unit) \<times> disk" where
  "sys_fsync env fd d = (case env (calls d) of Fails _ \<Rightarrow> (Inl OtherOSError, tick d) | _ \<Rightarrow> (Inr (), tick d))"

text \<open>\<open>rename\<close> does nothing when both paths are links to one file.\<close>

definition sys_rename :: "os \<Rightarrow> py_path \<Rightarrow> py_path \<Rightarrow> disk \<Rightarrow> (os_error + unit) \<times> disk" where
  "sys_rename env src dst d =
     (case env (calls d) of
        Fails _ \<Rightarrow> (Inl OtherOSError, tick d)
      | _ \<Rightarrow>
          (case entries d src of
             None \<Rightarrow> (Inl FileNotFound, tick d)
           | Some i \<Rightarrow>
               if entries d dst = Some i then (Inr (), tick d)
               else (Inr (), (tick d)\<lparr>entries := (entries d)(dst \<mapsto> i, src := None)\<rparr>)))"

definition sys_link :: "os \<Rightarrow> py_path \<Rightarrow> py_path \<Rightarrow> disk \<Rightarrow> (os_error + unit) \<times> disk" where
  "sys_link env src dst d =
     (case env (calls d) of
        Fails _ \<Rightarrow> (Inl OtherOSError, tick d)
      | _ \<Rightarrow>
          (case entries d src of
             None \<Rightarrow> (Inl FileNotFound, tick d)
           | Some i \<Rightarrow>
               if exists_path d dst then (Inl OtherOSError, tick d)
               else (Inr (), (tick d)\<lparr>entries := (entries d)(dst \<mapsto> i)\<rparr>)))"

definition sys_unlink :: "os \<Rightarrow> py_path \<Rightarrow> disk \<Rightarrow> (os_error + unit) \<times> disk" where
  "sys_unlink env p d =
     (case env (calls d) of
        Fails _ \<Rightarrow> (Inl OtherOSError, tick d)
      | _ \<Rightarrow> if exists_path d p then (Inr (), (tick d)\<lparr>entries := (entries d)(p := None)\<rparr>) else (Inl FileNotFound, tick d))"

definition sys_read :: "os \<Rightarrow> py_path \<Rightarrow> disk \<Rightarrow> (os_error + file_bytes) \<times> disk" where
  "sys_read env p d =
     (case env (calls d) of
        Fails _ \<Rightarrow> (Inl OtherOSError, tick d)
      | _ \<Rightarrow> (case entries d p of None \<Rightarrow> (Inl FileNotFound, tick d) | Some i \<Rightarrow> (Inr (inodes d i), tick d)))"

section \<open>Steps that may raise\<close>

datatype txn_error = StorageIO string py_path | BadValue

type_synonym 'a io = "disk \<Rightarrow> (txn_error + 'a) \<times> disk"

definition return_io :: "'a \<Rightarrow> 'a io" where "return_io a d = (Inr a, d)"

definition bind_io :: "'a io \<Rightarrow> ('a \<Rightarrow> 'b io) \<Rightarrow> 'b io" where
  "bind_io m f d = (case m d of (Inl e, d') \<Rightarrow> (Inl e, d') | (Inr a, d') \<Rightarrow> f a d')"

definition os_step :: "string \<Rightarrow> py_path \<Rightarrow> (disk \<Rightarrow> (os_error + 'a) \<times> disk) \<Rightarrow> 'a io" where
  "os_step phase p m d = (case m d of (Inl e, d') \<Rightarrow> (Inl (StorageIO phase p), d') | (Inr a, d') \<Rightarrow> (Inr a, d'))"

primrec each_io :: "('a \<Rightarrow> unit io) \<Rightarrow> 'a list \<Rightarrow> unit io" where
  "each_io f [] = return_io ()"
| "each_io f (x # xs) = bind_io (f x) (\<lambda>_. each_io f xs)"

definition stage_temp :: "os \<Rightarrow> py_path \<Rightarrow> file_bytes \<Rightarrow> unit io" where
  "stage_temp env temp content =
     bind_io (os_step ''stage_temp'' temp (sys_open env temp)) (\<lambda>fd.
     bind_io (os_step ''stage_temp'' temp (sys_write env fd content)) (\<lambda>_.
       os_step ''fsync_temp'' temp (sys_fsync env fd)))"

definition rename_path :: "os \<Rightarrow> py_path \<Rightarrow> py_path \<Rightarrow> string \<Rightarrow> unit io" where
  "rename_path env src dst phase = os_step phase dst (sys_rename env src dst)"

definition link_path :: "os \<Rightarrow> py_path \<Rightarrow> py_path \<Rightarrow> string \<Rightarrow> unit io" where
  "link_path env src dst phase = os_step phase dst (sys_link env src dst)"

definition unlink_path :: "os \<Rightarrow> py_path \<Rightarrow> string \<Rightarrow> unit io" where
  "unlink_path env p phase d =
     (case sys_unlink env p d of
        (Inl FileNotFound, d') \<Rightarrow> (Inr (), d')
      | (Inl OtherOSError, d') \<Rightarrow> (Inl (StorageIO phase p), d')
      | (Inr _, d') \<Rightarrow> (Inr (), d'))"

section \<open>The plan and the journal\<close>

record file_write =
  fw_target :: py_path
  fw_content :: file_bytes

record plan_entry =
  pe_target :: py_path
  pe_temp :: py_path
  pe_backup :: py_path
  pe_had_target :: bool

fun build_plan :: "file_write list \<Rightarrow> disk \<Rightarrow> plan_entry list option" where
  "build_plan [] d = Some []"
| "build_plan (fw # fws) d =
     (case (temp_path (fw_target fw), backup_path (fw_target fw)) of
        (Some t, Some b) \<Rightarrow> map_option ((#) \<lparr>pe_target = fw_target fw, pe_temp = t, pe_backup = b,
            pe_had_target = exists_path d (fw_target fw)\<rparr>) (build_plan fws d)
      | _ \<Rightarrow> None)"

definition entry_json :: "plan_entry \<Rightarrow> json" where
  "entry_json e = JObj [(''target'', JStr (path_str (pe_target e))), (''temp'', JStr (path_str (pe_temp e))),
     (''backup'', JStr (path_str (pe_backup e))), (''had_target'', JBool (pe_had_target e))]"

definition journal_bytes :: "plan_entry list \<Rightarrow> file_bytes" where
  "journal_bytes plan = utf8_encode (json_dumps default_dialect
     (JObj [(''version'', JInt 1), (''entries'', JArr (map entry_json plan))]))"

definition write_journal :: "os \<Rightarrow> py_path \<Rightarrow> plan_entry list \<Rightarrow> unit io" where
  "write_journal env journal plan =
     (case temp_path journal of
        None \<Rightarrow> (\<lambda>d. (Inl BadValue, d))
      | Some t \<Rightarrow> bind_io (stage_temp env t (journal_bytes plan)) (\<lambda>_. rename_path env t journal ''write_journal''))"

text \<open>Subscripts and conversions of the decoded payload; \<open>None\<close> is \<open>KeyError\<close> or \<open>TypeError\<close>.\<close>

definition json_get :: "string \<Rightarrow> json \<Rightarrow> json option" where
  "json_get k j = (case j of JObj ms \<Rightarrow> dict_get ms k | _ \<Rightarrow> None)"

definition json_path :: "json option \<Rightarrow> py_path option" where
  "json_path j = (case j of Some (JStr s) \<Rightarrow> Some (parse_path s) | _ \<Rightarrow> None)"

fun truthy :: "json \<Rightarrow> bool" where
  "truthy JNull \<longleftrightarrow> False"
| "truthy (JBool b) \<longleftrightarrow> b"
| "truthy (JInt i) \<longleftrightarrow> i \<noteq> 0"
| "truthy (JFloat s) \<longleftrightarrow> starts ''N'' s \<or> starts ''I'' s \<or> starts ''-I'' s
     \<or> (\<exists>c \<in> set (takeWhile (\<lambda>c. c \<notin> {CHR ''e'', CHR ''E''}) s). c \<in> set ''123456789'')"
| "truthy (JStr s) \<longleftrightarrow> s \<noteq> []"
| "truthy (JArr js) \<longleftrightarrow> js \<noteq> []"
| "truthy (JObj ms) \<longleftrightarrow> ms \<noteq> []"

text \<open>Iterating over a string or a dictionary gives strings.\<close>

definition json_iter :: "json \<Rightarrow> json list option" where
  "json_iter j = (case j of JArr js \<Rightarrow> Some js | JStr s \<Rightarrow> Some (map (\<lambda>c. JStr [c]) s)
     | JObj ms \<Rightarrow> Some (map (\<lambda>(k, _). JStr k) ms) | _ \<Rightarrow> None)"

definition journal_entry :: "json \<Rightarrow> plan_entry option" where
  "journal_entry j =
     (case (json_path (json_get ''target'' j), json_path (json_get ''temp'' j), json_path (json_get ''backup'' j),
            json_get ''had_target'' j) of
        (Some t, Some u, Some b, Some v) \<Rightarrow> Some \<lparr>pe_target = t, pe_temp = u, pe_backup = b, pe_had_target = truthy v\<rparr>
      | _ \<Rightarrow> None)"

fun journal_entries :: "json list \<Rightarrow> plan_entry list option" where
  "journal_entries [] = Some []"
| "journal_entries (j # js) = (case journal_entry j of None \<Rightarrow> None | Some e \<Rightarrow> map_option ((#) e) (journal_entries js))"

definition parse_journal :: "file_bytes \<Rightarrow> plan_entry list option" where
  "parse_journal raw =
     Option.bind (utf8_decode raw) (\<lambda>s. Option.bind (json_loads s) (\<lambda>payload.
     Option.bind (json_get ''entries'' payload) (\<lambda>es. Option.bind (json_iter es) journal_entries)))"

definition read_journal :: "os \<Rightarrow> py_path \<Rightarrow> plan_entry list io" where
  "read_journal env journal =
     bind_io (os_step ''read_journal'' journal (sys_read env journal)) (\<lambda>raw d.
       case parse_journal raw of None \<Rightarrow> (Inl (StorageIO ''read_journal'' journal), d) | Some plan \<Rightarrow> (Inr plan, d))"

section \<open>Publishing and recovering\<close>

definition finalize :: "os \<Rightarrow> plan_entry list \<Rightarrow> py_path \<Rightarrow> unit io" where
  "finalize env plan journal =
     bind_io (each_io (\<lambda>e. if pe_had_target e then unlink_path env (pe_backup e) ''finalize_backup'' else return_io ()) plan)
       (\<lambda>_. unlink_path env journal ''finalize_journal'')"

definition rollback_target :: "os \<Rightarrow> plan_entry \<Rightarrow> unit io" where
  "rollback_target env e d =
     (if \<not> exists_path d (pe_temp e) then
        (if pe_had_target e then rename_path env (pe_backup e) (pe_target e) ''rollback_restore'' d
         else if exists_path d (pe_target e) then unlink_path env (pe_target e) ''rollback_delete_created'' d
         else (Inr (), d))
      else if pe_had_target e \<and> exists_path d (pe_backup e) \<and> \<not> exists_path d (pe_target e)
        then rename_path env (pe_backup e) (pe_target e) ''rollback_restore'' d
      else if pe_had_target e then unlink_path env (pe_backup e) ''rollback_backup'' d
      else (Inr (), d))"

definition rollback_temp :: "os \<Rightarrow> plan_entry \<Rightarrow> py_path list io" where
  "rollback_temp env e d =
     (if exists_path d (pe_temp e)
      then bind_io (unlink_path env (pe_temp e) ''rollback_temp'') (\<lambda>_. return_io [pe_temp e]) d
      else (Inr [], d))"

fun rollback_entries :: "os \<Rightarrow> plan_entry list \<Rightarrow> py_path list io" where
  "rollback_entries env [] = return_io []"
| "rollback_entries env (e # es) =
     bind_io (rollback_target env e) (\<lambda>_. bind_io (rollback_temp env e) (\<lambda>os1.
       bind_io (rollback_entries env es) (\<lambda>os2. return_io (os1 @ os2))))"

definition rollback :: "os \<Rightarrow> plan_entry list \<Rightarrow> py_path \<Rightarrow> py_path list io" where
  "rollback env plan journal =
     bind_io (rollback_entries env plan) (\<lambda>orphans.
       bind_io (unlink_path env journal ''finalize_journal'') (\<lambda>_. return_io orphans))"

definition backup_entry :: "os \<Rightarrow> plan_entry \<Rightarrow> unit io" where
  "backup_entry env e =
     (if pe_had_target e
      then bind_io (unlink_path env (pe_backup e) ''backup_link'') (\<lambda>_. link_path env (pe_target e) (pe_backup e) ''backup_link'')
      else return_io ())"

definition publish :: "os \<Rightarrow> file_write list \<Rightarrow> py_path \<Rightarrow> unit io" where
  "publish env files journal d =
     (if files = [] then (Inl BadValue, d)
      else (case build_plan files d of
        None \<Rightarrow> (Inl BadValue, d)
      | Some plan \<Rightarrow>
          if \<not> distinct (map pe_target plan) then (Inl BadValue, d)
          else bind_io (each_io (\<lambda>(e, fw). stage_temp env (pe_temp e) (fw_content fw)) (zip plan files)) (\<lambda>_.
               bind_io (write_journal env journal plan) (\<lambda>_.
               bind_io (each_io (backup_entry env) plan) (\<lambda>_.
               bind_io (each_io (\<lambda>e. rename_path env (pe_temp e) (pe_target e) ''publish_rename'') plan) (\<lambda>_.
                 finalize env plan journal)))) d))"

record recovery_report =
  rr_action :: string
  rr_journal_present :: bool
  rr_entries :: "py_path list"
  rr_orphans :: "py_path list"

fun remove_temps :: "os \<Rightarrow> py_path list \<Rightarrow> py_path list io" where
  "remove_temps env [] = return_io []"
| "remove_temps env (p # ps) =
     (case temp_path p of
        None \<Rightarrow> (\<lambda>d. (Inl BadValue, d))
      | Some t \<Rightarrow> (\<lambda>d.
          if exists_path d t
          then bind_io (unlink_path env t ''cleanup_temp'') (\<lambda>_. bind_io (remove_temps env ps) (\<lambda>ts. return_io (t # ts))) d
          else remove_temps env ps d))"

definition recover :: "os \<Rightarrow> py_path list \<Rightarrow> py_path \<Rightarrow> recovery_report io" where
  "recover env targets journal d =
     (if \<not> exists_path d journal then
        bind_io (remove_temps env targets) (\<lambda>removed. return_io
          \<lparr>rr_action = ''none'', rr_journal_present = False, rr_entries = [], rr_orphans = removed\<rparr>) d
      else bind_io (read_journal env journal) (\<lambda>plan d.
        if list_all (\<lambda>e. \<not> exists_path d (pe_temp e)) plan then
          bind_io (finalize env plan journal) (\<lambda>_. return_io
            \<lparr>rr_action = ''rolled_forward'', rr_journal_present = True, rr_entries = map pe_target plan, rr_orphans = []\<rparr>) d
        else bind_io (rollback env plan journal) (\<lambda>orphans. return_io
            \<lparr>rr_action = ''rolled_back'', rr_journal_present = True, rr_entries = map pe_target plan, rr_orphans = orphans\<rparr>) d) d)"

section \<open>The journal reads back\<close>

definition path_ok :: "py_path \<Rightarrow> bool" where
  "path_ok p \<longleftrightarrow> path_root p \<in> {[], ''/'', ''//''} \<and> (\<forall>x \<in> set (path_parts p). x \<noteq> [] \<and> x \<noteq> ''.'' \<and> CHR ''/'' \<notin> set x)"

lemma split_joined: "ps \<noteq> [] \<Longrightarrow> \<forall>p \<in> set ps. CHR ''/'' \<notin> set p \<Longrightarrow> split_on (CHR ''/'') (joined ''/'' ps) = ps"
proof (induction ps rule: induct_list012)
  case (2 p)
  then show ?case by (simp add: split_on_absent)
next
  case (3 p q ps)
  then show ?case using split_on_append [of "CHR ''/''" p "joined ''/'' (q # ps)"] by simp
qed simp

lemma joined_head:
  "ps \<noteq> [] \<Longrightarrow> \<forall>p \<in> set ps. p \<noteq> [] \<and> CHR ''/'' \<notin> set p \<Longrightarrow> \<exists>c cs. joined ''/'' ps = c # cs \<and> c \<noteq> CHR ''/''"
proof (induction ps rule: induct_list012)
  case (2 p)
  then show ?case by (cases p) auto
next
  case (3 p q ps)
  then show ?case by (cases p) auto
qed simp

lemma parse_path_str: "path_ok p \<Longrightarrow> parse_path (path_str p) = p"
proof -
  assume ok: "path_ok p"
  obtain r ps where p: "p = Path r ps" by (cases p)
  have ps: "\<forall>x \<in> set ps. x \<noteq> [] \<and> CHR ''/'' \<notin> set x" "filter (\<lambda>x. x \<noteq> [] \<and> x \<noteq> ''.'') ps = ps" and r: "r \<in> {[], ''/'', ''//''}"
    using ok by (auto simp: path_ok_def p filter_id_conv)
  show ?thesis
  proof (cases "ps = []")
    case True
    then show ?thesis using r by (auto simp: p path_str_def parse_path_def starts_def Let_def)
  next
    case False
    then obtain c cs where c: "joined ''/'' ps = c # cs" "c \<noteq> CHR ''/''" using joined_head ps(1) by blast
    have "split_on (CHR ''/'') (c # cs) = ps" using split_joined [OF False] ps(1) c(1) by auto
    then show ?thesis using r c ps(2) by (auto simp: p path_str_def parse_path_def starts_def Let_def)
  qed
qed

lemma with_suffix_ok:
  assumes "path_ok p" and "with_suffix p ext = Some q" and "CHR ''/'' \<notin> set ext" and "2 \<le> length ext"
  shows "path_ok q"
proof -
  have ne: "path_parts p \<noteq> []" and q: "q = Path (path_root p) (butlast (path_parts p) @ [last (path_parts p) @ ext])"
    using assms(2) by (auto simp: with_suffix_def split: if_splits)
  have "last (path_parts p) @ ext \<noteq> ''.''" using assms(4) by (cases "last (path_parts p)") (auto dest: arg_cong [of _ _ length])
  then show ?thesis using assms(1,3) last_in_set [OF ne] unfolding path_ok_def q by (auto dest: in_set_butlastD)
qed

lemma build_plan_entries:
  "build_plan fws d = Some plan \<Longrightarrow> map pe_target plan = map fw_target fws
    \<and> (\<forall>e \<in> set plan. temp_path (pe_target e) = Some (pe_temp e) \<and> backup_path (pe_target e) = Some (pe_backup e)
        \<and> pe_had_target e = exists_path d (pe_target e))"
  by (induction fws arbitrary: plan) (auto split: option.splits)

definition entry_ok :: "plan_entry \<Rightarrow> bool" where
  "entry_ok e \<longleftrightarrow> path_ok (pe_target e) \<and> path_ok (pe_temp e) \<and> path_ok (pe_backup e)"

lemma build_plan_ok: "build_plan fws d = Some plan \<Longrightarrow> \<forall>fw \<in> set fws. path_ok (fw_target fw) \<Longrightarrow> list_all entry_ok plan"
proof -
  assume b: "build_plan fws d = Some plan" and ok: "\<forall>fw \<in> set fws. path_ok (fw_target fw)"
  have "entry_ok e" if e: "e \<in> set plan" for e
  proof -
    have "pe_target e \<in> set (map fw_target fws)" using build_plan_entries [OF b] e by (metis image_eqI list.set_map)
    then have t: "path_ok (pe_target e)" using ok by auto
    have "with_suffix (pe_target e) ''.tmp'' = Some (pe_temp e)" "with_suffix (pe_target e) ''.bak'' = Some (pe_backup e)"
      using build_plan_entries [OF b] e by (auto simp: temp_path_def backup_path_def)
    note s = this
    have "path_ok (pe_temp e)" "path_ok (pe_backup e)"
      by (rule with_suffix_ok [OF t s(1)], simp_all) (rule with_suffix_ok [OF t s(2)], simp_all)
    then show ?thesis using t by (simp add: entry_ok_def)
  qed
  then show ?thesis by (simp add: list_all_iff)
qed

lemma canonical_get:
  assumes "distinct (map fst ms)"
  shows "json_get k (canonical (JObj ms)) = map_option canonical (dict_get ms k)"
proof -
  let ?ms = "map (\<lambda>(k, j). (k, canonical j)) ms"
  have keys: "map fst ?ms = map fst ms" by (induction ms) auto
  then have d: "distinct (map fst ?ms)" using assms by (simp only:)
  then have "distinct (map fst (sort_key fst ?ms))" unfolding distinct_map distinct_sort set_sort .
  then have "map_of (sort_key fst ?ms) = map_of ?ms" using map_of_inject_set [OF _ d] by (simp only: set_sort simp_thms)
  moreover have "map_of ?ms k = map_option canonical (map_of ms k)" by (induction ms) auto
  ultimately show ?thesis by (simp add: json_get_def)
qed

lemma entry_json_get:
  "json_get ''target'' (canonical (entry_json e)) = Some (JStr (path_str (pe_target e)))"
  "json_get ''temp'' (canonical (entry_json e)) = Some (JStr (path_str (pe_temp e)))"
  "json_get ''backup'' (canonical (entry_json e)) = Some (JStr (path_str (pe_backup e)))"
  "json_get ''had_target'' (canonical (entry_json e)) = Some (JBool (pe_had_target e))"
  unfolding entry_json_def by (subst canonical_get; simp)+

lemma journal_entry_json: "entry_ok e \<Longrightarrow> journal_entry (canonical (entry_json e)) = Some e"
  by (simp add: journal_entry_def entry_json_get json_path_def parse_path_str entry_ok_def)

lemma journal_roundtrip: "list_all entry_ok plan \<Longrightarrow> parse_journal (journal_bytes plan) = Some plan"
proof -
  assume ok: "list_all entry_ok plan"
  let ?j = "JObj [(''version'', JInt 1), (''entries'', JArr (map entry_json plan))]"
  have "json_ok (entry_json e)" for e by (simp add: entry_json_def)
  moreover have "(1 :: nat) < decimal_bound" unfolding decimal_bound_def by (rule one_less_power) (simp_all add: int_max_str_digits_def)
  ultimately have j: "json_ok ?j" by (simp add: list_all_iff)
  have "json_get ''entries'' (canonical ?j) = Some (JArr (map (canonical \<circ> entry_json) plan))"
    by (subst canonical_get) simp_all
  moreover have "journal_entries (map (canonical \<circ> entry_json) plan) = Some plan" using ok by (induction plan) (simp_all add: journal_entry_json)
  ultimately show ?thesis
    by (simp add: parse_journal_def journal_bytes_def utf8_roundtrip json_roundtrip [OF j] json_iter_def del: canonical.simps)
qed

end
