(* ===== verification/Recovery.thy ===== *)
theory Recovery
  imports File_Txn
begin

text \<open>
  What a crash or a failing disk can leave behind, and that \<open>recover\<close> repairs it: invariants of the phases of
  \<open>publish\<close>, and the result of \<open>recover\<close> from each of them.
\<close>

section \<open>States of the disk\<close>

definition content :: "disk \<Rightarrow> py_path \<Rightarrow> file_bytes option" where
  "content d p = map_option (inodes d) (entries d p)"

text \<open>The paths of \<open>T\<close> share their file with no other path, and no entry is ahead of the counter.\<close>

definition sound :: "py_path set \<Rightarrow> disk \<Rightarrow> bool" where
  "sound T d \<longleftrightarrow> (\<forall>p i. entries d p = Some i \<longrightarrow> i < next_inode d)
     \<and> (\<forall>p \<in> T. \<forall>q i. q \<noteq> p \<longrightarrow> entries d p = Some i \<longrightarrow> entries d q \<noteq> Some i)"

definition same_files :: "py_path set \<Rightarrow> disk \<Rightarrow> disk \<Rightarrow> bool" where
  "same_files T d0 d \<longleftrightarrow> next_inode d0 \<le> next_inode d \<and> (\<forall>p i. p \<notin> T \<longrightarrow> entries d0 p = Some i \<longrightarrow> inodes d i = inodes d0 i)"

lemma same_content: "same_files T d0 d \<Longrightarrow> p \<notin> T \<Longrightarrow> entries d p = entries d0 p \<Longrightarrow> content d p = content d0 p"
  by (cases "entries d0 p") (auto simp: same_files_def content_def)

definition staging :: "py_path set \<Rightarrow> disk \<Rightarrow> disk \<Rightarrow> bool" where
  "staging T d0 d \<longleftrightarrow> sound T d \<and> same_files T d0 d \<and> (\<forall>p. p \<notin> T \<longrightarrow> entries d p = entries d0 p)"

definition honest :: "os \<Rightarrow> bool" where "honest env \<longleftrightarrow> (\<forall>k n. env k \<noteq> Stops n)"

definition reliable :: "os \<Rightarrow> bool" where "reliable env \<longleftrightarrow> (\<forall>k. env k = Proceeds)"

lemma not_reliable: "env k = Fails n \<Longrightarrow> \<not> reliable env"
  by (metis os_answer.distinct(3) reliable_def)

lemma tick_simps [simp]: "entries (tick d) = entries d" "inodes (tick d) = inodes d" "next_inode (tick d) = next_inode d"
  by (simp_all add: tick_def)

lemma staging_tick [simp]: "staging T d0 (tick d) = staging T d0 d"
  by (simp add: staging_def sound_def same_files_def)

lemma content_tick [simp]: "content (tick d) = content d" by (simp add: content_def fun_eq_iff)

section \<open>Staging\<close>

text \<open>The contents of one staged file change, or it is made.\<close>

lemma staging_write:
  assumes "staging T d0 d" and "p \<in> T" and "entries d p = Some i"
  shows "staging T d0 (d\<lparr>inodes := (inodes d)(i := c)\<rparr>)"
    and "q \<noteq> p \<Longrightarrow> content (d\<lparr>inodes := (inodes d)(i := c)\<rparr>) q = content d q"
proof -
  have other: "entries d q \<noteq> Some i" if "q \<noteq> p" for q
    using assms that unfolding staging_def sound_def by blast
  have "k \<noteq> i" if "q \<notin> T" "entries d0 q = Some k" for q k
  proof -
    have "entries d q = Some k" "q \<noteq> p" using assms(1,2) that by (auto simp: staging_def)
    then show ?thesis using other by auto
  qed
  then show "staging T d0 (d\<lparr>inodes := (inodes d)(i := c)\<rparr>)"
    using assms(1) by (auto simp: staging_def sound_def same_files_def)
  show "q \<noteq> p \<Longrightarrow> content (d\<lparr>inodes := (inodes d)(i := c)\<rparr>) q = content d q"
    using other [of q] by (cases "entries d q") (auto simp: content_def)
qed

lemma staging_create:
  fixes c :: file_bytes
  assumes "staging T d0 d" and "p \<in> T" and "entries d p = None"
  defines "d' \<equiv> d\<lparr>entries := (entries d)(p \<mapsto> next_inode d), inodes := (inodes d)(next_inode d := c), next_inode := Suc (next_inode d)\<rparr>"
  shows "staging T d0 d'" and "q \<noteq> p \<Longrightarrow> content d' q = content d q"
proof -
  have used: "i < next_inode d" if "entries d q = Some i" for q i using assms(1) that by (simp add: staging_def sound_def)
  then have "i \<noteq> next_inode d" if "q \<notin> T" "entries d0 q = Some i" for q i
    using assms(1) that by (metis less_irrefl staging_def)
  then have "same_files T d0 d'" using assms(1) by (auto simp: staging_def same_files_def d'_def)
  moreover have "sound T d'"
    using assms(1-3) used unfolding staging_def sound_def d'_def by (auto simp: less_Suc_eq)
  ultimately show "staging T d0 d'" using assms(1,2) by (auto simp: staging_def d'_def)
  show "q \<noteq> p \<Longrightarrow> content d' q = content d q"
    using used [of q] by (cases "entries d q") (auto simp: content_def d'_def)
qed

lemma opened:
  assumes "staging T d0 d" and "p \<in> T" and "sys_open env p d = (r, d')"
  shows "staging T d0 d'" and "\<forall>q. q \<noteq> p \<longrightarrow> content d' q = content d q" and "\<forall>fd. r = Inr fd \<longrightarrow> entries d' p = Some fd"
proof -
  have t: "staging T d0 (tick d)" using assms(1) by simp
  consider "r = Inl OtherOSError" "d' = tick d"
    | i where "entries d p = Some i" "r = Inr i" "d' = (tick d)\<lparr>inodes := (inodes d)(i := [])\<rparr>"
    | "entries d p = None" "r = Inr (next_inode d)" "d' = (tick d)\<lparr>entries := (entries d)(p \<mapsto> next_inode d),
               inodes := (inodes d)(next_inode d := []), next_inode := Suc (next_inode d)\<rparr>"
    using assms(3) by (cases "env (calls d)"; cases "entries d p") (auto simp: sys_open_def)
  then have "staging T d0 d' \<and> (\<forall>q. q \<noteq> p \<longrightarrow> content d' q = content d q) \<and> (\<forall>fd. r = Inr fd \<longrightarrow> entries d' p = Some fd)"
  proof cases
    case 2
    then show ?thesis using staging_write [OF t assms(2), where i = i and c = "[]"] by simp
  next
    case 3
    then show ?thesis using staging_create [OF t assms(2), where c = "[]"] by simp
  qed (use assms(1) in simp)
  then show "staging T d0 d'" "\<forall>q. q \<noteq> p \<longrightarrow> content d' q = content d q" "\<forall>fd. r = Inr fd \<longrightarrow> entries d' p = Some fd" by blast+
qed

lemma written:
  assumes "staging T d0 d" and "p \<in> T" and "entries d p = Some fd" and "honest env" and "sys_write env fd c d = (r, d')"
  shows "staging T d0 d'" and "\<forall>q. q \<noteq> p \<longrightarrow> content d' q = content d q" and "\<forall>n. r = Inr n \<longrightarrow> content d' p = Some c"
    and "entries d' p = Some fd"
proof -
  have t: "staging T d0 (tick d)" "entries (tick d) p = Some fd" using assms(1,3) by simp_all
  obtain b where d': "d' = (tick d)\<lparr>inodes := (inodes (tick d))(fd := b)\<rparr>" and b: "\<forall>n. r = Inr n \<longrightarrow> b = c"
    using assms(4,5) by (cases "env (calls d)") (auto simp: sys_write_def honest_def)
  show "staging T d0 d'" "\<forall>q. q \<noteq> p \<longrightarrow> content d' q = content d q"
    using staging_write [OF t(1) assms(2) t(2), where c = b] unfolding d' by simp_all
  show "\<forall>n. r = Inr n \<longrightarrow> content d' p = Some c" "entries d' p = Some fd" using b assms(3) by (simp_all add: d' content_def)
qed

lemma stage_temp_result:
  assumes "staging T d0 d" and "p \<in> T" and "honest env" and "stage_temp env p c d = (r, d')"
  shows "staging T d0 d' \<and> (\<forall>q. q \<noteq> p \<longrightarrow> content d' q = content d q) \<and> (r = Inr () \<longrightarrow> content d' p = Some c)"
proof -
  obtain r1 d1 where o: "sys_open env p d = (r1, d1)" by (cases "sys_open env p d")
  note o1 = opened [OF assms(1,2) o]
  show ?thesis
  proof (cases r1)
    case (Inl e)
    then show ?thesis using assms(4) o o1 by (simp add: stage_temp_def bind_io_def os_step_def) blast
  next
    case (Inr fd)
    obtain r2 d2 where w: "sys_write env fd c d1 = (r2, d2)" by (cases "sys_write env fd c d1")
    have fd: "entries d1 p = Some fd" using o1(3) Inr by blast
    note w1 = written [OF o1(1) assms(2) fd assms(3) w]
    have "(\<exists>e. r = Inl e \<and> (d' = d2 \<or> d' = tick d2)) \<or> r = Inr () \<and> d' = tick d2 \<and> (\<exists>n. r2 = Inr n)"
      using assms(4) o Inr w
      by (cases r2; cases "env (calls d2)") (auto simp: stage_temp_def bind_io_def os_step_def sys_fsync_def)
    then show ?thesis using w1 o1(2) by auto
  qed
qed

lemma stage_temp_works: "reliable env \<Longrightarrow> fst (stage_temp env p c d) = Inr ()"
  by (simp add: stage_temp_def bind_io_def os_step_def sys_open_def sys_write_def sys_fsync_def reliable_def split: option.splits)

lemma each_io_works: "(\<And>x d. fst (f x d) = Inr ()) \<Longrightarrow> fst (each_io f xs d) = Inr ()"
proof (induction xs arbitrary: d)
  case (Cons x xs)
  then show ?case using Cons.prems [of x d] by (cases "f x d") (auto simp: bind_io_def)
qed (simp add: return_io_def)

lemma stage_all:
  assumes "staging T d0 d" and "honest env" and "(\<lambda>(e, fw). pe_temp e) ` set zs \<subseteq> T" and "distinct (map (\<lambda>(e, fw). pe_temp e) zs)"
    and "each_io (\<lambda>(e, fw). stage_temp env (pe_temp e) (fw_content fw)) zs d = (r, d')"
  shows "staging T d0 d' \<and> (\<forall>q. q \<notin> (\<lambda>(e, fw). pe_temp e) ` set zs \<longrightarrow> content d' q = content d q)
    \<and> (r = Inr () \<longrightarrow> (\<forall>(e, fw) \<in> set zs. content d' (pe_temp e) = Some (fw_content fw)))"
  using assms(1,3-)
proof (induction zs arbitrary: d)
  case Nil
  then show ?case by (simp add: return_io_def)
next
  case (Cons z zs)
  obtain e fw where z: "z = (e, fw)" by (cases z)
  obtain r1 d1 where one: "stage_temp env (pe_temp e) (fw_content fw) d = (r1, d1)" by (cases "stage_temp env (pe_temp e) (fw_content fw) d")
  have s: "staging T d0 d1" "\<forall>q. q \<noteq> pe_temp e \<longrightarrow> content d1 q = content d q" "r1 = Inr () \<longrightarrow> content d1 (pe_temp e) = Some (fw_content fw)"
    using stage_temp_result [OF Cons.prems(1) _ assms(2) one] Cons.prems(2) by (auto simp: z)
  show ?case
  proof (cases r1)
    case (Inl x)
    then have "r = Inl x" "d' = d1" using Cons.prems(4) one by (simp_all add: z bind_io_def)
    then show ?thesis using s by (auto simp: z)
  next
    case (Inr u)
    then have rest: "each_io (\<lambda>(e, fw). stage_temp env (pe_temp e) (fw_content fw)) zs d1 = (r, d')"
      using Cons.prems(4) one by (simp add: z bind_io_def)
    have IH: "staging T d0 d'" "\<forall>q. q \<notin> (\<lambda>(e, fw). pe_temp e) ` set zs \<longrightarrow> content d' q = content d1 q"
      "r = Inr () \<longrightarrow> (\<forall>(e, fw) \<in> set zs. content d' (pe_temp e) = Some (fw_content fw))"
      using Cons.IH [OF s(1) _ _ rest] Cons.prems(2,3) by (auto simp: z)
    have "content d' (pe_temp e) = Some (fw_content fw)" using IH(2) s(3) Inr Cons.prems(3) by (force simp: z)
    then show ?thesis using IH s(2) by (auto simp: z)
  qed
qed

section \<open>Between the journal and the end\<close>

text \<open>From the journal on no file is written: only entries change.\<close>

definition only_entries :: "py_path set \<Rightarrow> disk \<Rightarrow> disk \<Rightarrow> bool" where
  "only_entries S d d' \<longleftrightarrow> inodes d' = inodes d \<and> next_inode d' = next_inode d \<and> (\<forall>p. p \<notin> S \<longrightarrow> entries d' p = entries d p)"

lemma only_entries_simps [simp]: "only_entries S d d" "only_entries S d (tick d)" by (simp_all add: only_entries_def)

lemma only_entries_trans: "only_entries S d d1 \<Longrightarrow> only_entries S d1 d2 \<Longrightarrow> only_entries S d d2"
  by (simp add: only_entries_def)

lemma only_entries_mono: "only_entries S d d' \<Longrightarrow> S \<subseteq> S' \<Longrightarrow> only_entries S' d d'"
  by (auto simp: only_entries_def)

lemma only_entriesD: "only_entries S d d' \<Longrightarrow> p \<notin> S \<Longrightarrow> entries d' p = entries d p \<and> content d' p = content d p"
  by (simp add: only_entries_def content_def)

definition in_flight :: "py_path set \<Rightarrow> py_path set \<Rightarrow> py_path \<Rightarrow> file_bytes \<Rightarrow> disk \<Rightarrow> disk \<Rightarrow> bool" where
  "in_flight T W J jb d0 d \<longleftrightarrow> sound T d \<and> same_files T d0 d \<and> content d J = Some jb \<and> (\<forall>p. p \<notin> W \<longrightarrow> entries d p = entries d0 p)"

lemma in_flight_step: "in_flight T W J jb d0 d \<Longrightarrow> only_entries S d d' \<Longrightarrow> J \<notin> S \<Longrightarrow> S \<subseteq> W \<Longrightarrow> sound T d' \<Longrightarrow> in_flight T W J jb d0 d'"
  by (auto simp: in_flight_def only_entries_def same_files_def content_def)

text \<open>The two states of an entry while the journal stands: its new file is still staged, or in place with the old one as backup.\<close>

definition staged :: "disk \<Rightarrow> disk \<Rightarrow> plan_entry \<Rightarrow> file_bytes \<Rightarrow> bool" where
  "staged d0 d e c \<longleftrightarrow> content d (pe_temp e) = Some c \<and> entries d (pe_target e) = entries d0 (pe_target e)"

definition backed :: "disk \<Rightarrow> disk \<Rightarrow> plan_entry \<Rightarrow> bool" where
  "backed d0 d e \<longleftrightarrow> (pe_had_target e \<longrightarrow> entries d (pe_backup e) = entries d0 (pe_target e))"

definition installed :: "disk \<Rightarrow> plan_entry \<Rightarrow> file_bytes \<Rightarrow> bool" where
  "installed d e c \<longleftrightarrow> entries d (pe_temp e) = None \<and> content d (pe_target e) = Some c"

definition published :: "disk \<Rightarrow> disk \<Rightarrow> plan_entry \<Rightarrow> file_bytes \<Rightarrow> bool" where
  "published d0 d e c \<longleftrightarrow> installed d e c \<and> entries d (pe_target e) \<noteq> entries d0 (pe_target e) \<and> backed d0 d e"

definition own :: "plan_entry \<Rightarrow> py_path set" where "own e = {pe_target e, pe_temp e, pe_backup e}"

lemma status_cong:
  assumes "only_entries S d d'" and "own e \<inter> S = {}"
  shows "staged d0 d' e c = staged d0 d e c" "backed d0 d' e = backed d0 d e" "installed d' e c = installed d e c"
    "published d0 d' e c = published d0 d e c"
  using only_entriesD [OF assms(1), of "pe_target e"] only_entriesD [OF assms(1), of "pe_temp e"] only_entriesD [OF assms(1), of "pe_backup e"] assms(2)
  by (auto simp: own_def staged_def backed_def installed_def published_def)

lemma each_io_progress:
  assumes "\<And>ys x zs d r d'. xs = ys @ x # zs \<Longrightarrow> I ys (x # zs) d \<Longrightarrow> f x d = (r, d') \<Longrightarrow>
      (case r of Inl _ \<Rightarrow> Q d' | Inr _ \<Rightarrow> I (ys @ [x]) zs d')"
    and "I [] xs d" and "each_io f xs d = (r, d')"
  shows "case r of Inl _ \<Rightarrow> Q d' | Inr _ \<Rightarrow> I xs [] d'"
proof -
  have "case r of Inl _ \<Rightarrow> Q d' | Inr _ \<Rightarrow> I xs [] d'" if "xs = ys @ zs" "I ys zs d" "each_io f zs d = (r, d')" for ys zs d
    using that
  proof (induction zs arbitrary: ys d)
    case Nil
    then show ?case by (auto simp: return_io_def)
  next
    case (Cons x zs)
    obtain r1 d1 where one: "f x d = (r1, d1)" by (cases "f x d")
    note step = assms(1) [OF Cons.prems(1,2) one]
    show ?case
    proof (cases r1)
      case (Inl e)
      then show ?thesis using step Cons.prems(3) one by (auto simp: bind_io_def)
    next
      case (Inr u)
      then have "each_io f zs d1 = (r, d')" using Cons.prems(3) one by (simp add: bind_io_def)
      then show ?thesis using Cons.IH [of "ys @ [x]" d1] Cons.prems(1) step Inr by simp
    qed
  qed
  from this [of "[]" xs d] show ?thesis using assms(2,3) by simp
qed

lemma unlink_result:
  assumes "unlink_path env p phase d = (r, d')" and "sound T d"
  shows "only_entries {p} d d' \<and> sound T d' \<and> (r = Inr () \<longrightarrow> entries d' p = None) \<and> (\<forall>e. r = Inl e \<longrightarrow> entries d' = entries d)"
  using assms by (cases "env (calls d)") (auto simp: unlink_path_def sys_unlink_def only_entries_def sound_def exists_path_def split: if_splits)

lemma unlink_works: "unlink_path env p phase d = (r, d') \<Longrightarrow> reliable env \<Longrightarrow> r = Inr ()"
  by (auto simp: unlink_path_def sys_unlink_def reliable_def split: if_splits)

lemma link_result:
  assumes "link_path env src dst phase d = (r, d')" and "sound T d" and "src \<notin> T" and "dst \<notin> T"
  shows "only_entries {dst} d d' \<and> sound T d' \<and> (r = Inr () \<longrightarrow> entries d' dst = entries d src)
    \<and> (reliable env \<longrightarrow> entries d src \<noteq> None \<longrightarrow> entries d dst = None \<longrightarrow> r = Inr ())"
proof -
  have "only_entries {dst} d d' \<and> (entries d' = entries d \<and> r \<noteq> Inr () \<or> (\<exists>i. entries d src = Some i \<and> entries d' = (entries d)(dst \<mapsto> i)))"
    using assms(1)
    by (cases "env (calls d)"; cases "entries d src") (auto simp: link_path_def os_step_def sys_link_def only_entries_def split: if_splits)
  moreover have "next_inode d' = next_inode d" using calculation by (simp add: only_entries_def)
  moreover have "entries d p \<noteq> Some i" if "p \<in> T" "entries d src = Some i" for p i
    using assms(2,3) that unfolding sound_def by metis
  moreover have "reliable env \<longrightarrow> entries d src \<noteq> None \<longrightarrow> entries d dst = None \<longrightarrow> r = Inr ()"
    using assms(1) by (auto simp: link_path_def os_step_def sys_link_def reliable_def exists_path_def)
  ultimately show ?thesis using assms(2,4) unfolding sound_def by (auto split: if_splits)
qed

lemma backup_result:
  assumes "backup_entry env e d = (r, d')" and "sound T d" and "pe_target e \<notin> T" and "pe_backup e \<notin> T" and "pe_target e \<noteq> pe_backup e"
    and "entries d (pe_target e) = entries d0 (pe_target e)"
    and "pe_had_target e \<longleftrightarrow> exists_path d0 (pe_target e)"
  shows "only_entries {pe_backup e} d d' \<and> sound T d' \<and> (case r of Inl _ \<Rightarrow> \<not> reliable env | Inr _ \<Rightarrow> backed d0 d' e)"
proof (cases "pe_had_target e")
  case False
  then show ?thesis using assms(1,2) by (auto simp: backup_entry_def return_io_def backed_def)
next
  case True
  obtain r1 d1 where u: "unlink_path env (pe_backup e) ''backup_link'' d = (r1, d1)" by (cases "unlink_path env (pe_backup e) ''backup_link'' d")
  note u1 = unlink_result [OF u assms(2)]
  show ?thesis
  proof (cases r1)
    case (Inl x)
    then have "\<not> reliable env" using unlink_works u by (metis Inl_Inr_False)
    then show ?thesis using assms(1) u u1 True Inl by (auto simp: backup_entry_def bind_io_def)
  next
    case (Inr v)
    then have l: "link_path env (pe_target e) (pe_backup e) ''backup_link'' d1 = (r, d')" using assms(1) u True by (simp add: backup_entry_def bind_io_def)
    have "sound T d1" using u1 by blast
    note l1 = link_result [OF l this assms(3,4)]
    have "entries d1 (pe_target e) = entries d (pe_target e)" using u1 assms(5) by (simp add: only_entries_def)
    then have "entries d1 (pe_target e) \<noteq> None \<and> entries d1 (pe_backup e) = None"
      using u1 Inr assms(6,7) True by (simp add: exists_path_def)
    then show ?thesis
      using l1 u1 \<open>entries d1 (pe_target e) = entries d (pe_target e)\<close> only_entries_trans [of "{pe_backup e}" d d1 d'] assms(6)
      by (cases r) (auto simp: backed_def)
  qed
qed

lemma publish_result:
  assumes "rename_path env (pe_temp e) (pe_target e) phase d = (r, d')" and "sound T d" and "pe_temp e \<in> T" and "pe_target e \<notin> T"
    and "pe_backup e \<notin> {pe_temp e, pe_target e}" and "staged d0 d e c" and "backed d0 d e"
  shows "case r of Inl _ \<Rightarrow> d' = tick d \<and> \<not> reliable env | Inr _ \<Rightarrow> only_entries {pe_temp e, pe_target e} d d' \<and> sound T d' \<and> published d0 d' e c"
proof -
  obtain i where i: "entries d (pe_temp e) = Some i" "inodes d i = c" using assms(6) by (auto simp: staged_def content_def)
  have ne: "pe_target e \<noteq> pe_temp e" using assms(3,4) by auto
  have old: "entries d (pe_target e) \<noteq> Some i" using assms(2,3) i(1) ne unfolding sound_def by blast
  consider k where "env (calls d) = Fails k" | "\<forall>k. env (calls d) \<noteq> Fails k" by blast
  then show ?thesis
  proof cases
    case 1
    then have "\<not> reliable env" by (rule not_reliable)
    then show ?thesis using 1 assms(1) by (auto simp: rename_path_def os_step_def sys_rename_def)
  next
    case 2
    then have "r = Inr () \<and> d' = (tick d)\<lparr>entries := (entries d)(pe_target e \<mapsto> i, pe_temp e := None)\<rparr>"
      using assms(1) i(1) old by (cases "env (calls d)") (auto simp: rename_path_def os_step_def sys_rename_def)
    moreover have "sound T ((tick d)\<lparr>entries := (entries d)(pe_target e \<mapsto> i, pe_temp e := None)\<rparr>)"
      using assms(2-4) i(1) ne unfolding sound_def by (auto split: if_splits)
    ultimately show ?thesis
      using assms(5-7) i old ne by (auto simp: only_entries_def published_def installed_def backed_def staged_def content_def)
  qed
qed

section \<open>What publishing leaves\<close>

definition temps :: "plan_entry list \<Rightarrow> py_path \<Rightarrow> py_path set" where "temps pl jt = insert jt (pe_temp ` set pl)"

definition touched :: "plan_entry list \<Rightarrow> py_path \<Rightarrow> py_path \<Rightarrow> py_path set" where
  "touched pl j jt = temps pl jt \<union> pe_target ` set pl \<union> pe_backup ` set pl \<union> {j}"

definition apart :: "plan_entry list \<Rightarrow> py_path \<Rightarrow> py_path \<Rightarrow> bool" where
  "apart pl j jt \<longleftrightarrow> j \<noteq> jt \<and> distinct pl \<and> (\<forall>e \<in> set pl. distinct [pe_target e, pe_temp e, pe_backup e] \<and> j \<notin> own e \<and> jt \<notin> own e)
     \<and> (\<forall>e \<in> set pl. \<forall>f \<in> set pl. f \<noteq> e \<longrightarrow> own f \<inter> own e = {})"

lemma apart_own: "apart pl j jt \<Longrightarrow> e \<in> set pl \<Longrightarrow> f \<in> set pl \<Longrightarrow> f \<noteq> e \<Longrightarrow> own f \<inter> own e = {}"
  by (simp add: apart_def)

lemma apartD:
  assumes "apart pl j jt" and "e \<in> set pl"
  shows "pe_target e \<notin> temps pl jt" "pe_backup e \<notin> temps pl jt" "pe_temp e \<in> temps pl jt" "j \<notin> temps pl jt" "j \<notin> own e" "jt \<notin> own e"
    "pe_target e \<noteq> pe_backup e" "pe_backup e \<notin> {pe_temp e, pe_target e}" "own e \<subseteq> touched pl j jt" "pe_temp e \<notin> {pe_target e, pe_backup e}"
proof -
  have d: "distinct [pe_target e, pe_temp e, pe_backup e]" "j \<notin> own e" "jt \<notin> own e" and jj: "j \<noteq> jt" using assms by (simp_all add: apart_def)
  have temp: "pe_temp f \<notin> {pe_target e, pe_backup e} \<and> pe_temp f \<noteq> j" if f: "f \<in> set pl" for f
  proof (cases "f = e")
    case True
    then show ?thesis using d by (auto simp: own_def)
  next
    case False
    then have "own f \<inter> own e = {}" by (rule apart_own [OF assms f])
    moreover have "j \<notin> own f" using assms(1) f by (simp add: apart_def)
    ultimately show ?thesis by (auto simp: own_def)
  qed
  show "pe_target e \<notin> temps pl jt" "pe_backup e \<notin> temps pl jt" "j \<notin> temps pl jt"
    using d jj by (auto simp: temps_def own_def dest: temp)
  show "pe_temp e \<in> temps pl jt" "own e \<subseteq> touched pl j jt" using assms(2) by (auto simp: temps_def own_def touched_def)
  show "pe_target e \<noteq> pe_backup e" "pe_backup e \<notin> {pe_temp e, pe_target e}" "pe_temp e \<notin> {pe_target e, pe_backup e}" using d by auto
  show "j \<notin> own e" "jt \<notin> own e" using d by blast+
qed

lemma apart_later:
  assumes "apart (ys @ e # zs) j jt" and "f \<in> set ys \<union> set zs"
  shows "own f \<inter> own e = {}"
  by (rule apart_own [OF assms(1)]) (use assms in \<open>auto simp: apart_def\<close>)

lemma apart_distinct:
  assumes "apart pl j jt" and "\<And>e. f e \<in> own e"
  shows "distinct (map f pl)"
proof -
  have "inj_on f (set pl)"
  proof (rule inj_onI, rule ccontr)
    fix d e assume "d \<in> set pl" "e \<in> set pl" "f d = f e" "d \<noteq> e"
    then have "own d \<inter> own e = {}" using apart_own [OF assms(1)] by blast
    with \<open>f d = f e\<close> show False using assms(2) [of d] assms(2) [of e] by auto
  qed
  then show ?thesis using assms(1) by (simp add: apart_def distinct_map)
qed

lemma apart_temps: "apart pl j jt \<Longrightarrow> distinct (map pe_temp pl)"
  by (rule apart_distinct) (simp_all add: own_def)

lemma apart_targets: "apart pl j jt \<Longrightarrow> distinct (map pe_target pl)"
  by (rule apart_distinct) (simp_all add: own_def)

lemma write_journal_result:
  assumes "staging T d0 d" and "temp_path j = Some jt" and "jt \<in> T" and "j \<notin> T" and "entries d0 j = None" and "honest env"
    and "write_journal env j pl d = (r, d')"
  shows "case r of Inl _ \<Rightarrow> staging T d0 d' \<and> \<not> reliable env
    | Inr _ \<Rightarrow> sound T d' \<and> same_files T d0 d' \<and> content d' j = Some (journal_bytes pl)
        \<and> (\<forall>q. q \<notin> {j, jt} \<longrightarrow> content d' q = content d q) \<and> (\<forall>q. q \<notin> insert j T \<longrightarrow> entries d' q = entries d0 q)"
proof -
  obtain r1 d1 where s: "stage_temp env jt (journal_bytes pl) d = (r1, d1)" by (cases "stage_temp env jt (journal_bytes pl) d")
  note s1 = stage_temp_result [OF assms(1,3,6) s]
  show ?thesis
  proof (cases r1)
    case (Inl e)
    then have "\<not> reliable env" using stage_temp_works [of env jt "journal_bytes pl" d] s by auto
    then show ?thesis using assms(2,7) s s1 Inl by (auto simp: write_journal_def bind_io_def)
  next
    case (Inr u)
    then obtain i where i: "entries d1 jt = Some i" "inodes d1 i = journal_bytes pl" using s1 by (auto simp: content_def)
    have j: "entries d1 j = None" using s1 assms(4,5) by (simp add: staging_def)
    have run: "rename_path env jt j ''write_journal'' d1 = (r, d')" using assms(2,7) s Inr by (simp add: write_journal_def bind_io_def)
    have "(\<exists>e. r = Inl e \<and> d' = tick d1 \<and> \<not> reliable env) \<or> (r = Inr () \<and> d' = (tick d1)\<lparr>entries := (entries d1)(j \<mapsto> i, jt := None)\<rparr>)"
      using run i(1) j by (cases "env (calls d1)") (auto simp: rename_path_def os_step_def sys_rename_def dest: not_reliable)
    then show ?thesis
    proof (elim disjE exE conjE)
      fix e assume "r = Inl e" "d' = tick d1" "\<not> reliable env"
      then show ?thesis using s1 by simp
    next
      assume r: "r = Inr ()" and d': "d' = (tick d1)\<lparr>entries := (entries d1)(j \<mapsto> i, jt := None)\<rparr>"
      have ne: "j \<noteq> jt" using assms(3,4) by auto
      have "sound T d'" using s1 assms(3,4) i(1) unfolding d' staging_def sound_def by (auto split: if_splits)
      moreover have "same_files T d0 d'" using s1 by (simp add: d' staging_def same_files_def)
      moreover have "content d' q = content d q" if "q \<notin> {j, jt}" for q
        using s1 that by (simp add: d' content_def)
      moreover have "entries d' q = entries d0 q" if "q \<notin> insert j T" for q
        using s1 that assms(3) by (auto simp: d' staging_def)
      moreover have "content d' j = Some (journal_bytes pl)" using i ne by (simp add: d' content_def)
      ultimately show ?thesis by (simp add: r)
    qed
  qed
qed

definition new_content :: "file_write list \<Rightarrow> py_path \<Rightarrow> file_bytes" where
  "new_content files p = the (map_of (map (\<lambda>fw. (fw_target fw, fw_content fw)) files) p)"

lemma new_content: "distinct (map fw_target files) \<Longrightarrow> fw \<in> set files \<Longrightarrow> new_content files (fw_target fw) = fw_content fw"
proof -
  assume "distinct (map fw_target files)" "fw \<in> set files"
  then have "distinct (map fst (map (\<lambda>fw. (fw_target fw, fw_content fw)) files))" by (simp add: comp_def)
  then have "map_of (map (\<lambda>fw. (fw_target fw, fw_content fw)) files) (fw_target fw) = Some (fw_content fw)"
    by (rule map_of_is_SomeI) (use \<open>fw \<in> set files\<close> in auto)
  then show ?thesis by (simp add: new_content_def)
qed

text \<open>A disk on which every file of the transaction is the new one and nothing else of it remains.\<close>

definition finished :: "disk \<Rightarrow> plan_entry list \<Rightarrow> py_path \<Rightarrow> py_path \<Rightarrow> (py_path \<Rightarrow> file_bytes) \<Rightarrow> disk \<Rightarrow> bool" where
  "finished d0 pl j jt new d \<longleftrightarrow> entries d j = None \<and> same_files (temps pl jt) d0 d \<and> (\<forall>p. p \<notin> touched pl j jt \<longrightarrow> entries d p = entries d0 p)
     \<and> (\<forall>e \<in> set pl. installed d e (new (pe_target e)) \<and> (pe_had_target e \<longrightarrow> entries d (pe_backup e) = None))"

lemma finalize_result:
  assumes "in_flight (temps pl jt) (touched pl j jt) j jb d0 d" and "apart pl j jt" and "\<forall>e \<in> set pl. installed d e (new (pe_target e))"
    and "finalize env pl j d = (r, d')"
  shows "case r of
      Inl _ \<Rightarrow> in_flight (temps pl jt) (touched pl j jt) j jb d0 d' \<and> (\<forall>e \<in> set pl. installed d' e (new (pe_target e))) \<and> \<not> reliable env
    | Inr _ \<Rightarrow> finished d0 pl j jt new d'"
proof -
  let ?F = "in_flight (temps pl jt) (touched pl j jt) j jb d0"
  let ?drop = "\<lambda>e. if pe_had_target e then unlink_path env (pe_backup e) ''finalize_backup'' else return_io ()"
  let ?I = "\<lambda>ys (zs :: plan_entry list) d. ?F d \<and> (\<forall>e \<in> set pl. installed d e (new (pe_target e))) \<and> (\<forall>e \<in> set ys. pe_had_target e \<longrightarrow> entries d (pe_backup e) = None)"
  obtain r1 d1 where loop: "each_io ?drop pl d = (r1, d1)" by (cases "each_io ?drop pl d")
  have "case r1 of Inl _ \<Rightarrow> ?F d1 \<and> (\<forall>e \<in> set pl. installed d1 e (new (pe_target e))) \<and> \<not> reliable env | Inr _ \<Rightarrow> ?I pl [] d1"
  proof (rule each_io_progress [OF _ _ loop, where I = ?I and Q = "\<lambda>d. ?F d \<and> (\<forall>e \<in> set pl. installed d e (new (pe_target e))) \<and> \<not> reliable env"])
    fix ys e zs d r d'
    assume pl: "pl = ys @ e # zs" and I: "?I ys (e # zs) d" and run: "?drop e d = (r, d')"
    note a = apartD [OF assms(2), of e]
    have e: "e \<in> set pl" by (simp add: pl)
    have snd: "sound (temps pl jt) d" using I by (simp add: in_flight_def)
    have step: "only_entries {pe_backup e} d d' \<and> sound (temps pl jt) d' \<and> (r = Inr () \<and> pe_had_target e \<longrightarrow> entries d' (pe_backup e) = None)"
    proof (cases "pe_had_target e")
      case True
      then show ?thesis using unlink_result [of env "pe_backup e" "''finalize_backup''" d r d'] run snd by simp
    next
      case False
      then show ?thesis using run snd by (simp add: return_io_def)
    qed
    have F: "?F d'" by (rule in_flight_step [of _ _ _ _ _ d "{pe_backup e}"]) (use I step a e in \<open>auto simp: own_def\<close>)
    have inst: "installed d' f (new (pe_target f))" if f: "f \<in> set pl" for f
    proof (cases "f = e")
      case True
      then show ?thesis using I step a e f by (auto simp: installed_def only_entries_def content_def)
    next
      case False
      have "own f \<inter> {pe_backup e} = {}" using apart_own [OF assms(2) e f False] by (auto simp: own_def)
      then show ?thesis using status_cong(3) step I f by blast
    qed
    have gone: "entries d' (pe_backup f) = None" if "f \<in> set ys" "pe_had_target f" for f
    proof -
      have "own f \<inter> own e = {}" using apart_later [of ys e zs j jt f] assms(2) that(1) by (simp add: pl)
      then have "pe_backup f \<noteq> pe_backup e" by (auto simp: own_def)
      then show ?thesis using step I that by (simp add: only_entries_def)
    qed
    have bad: "\<not> reliable env" if "r = Inl x" for x using unlink_works [of env "pe_backup e" "''finalize_backup''" d r d'] run that by (auto simp: return_io_def split: if_splits)
    show "case r of Inl _ \<Rightarrow> ?F d' \<and> (\<forall>e \<in> set pl. installed d' e (new (pe_target e))) \<and> \<not> reliable env | Inr _ \<Rightarrow> ?I (ys @ [e]) zs d'"
      using F inst gone step bad by (cases r) auto
  qed (use assms(1,3) in simp)
  note mid = this
  show ?thesis
  proof (cases r1)
    case (Inl x)
    then show ?thesis using mid assms(4) loop by (auto simp: finalize_def bind_io_def)
  next
    case (Inr u)
    then have run: "unlink_path env j ''finalize_journal'' d1 = (r, d')" using assms(4) loop by (simp add: finalize_def bind_io_def)
    have I: "?I pl [] d1" using mid Inr by simp
    then have "sound (temps pl jt) d1" by (simp add: in_flight_def)
    note u = unlink_result [OF run this]
    have inst: "installed d' e (new (pe_target e))" "pe_had_target e \<longrightarrow> entries d' (pe_backup e) = None" if e: "e \<in> set pl" for e
    proof -
      have "own e \<inter> {j} = {}" using apartD(5) [OF assms(2) e] by simp
      then show "installed d' e (new (pe_target e))" "pe_had_target e \<longrightarrow> entries d' (pe_backup e) = None"
        using status_cong(3) [of "{j}" d1 d' e] u I e by (auto simp: own_def only_entries_def)
    qed
    show ?thesis
    proof (cases r)
      case (Inl x)
      have "in_flight (temps pl jt) (touched pl j jt) j jb d0 d'"
        using I u Inl by (auto simp: in_flight_def only_entries_def same_files_def content_def)
      then show ?thesis using inst Inl unlink_works [OF run] by auto
    next
      case (Inr v)
      have "same_files (temps pl jt) d0 d'" using I u by (auto simp: in_flight_def only_entries_def same_files_def)
      moreover have "\<forall>p. p \<notin> touched pl j jt \<longrightarrow> entries d' p = entries d0 p"
        using I u by (auto simp: in_flight_def only_entries_def touched_def)
      ultimately show ?thesis using inst u Inr by (simp add: finished_def)
    qed
  qed
qed

lemma backups_result:
  assumes "in_flight (temps pl jt) (touched pl j jt) j jb d0 d" and "apart pl j jt" and "\<forall>e \<in> set pl. staged d0 d e (new (pe_target e))"
    and "each_io (backup_entry env) pl d = (r, d')" and "\<forall>e \<in> set pl. pe_had_target e \<longleftrightarrow> exists_path d0 (pe_target e)"
  shows "in_flight (temps pl jt) (touched pl j jt) j jb d0 d' \<and> (\<forall>e \<in> set pl. staged d0 d' e (new (pe_target e)))
    \<and> (case r of Inl _ \<Rightarrow> \<not> reliable env | Inr _ \<Rightarrow> \<forall>e \<in> set pl. backed d0 d' e)"
proof -
  let ?P = "\<lambda>d. in_flight (temps pl jt) (touched pl j jt) j jb d0 d \<and> (\<forall>e \<in> set pl. staged d0 d e (new (pe_target e)))"
  have "case r of Inl _ \<Rightarrow> ?P d' \<and> \<not> reliable env | Inr _ \<Rightarrow> ?P d' \<and> (\<forall>e \<in> set pl. backed d0 d' e)"
  proof (rule each_io_progress [OF _ _ assms(4), where Q = "\<lambda>d. ?P d \<and> \<not> reliable env" and I = "\<lambda>ys zs d. ?P d \<and> (\<forall>e \<in> set ys. backed d0 d e)"])
    fix ys e zs d r d'
    assume pl: "pl = ys @ e # zs" and I: "?P d \<and> (\<forall>e \<in> set ys. backed d0 d e)" and run: "backup_entry env e d = (r, d')"
    have e: "e \<in> set pl" by (simp add: pl)
    note a = apartD [OF assms(2) e]
    have old: "entries d (pe_target e) = entries d0 (pe_target e)" using I e by (auto simp: staged_def)
    have step: "only_entries {pe_backup e} d d'" "sound (temps pl jt) d'" "case r of Inl _ \<Rightarrow> \<not> reliable env | Inr _ \<Rightarrow> backed d0 d' e"
      using backup_result [OF run _ a(1,2,7) old] I assms(5) e by (auto simp: in_flight_def)
    have F: "in_flight (temps pl jt) (touched pl j jt) j jb d0 d'"
      by (rule in_flight_step [OF conjunct1 [OF conjunct1 [OF I]] step(1) _ _ step(2)]) (use a(5,9) in \<open>auto simp: own_def\<close>)
    have "staged d0 d' f (new (pe_target f))" if f: "f \<in> set pl" for f
    proof (cases "f = e")
      case True
      then show ?thesis using I f step(1) a(7,8) by (auto simp: staged_def only_entries_def content_def)
    next
      case False
      have "own f \<inter> {pe_backup e} = {}" using apart_own [OF assms(2) e f False] by (auto simp: own_def)
      then show ?thesis using status_cong(1) [OF step(1)] I f by blast
    qed
    moreover have "backed d0 d' f" if "f \<in> set ys" for f
    proof -
      have "own f \<inter> {pe_backup e} = {}" using apart_later [of ys e zs j jt f] assms(2) that by (auto simp: pl own_def)
      then show ?thesis using status_cong(2) [OF step(1)] I that by blast
    qed
    ultimately show "case r of Inl _ \<Rightarrow> ?P d' \<and> \<not> reliable env | Inr _ \<Rightarrow> ?P d' \<and> (\<forall>f \<in> set (ys @ [e]). backed d0 d' f)"
      using F step(3) by (cases r) auto
  qed (use assms(1,3) in simp)
  then show ?thesis by (cases r) auto
qed

definition mixed :: "disk \<Rightarrow> plan_entry list \<Rightarrow> (py_path \<Rightarrow> file_bytes) \<Rightarrow> disk \<Rightarrow> bool" where
  "mixed d0 pl new d \<longleftrightarrow> (\<forall>e \<in> set pl. staged d0 d e (new (pe_target e)) \<or> published d0 d e (new (pe_target e)))"

lemma renames_result:
  assumes "in_flight (temps pl jt) (touched pl j jt) j jb d0 d" and "apart pl j jt"
    and "\<forall>e \<in> set pl. staged d0 d e (new (pe_target e)) \<and> backed d0 d e"
    and "each_io (\<lambda>e. rename_path env (pe_temp e) (pe_target e) ''publish_rename'') pl d = (r, d')"
  shows "in_flight (temps pl jt) (touched pl j jt) j jb d0 d' \<and> mixed d0 pl new d'
    \<and> (case r of Inl _ \<Rightarrow> \<not> reliable env | Inr _ \<Rightarrow> \<forall>e \<in> set pl. installed d' e (new (pe_target e)))"
proof -
  let ?F = "in_flight (temps pl jt) (touched pl j jt) j jb d0"
  let ?I = "\<lambda>ys zs d. ?F d \<and> (\<forall>e \<in> set ys. published d0 d e (new (pe_target e)))
    \<and> (\<forall>e \<in> set zs. staged d0 d e (new (pe_target e)) \<and> backed d0 d e)"
  have "case r of Inl _ \<Rightarrow> ?F d' \<and> mixed d0 pl new d' \<and> \<not> reliable env | Inr _ \<Rightarrow> ?I pl [] d'"
  proof (rule each_io_progress [OF _ _ assms(4), where Q = "\<lambda>d. ?F d \<and> mixed d0 pl new d \<and> \<not> reliable env" and I = ?I])
    fix ys e zs d r d'
    assume pl: "pl = ys @ e # zs" and I: "?I ys (e # zs) d" and run: "rename_path env (pe_temp e) (pe_target e) ''publish_rename'' d = (r, d')"
    have e: "e \<in> set pl" by (simp add: pl)
    note a = apartD [OF assms(2) e]
    have step: "case r of Inl _ \<Rightarrow> d' = tick d \<and> \<not> reliable env | Inr _ \<Rightarrow> only_entries {pe_temp e, pe_target e} d d' \<and> sound (temps pl jt) d'
        \<and> published d0 d' e (new (pe_target e))"
      by (rule publish_result [OF run _ a(3,1,8)]) (use I in \<open>auto simp: in_flight_def\<close>)
    show "case r of Inl _ \<Rightarrow> ?F d' \<and> mixed d0 pl new d' \<and> \<not> reliable env | Inr _ \<Rightarrow> ?I (ys @ [e]) zs d'"
    proof (cases r)
      case (Inl x)
      then have d': "d' = tick d" and bad: "\<not> reliable env" using step by simp_all
      have "?F d'" using I by (simp add: d' in_flight_def sound_def same_files_def)
      moreover have "mixed d0 pl new d" using I by (auto simp: mixed_def pl)
      then have "mixed d0 pl new d'" by (simp add: d' mixed_def staged_def published_def installed_def backed_def)
      ultimately show ?thesis using Inl bad by simp
    next
      case (Inr u)
      have only: "only_entries {pe_temp e, pe_target e} d d'" "sound (temps pl jt) d'" "published d0 d' e (new (pe_target e))" using step Inr by simp_all
      have F: "?F d'" by (rule in_flight_step [OF conjunct1 [OF I] only(1) _ _ only(2)]) (use a(5,9) in \<open>auto simp: own_def\<close>)
      have "own f \<inter> {pe_temp e, pe_target e} = {}" if "f \<in> set ys \<union> set zs" for f
        using apart_later [of ys e zs j jt f] assms(2) that by (auto simp: pl own_def)
      then have "published d0 d' f (new (pe_target f))" if "f \<in> set ys" for f
        using status_cong(4) [OF only(1)] I that by blast
      moreover have "staged d0 d' f (new (pe_target f)) \<and> backed d0 d' f" if "f \<in> set zs" for f
        using status_cong(1,2) [OF only(1)] I that \<open>\<And>f. f \<in> set ys \<union> set zs \<Longrightarrow> own f \<inter> {pe_temp e, pe_target e} = {}\<close> by simp
      ultimately show ?thesis using F only(3) Inr by auto
    qed
  qed (use assms(1,3) in simp)
  then show ?thesis by (cases r) (auto simp: mixed_def published_def)
qed

lemma map_temps: "map (\<lambda>(e, fw). pe_temp e) zs = map pe_temp (map fst zs)"
  by (induction zs) auto

lemma publish_outcome:
  assumes "build_plan files d0 = Some pl" and "files \<noteq> []" and "temp_path j = Some jt" and "apart pl j jt" and "sound (temps pl jt) d0"
    and "entries d0 j = None" and "honest env" and "publish env files j d0 = (r, d)"
  defines "new \<equiv> new_content files"
  shows "case r of
      Inl _ \<Rightarrow> \<not> reliable env \<and> (staging (temps pl jt) d0 d
        \<or> in_flight (temps pl jt) (touched pl j jt) j (journal_bytes pl) d0 d \<and> (mixed d0 pl new d \<or> (\<forall>e \<in> set pl. installed d e (new (pe_target e)))))
    | Inr _ \<Rightarrow> finished d0 pl j jt new d"
proof -
  let ?T = "temps pl jt" let ?F = "in_flight ?T (touched pl j jt) j (journal_bytes pl) d0"
  have targets: "map pe_target pl = map fw_target files" using build_plan_entries [OF assms(1)] by blast
  then have len: "length pl = length files" by (rule map_eq_imp_length_eq)
  have dist: "distinct (map pe_target pl)" by (rule apart_targets [OF assms(4)])
  have jT: "j \<notin> ?T" "jt \<in> ?T"
    using apartD(4) [OF assms(4)] assms(4) by (cases pl; auto simp: temps_def apart_def)+
  let ?zs = "zip pl files"
  have firsts: "map fst ?zs = pl" using len by (simp add: map_fst_zip)
  have temps_zip: "map (\<lambda>(e, fw). pe_temp e) ?zs = map pe_temp pl" unfolding map_temps by (simp only: firsts)
  have entries_zip: "fst ` set ?zs = set pl" unfolding set_map [symmetric] by (simp only: firsts)
  have value_of: "fw_content fw = new (pe_target e)" if mem: "(e, fw) \<in> set ?zs" for e fw
  proof -
    obtain n where n: "n < length pl" "pl ! n = e" "files ! n = fw" using mem len by (auto simp: set_zip)
    then have "fw_target fw = pe_target e" using targets len by (metis nth_map)
    moreover have "fw \<in> set files" using n len by (metis nth_mem)
    ultimately show ?thesis using new_content [of files fw] dist targets by (simp add: new_def)
  qed
  have start: "staging ?T d0 d0" using assms(5) by (simp add: staging_def same_files_def)
  let ?stage = "\<lambda>(e, fw). stage_temp env (pe_temp e) (fw_content fw)"
  obtain r1 d1 where one: "each_io ?stage ?zs d0 = (r1, d1)" by (cases "each_io ?stage ?zs d0")
  have sub: "(\<lambda>(e, fw). pe_temp e) ` set ?zs \<subseteq> ?T" unfolding temps_def entries_zip [symmetric] image_image case_prod_unfold by blast
  have s1: "staging ?T d0 d1" "r1 = Inr () \<longrightarrow> (\<forall>(e, fw) \<in> set ?zs. content d1 (pe_temp e) = Some (fw_content fw))"
    using stage_all [OF start assms(7) sub _ one] temps_zip apart_temps [OF assms(4)] by auto
  have "\<not> \<not> distinct (map pe_target pl)" using dist by blast
  note run = assms(8) [unfolded publish_def if_not_P [OF assms(2)] assms(1) option.case if_not_P [OF this]]
  have had: "\<forall>e \<in> set pl. pe_had_target e \<longleftrightarrow> exists_path d0 (pe_target e)" using build_plan_entries [OF assms(1)] by blast
  show ?thesis
  proof (cases r1)
    case (Inl e)
    have "\<not> reliable env"
      using each_io_works [of ?stage ?zs d0] stage_temp_works [of env] one Inl by (auto simp: case_prod_unfold)
    with Inl show ?thesis using run one s1 by (auto simp: bind_io_def)
  next
    case (Inr u)
    obtain r2 d2 where two: "write_journal env j pl d1 = (r2, d2)" by (cases "write_journal env j pl d1")
    note s2 = write_journal_result [OF s1(1) assms(3) jT(2,1) assms(6,7) two]
    show ?thesis
    proof (cases r2)
      case (Inl e)
      then show ?thesis using run one two s2 \<open>r1 = Inr u\<close> by (auto simp: bind_io_def)
    next
      case r2: (Inr u2)
      have F: "?F d2" using s2 r2 unfolding in_flight_def touched_def by auto
      have st: "staged d0 d2 e (new (pe_target e))" if e: "e \<in> set pl" for e
      proof -
        note a = apartD [OF assms(4) e]
        obtain fw where fw: "(e, fw) \<in> set ?zs" using e entries_zip [symmetric] by auto
        have "content d2 (pe_temp e) = content d1 (pe_temp e)" using s2 r2 a(5,6) by (auto simp: own_def)
        then have "content d2 (pe_temp e) = Some (new (pe_target e))" using s1(2) Inr fw value_of [OF fw] by auto
        moreover have "entries d2 (pe_target e) = entries d0 (pe_target e)" using s2 r2 a(1,5) by (auto simp: own_def)
        ultimately show ?thesis by (simp add: staged_def)
      qed
      obtain r3 d3 where three: "each_io (backup_entry env) pl d2 = (r3, d3)" by (cases "each_io (backup_entry env) pl d2")
      have s3: "?F d3" "\<forall>e \<in> set pl. staged d0 d3 e (new (pe_target e))" "case r3 of Inl _ \<Rightarrow> \<not> reliable env | Inr _ \<Rightarrow> \<forall>e \<in> set pl. backed d0 d3 e"
        using backups_result [OF F assms(4) _ three had] st by blast+
      show ?thesis
      proof (cases r3)
        case (Inl e)
        have "mixed d0 pl new d3" using s3(2) by (simp add: mixed_def)
        then show ?thesis using run one two three s3(1,3) r2 Inl \<open>r1 = Inr u\<close> by (auto simp: bind_io_def)
      next
        case r3: (Inr u3)
        let ?rename = "\<lambda>e. rename_path env (pe_temp e) (pe_target e) ''publish_rename''"
        obtain r4 d4 where four: "each_io ?rename pl d3 = (r4, d4)" by (cases "each_io ?rename pl d3")
        have s4: "?F d4" "mixed d0 pl new d4" "case r4 of Inl _ \<Rightarrow> \<not> reliable env | Inr _ \<Rightarrow> \<forall>e \<in> set pl. installed d4 e (new (pe_target e))"
          using renames_result [OF s3(1) assms(4) _ four] s3(2,3) r3 by auto
        show ?thesis
        proof (cases r4)
          case (Inl e)
          then show ?thesis using run one two three four s4 r2 r3 \<open>r1 = Inr u\<close> by (auto simp: bind_io_def)
        next
          case r4: (Inr u4)
          then have "finalize env pl j d4 = (r, d)" using run one two three four r2 r3 \<open>r1 = Inr u\<close> by (simp add: bind_io_def)
          then show ?thesis using finalize_result [OF s4(1) assms(4)] s4(3) r4 by (cases r) fastforce+
        qed
      qed
    qed
  qed
qed

end
