(* ===== verification/Rollback.thy ===== *)
theory Rollback
  imports Recovery
begin

text \<open>
  What \<open>recover\<close> does with each disk that \<open>publish\<close> can leave, when the disk works again; and what a crash in the
  middle of a rollback does.
\<close>

section \<open>A disk that works\<close>

lemma reliable_calls:
  assumes "reliable env"
  shows "sys_read env p d = (case entries d p of None \<Rightarrow> (Inl FileNotFound, tick d) | Some i \<Rightarrow> (Inr (inodes d i), tick d))"
    and "unlink_path env p phase d = (Inr (), (tick d)\<lparr>entries := (entries d)(p := None)\<rparr>)"
    and "entries d src = Some i \<Longrightarrow> entries d dst \<noteq> Some i \<Longrightarrow>
      rename_path env src dst phase d = (Inr (), (tick d)\<lparr>entries := (entries d)(dst \<mapsto> i, src := None)\<rparr>)"
  using assms
  by (auto simp: reliable_def sys_read_def unlink_path_def sys_unlink_def exists_path_def rename_path_def os_step_def
      sys_rename_def tick_def fun_upd_idem)

section \<open>Rolling back\<close>

text \<open>An entry is undone: the target is the file it was, and neither the staged file nor a backup is left.\<close>

definition undone :: "disk \<Rightarrow> disk \<Rightarrow> plan_entry \<Rightarrow> bool" where
  "undone d0 d e \<longleftrightarrow> entries d (pe_target e) = entries d0 (pe_target e) \<and> entries d (pe_temp e) = None
     \<and> (pe_had_target e \<longrightarrow> entries d (pe_backup e) = None)"

lemma undone_cong: "only_entries S d d' \<Longrightarrow> own e \<inter> S = {} \<Longrightarrow> undone d0 d' e = undone d0 d e"
  by (auto simp: only_entries_def undone_def own_def)

lemma undo_entry:
  assumes "reliable env" and "staged d0 d e c \<or> published d0 d e c" and "pe_had_target e \<longleftrightarrow> exists_path d0 (pe_target e)"
    and "distinct [pe_target e, pe_temp e, pe_backup e]"
  shows "\<exists>d1 os d2. rollback_target env e d = (Inr (), d1) \<and> rollback_temp env e d1 = (Inr os, d2)
    \<and> only_entries (own e) d d2 \<and> undone d0 d2 e"
  using assms(2)
proof
  assume s: "staged d0 d e c"
  then have temp: "exists_path d (pe_temp e)" and same: "exists_path d (pe_target e) \<longleftrightarrow> pe_had_target e"
    using assms(3) by (auto simp: staged_def content_def exists_path_def)
  let ?d1 = "if pe_had_target e then (tick d)\<lparr>entries := (entries d)(pe_backup e := None)\<rparr> else d"
  have one: "rollback_target env e d = (Inr (), ?d1)"
    using temp same by (simp add: rollback_target_def reliable_calls(2) [OF assms(1)])
  have "exists_path ?d1 (pe_temp e)" using temp assms(4) by (simp add: exists_path_def)
  then have two: "rollback_temp env e ?d1 = (Inr [pe_temp e], (tick ?d1)\<lparr>entries := (entries ?d1)(pe_temp e := None)\<rparr>)"
    by (simp add: rollback_temp_def bind_io_def return_io_def reliable_calls(2) [OF assms(1)])
  show ?thesis
    by (intro exI conjI, rule one, rule two) (use s assms(4) in \<open>auto simp: only_entries_def own_def undone_def staged_def\<close>)
next
  assume p: "published d0 d e c"
  then have temp: "\<not> exists_path d (pe_temp e)" and new: "exists_path d (pe_target e)"
    by (auto simp: published_def installed_def content_def exists_path_def)
  show ?thesis
  proof (cases "pe_had_target e")
    case True
    then obtain i where i: "entries d0 (pe_target e) = Some i" using assms(3) by (auto simp: exists_path_def)
    have b: "entries d (pe_backup e) = Some i" "entries d (pe_target e) \<noteq> Some i"
      using p True i by (simp_all add: published_def backed_def)
    let ?d1 = "(tick d)\<lparr>entries := (entries d)(pe_target e \<mapsto> i, pe_backup e := None)\<rparr>"
    have one: "rollback_target env e d = (Inr (), ?d1)"
      using temp True by (simp add: rollback_target_def reliable_calls(3) [OF assms(1) b])
    have two: "rollback_temp env e ?d1 = (Inr [], ?d1)" using temp assms(4) by (auto simp: rollback_temp_def exists_path_def)
    show ?thesis
      by (intro exI conjI, rule one, rule two) (use temp i assms(4) in \<open>auto simp: only_entries_def own_def undone_def exists_path_def\<close>)
  next
    case False
    let ?d1 = "(tick d)\<lparr>entries := (entries d)(pe_target e := None)\<rparr>"
    have one: "rollback_target env e d = (Inr (), ?d1)"
      using temp new False by (simp add: rollback_target_def reliable_calls(2) [OF assms(1)])
    have two: "rollback_temp env e ?d1 = (Inr [], ?d1)" using temp assms(4) by (auto simp: rollback_temp_def exists_path_def)
    have none: "entries d0 (pe_target e) = None" using False assms(3) by (simp add: exists_path_def)
    show ?thesis
      by (intro exI conjI, rule one, rule two) (use none temp False assms(4) in \<open>auto simp: only_entries_def own_def undone_def exists_path_def\<close>)
  qed
qed

lemma undo_entries:
  assumes "reliable env" and "\<forall>e \<in> set es. staged d0 d e (new (pe_target e)) \<or> published d0 d e (new (pe_target e))"
    and "\<forall>e \<in> set es. (pe_had_target e \<longleftrightarrow> exists_path d0 (pe_target e)) \<and> distinct [pe_target e, pe_temp e, pe_backup e]"
    and "distinct es" and "\<forall>e \<in> set es. \<forall>f \<in> set es. f \<noteq> e \<longrightarrow> own f \<inter> own e = {}"
  shows "\<exists>os d'. rollback_entries env es d = (Inr os, d') \<and> only_entries (\<Union> (own ` set es)) d d' \<and> (\<forall>e \<in> set es. undone d0 d' e)"
  using assms(2-)
proof (induction es arbitrary: d)
  case Nil
  then show ?case by (simp add: return_io_def)
next
  case (Cons e es)
  have e: "staged d0 d e (new (pe_target e)) \<or> published d0 d e (new (pe_target e))" "pe_had_target e \<longleftrightarrow> exists_path d0 (pe_target e)"
    "distinct [pe_target e, pe_temp e, pe_backup e]"
    using Cons.prems(1,2) by simp_all
  obtain d1 os1 d2 where one: "rollback_target env e d = (Inr (), d1)" "rollback_temp env e d1 = (Inr os1, d2)"
    and step: "only_entries (own e) d d2" "undone d0 d2 e"
    using undo_entry [OF assms(1) e] by blast
  have away: "own f \<inter> own e = {}" if "f \<in> set es" for f using Cons.prems(3,4) that by auto
  have rest: "staged d0 d2 f (new (pe_target f)) \<or> published d0 d2 f (new (pe_target f))" if "f \<in> set es" for f
    using Cons.prems(1) status_cong(1,4) [OF step(1) away [OF that]] that by simp
  obtain os2 d' where two: "rollback_entries env es d2 = (Inr os2, d')" "only_entries (\<Union> (own ` set es)) d2 d'" "\<forall>f \<in> set es. undone d0 d' f"
    using Cons.IH [of d2] rest Cons.prems(2-4) by auto
  have "own e \<inter> \<Union> (own ` set es) = {}" using away by blast
  then have "undone d0 d' e" using undone_cong [OF two(2)] step(2) by blast
  moreover have "only_entries (\<Union> (own ` set (e # es))) d d'"
    by (rule only_entries_trans [OF only_entries_mono [OF step(1)] only_entries_mono [OF two(2)]]) auto
  moreover have "rollback_entries env (e # es) d = (Inr (os1 @ os2), d')"
    using one two(1) by (simp add: bind_io_def return_io_def)
  ultimately show ?case using two(3) by simp
qed

section \<open>Recovering\<close>

text \<open>Nothing of the transaction remains and no file outside it has changed.\<close>

definition settled :: "disk \<Rightarrow> plan_entry list \<Rightarrow> py_path \<Rightarrow> py_path \<Rightarrow> disk \<Rightarrow> bool" where
  "settled d0 pl j jt d \<longleftrightarrow> entries d j = None \<and> same_files (temps pl jt) d0 d \<and> (\<forall>p. p \<notin> touched pl j jt \<longrightarrow> entries d p = entries d0 p)
     \<and> (\<forall>e \<in> set pl. entries d (pe_temp e) = None)"

lemma finished_settled: "finished d0 pl j jt new d \<Longrightarrow> settled d0 pl j jt d \<and> (\<forall>e \<in> set pl. content d (pe_target e) = Some (new (pe_target e)))"
  by (simp add: finished_def settled_def installed_def)

lemma settled_content: "settled d0 pl j jt d \<Longrightarrow> p \<notin> touched pl j jt \<Longrightarrow> content d p = content d0 p"
  by (rule same_content [of "temps pl jt"]) (auto simp: settled_def touched_def)

lemma remove_temps_result:
  assumes "reliable env" and "\<forall>e \<in> set es. temp_path (pe_target e) = Some (pe_temp e)"
  shows "\<exists>ts d'. remove_temps env (map pe_target es) d = (Inr ts, d') \<and> only_entries (pe_temp ` set es) d d'
    \<and> (\<forall>e \<in> set es. entries d' (pe_temp e) = None) \<and> (\<forall>p. entries d p = None \<longrightarrow> entries d' p = None)"
  using assms(2)
proof (induction es arbitrary: d)
  case Nil
  then show ?case by (simp add: return_io_def)
next
  case (Cons e es)
  let ?d1 = "if exists_path d (pe_temp e) then (tick d)\<lparr>entries := (entries d)(pe_temp e := None)\<rparr> else d"
  obtain ts d' where IH: "remove_temps env (map pe_target es) ?d1 = (Inr ts, d')" "only_entries (pe_temp ` set es) ?d1 d'"
    "\<forall>e \<in> set es. entries d' (pe_temp e) = None" "\<forall>p. entries ?d1 p = None \<longrightarrow> entries d' p = None"
    using Cons.IH [of ?d1] Cons.prems by auto
  have step: "only_entries {pe_temp e} d ?d1" "entries ?d1 (pe_temp e) = None" "\<forall>p. entries d p = None \<longrightarrow> entries ?d1 p = None"
    by (auto simp: only_entries_def exists_path_def)
  have "only_entries (pe_temp ` set (e # es)) d d'"
    by (rule only_entries_trans [OF only_entries_mono [OF step(1)] only_entries_mono [OF IH(2)]]) auto
  moreover have "\<exists>ts. remove_temps env (map pe_target (e # es)) d = (Inr ts, d')"
    using IH(1) Cons.prems by (simp add: bind_io_def return_io_def reliable_calls(2) [OF assms(1)] split: if_splits)
  ultimately show ?case using IH(3,4) step(2,3) by auto
qed

text \<open>The plan a journal stands for, and what \<open>recover\<close> needs to know of it.\<close>

definition planned :: "disk \<Rightarrow> plan_entry list \<Rightarrow> py_path \<Rightarrow> py_path \<Rightarrow> bool" where
  "planned d0 pl j jt \<longleftrightarrow> apart pl j jt \<and> list_all entry_ok pl
     \<and> (\<forall>e \<in> set pl. temp_path (pe_target e) = Some (pe_temp e) \<and> pe_had_target e = exists_path d0 (pe_target e))"

lemma recover_reads:
  assumes "reliable env" and "planned d0 pl j jt" and "content d j = Some (journal_bytes pl)"
  shows "exists_path d j" and "read_journal env j d = (Inr pl, tick d)"
proof -
  obtain i where i: "entries d j = Some i" "inodes d i = journal_bytes pl" using assms(3) by (auto simp: content_def)
  have "parse_journal (journal_bytes pl) = Some pl" using journal_roundtrip assms(2) by (simp add: planned_def)
  then show "exists_path d j" "read_journal env j d = (Inr pl, tick d)"
    using i by (simp_all add: exists_path_def read_journal_def os_step_def bind_io_def reliable_calls(1) [OF assms(1)])
qed

text \<open>Every target holds its new file, or every target holds its old one.\<close>

definition all_new :: "plan_entry list \<Rightarrow> (py_path \<Rightarrow> file_bytes) \<Rightarrow> disk \<Rightarrow> bool" where
  "all_new pl new d \<longleftrightarrow> (\<forall>e \<in> set pl. content d (pe_target e) = Some (new (pe_target e)))"

definition all_old :: "disk \<Rightarrow> plan_entry list \<Rightarrow> disk \<Rightarrow> bool" where
  "all_old d0 pl d \<longleftrightarrow> (\<forall>e \<in> set pl. content d (pe_target e) = content d0 (pe_target e))"

lemma recover_unstarted:
  assumes "reliable env" and "planned d0 pl j jt" and "staging (temps pl jt) d0 d" and "entries d0 j = None"
  shows "\<exists>rep d'. recover env (map pe_target pl) j d = (Inr rep, d') \<and> rr_action rep = ''none'' \<and> settled d0 pl j jt d' \<and> all_old d0 pl d'"
proof -
  have a: "apart pl j jt" and t: "\<forall>e \<in> set pl. temp_path (pe_target e) = Some (pe_temp e)" using assms(2) by (simp_all add: planned_def)
  have jT: "j \<notin> temps pl jt" using apartD(4) [OF a] a by (cases pl) (auto simp: temps_def apart_def)
  have none: "entries d j = None" using assms(3,4) jT by (simp add: staging_def)
  obtain ts d' where r: "remove_temps env (map pe_target pl) d = (Inr ts, d')" "only_entries (pe_temp ` set pl) d d'"
    "\<forall>e \<in> set pl. entries d' (pe_temp e) = None" "\<forall>p. entries d p = None \<longrightarrow> entries d' p = None"
    using remove_temps_result [OF assms(1) t, of d] by blast
  have keep: "entries d' p = entries d0 p" if "p \<notin> temps pl jt" for p
    using that r(2) assms(3) by (simp add: only_entries_def staging_def temps_def)
  have same: "same_files (temps pl jt) d0 d'" using r(2) assms(3) by (auto simp: only_entries_def staging_def same_files_def)
  have "settled d0 pl j jt d'" using r(3,4) none same keep by (auto simp: settled_def touched_def)
  moreover have "all_old d0 pl d'"
    unfolding all_old_def using same_content [OF same] keep apartD(1) [OF a] by blast
  ultimately show ?thesis using r(1) none by (simp add: recover_def exists_path_def bind_io_def return_io_def)
qed

lemma recover_finished:
  assumes "reliable env" and "planned d0 pl j jt" and "finished d0 pl j jt new d"
  shows "\<exists>rep d'. recover env (map pe_target pl) j d = (Inr rep, d') \<and> rr_action rep = ''none'' \<and> settled d0 pl j jt d' \<and> all_new pl new d'"
proof -
  have a: "apart pl j jt" and t: "\<forall>e \<in> set pl. temp_path (pe_target e) = Some (pe_temp e)" using assms(2) by (simp_all add: planned_def)
  have f: "settled d0 pl j jt d" "\<forall>e \<in> set pl. content d (pe_target e) = Some (new (pe_target e))"
    using finished_settled [OF assms(3)] by blast+
  obtain ts d' where r: "remove_temps env (map pe_target pl) d = (Inr ts, d')" "only_entries (pe_temp ` set pl) d d'"
    "\<forall>e \<in> set pl. entries d' (pe_temp e) = None" "\<forall>p. entries d p = None \<longrightarrow> entries d' p = None"
    using remove_temps_result [OF assms(1) t, of d] by blast
  have keep: "entries d' p = entries d p" if "p \<notin> temps pl jt" for p
    using that r(2) by (simp add: only_entries_def temps_def)
  have "content d' (pe_target e) = content d (pe_target e)" if "e \<in> set pl" for e
    using r(2) keep [OF apartD(1) [OF a that]] by (simp add: content_def only_entries_def)
  then have "all_new pl new d'" using f(2) by (simp add: all_new_def)
  moreover have "settled d0 pl j jt d'"
    using f(1) r keep by (auto simp: settled_def touched_def only_entries_def same_files_def)
  ultimately show ?thesis using r(1) f(1) by (simp add: recover_def exists_path_def bind_io_def return_io_def settled_def)
qed

lemma recover_installed:
  assumes "reliable env" and "planned d0 pl j jt" and "in_flight (temps pl jt) (touched pl j jt) j (journal_bytes pl) d0 d"
    and "\<forall>e \<in> set pl. installed d e (new (pe_target e))"
  shows "\<exists>rep d'. recover env (map pe_target pl) j d = (Inr rep, d') \<and> rr_action rep = ''rolled_forward'' \<and> settled d0 pl j jt d' \<and> all_new pl new d'"
proof -
  have a: "apart pl j jt" using assms(2) by (simp add: planned_def)
  note rd = recover_reads [OF assms(1,2) conjunct1 [OF conjunct2 [OF conjunct2 [OF assms(3) [unfolded in_flight_def]]]]]
  have "list_all (\<lambda>e. \<not> exists_path (tick d) (pe_temp e)) pl" using assms(4) by (simp add: list_all_iff exists_path_def installed_def)
  note all = this
  obtain r d' where fin: "finalize env pl j (tick d) = (r, d')" by (cases "finalize env pl j (tick d)")
  have "in_flight (temps pl jt) (touched pl j jt) j (journal_bytes pl) d0 (tick d)" "\<forall>e \<in> set pl. installed (tick d) e (new (pe_target e))"
    using assms(3,4) by (simp_all add: in_flight_def sound_def same_files_def installed_def)
  from finalize_result [OF this(1) a this(2) fin] assms(1) have f: "r = Inr ()" "finished d0 pl j jt new d'" by (cases r; simp)+
  then show ?thesis using rd all fin finished_settled [OF f(2)] by (simp add: recover_def bind_io_def return_io_def all_new_def)
qed

lemma recover_mixed:
  assumes "reliable env" and "planned d0 pl j jt" and "in_flight (temps pl jt) (touched pl j jt) j (journal_bytes pl) d0 d"
    and "mixed d0 pl new d" and "\<not> (\<forall>e \<in> set pl. installed d e (new (pe_target e)))"
  shows "\<exists>rep d'. recover env (map pe_target pl) j d = (Inr rep, d') \<and> rr_action rep = ''rolled_back'' \<and> settled d0 pl j jt d' \<and> all_old d0 pl d'"
proof -
  have a: "apart pl j jt" and h: "\<forall>e \<in> set pl. pe_had_target e \<longleftrightarrow> exists_path d0 (pe_target e)" using assms(2) by (simp_all add: planned_def)
  note rd = recover_reads [OF assms(1,2) conjunct1 [OF conjunct2 [OF conjunct2 [OF assms(3) [unfolded in_flight_def]]]]]
  obtain e where "e \<in> set pl" "\<not> published d0 d e (new (pe_target e))" using assms(5) by (auto simp: published_def)
  then have "e \<in> set pl" "exists_path (tick d) (pe_temp e)"
    using assms(4) by (auto simp: mixed_def staged_def content_def exists_path_def)
  then have some: "\<not> list_all (\<lambda>e. \<not> exists_path (tick d) (pe_temp e)) pl" by (auto simp: list_all_iff)
  have status: "\<forall>e \<in> set pl. staged d0 (tick d) e (new (pe_target e)) \<or> published d0 (tick d) e (new (pe_target e))"
    using assms(4) by (simp add: mixed_def staged_def published_def installed_def backed_def)
  have shape: "\<forall>e \<in> set pl. (pe_had_target e \<longleftrightarrow> exists_path d0 (pe_target e)) \<and> distinct [pe_target e, pe_temp e, pe_backup e]"
    and own: "\<forall>e \<in> set pl. \<forall>f \<in> set pl. f \<noteq> e \<longrightarrow> own f \<inter> own e = {}" and dist: "distinct pl"
    using a h unfolding apart_def by blast+
  obtain os d1 where rb: "rollback_entries env pl (tick d) = (Inr os, d1)" "only_entries (\<Union> (own ` set pl)) (tick d) d1"
    "\<forall>e \<in> set pl. undone d0 d1 e"
    using undo_entries [OF assms(1) status shape dist own] by blast
  let ?d' = "(tick d1)\<lparr>entries := (entries d1)(j := None)\<rparr>"
  have run: "rollback env pl j (tick d) = (Inr os, ?d')"
    using rb(1) by (simp add: rollback_def bind_io_def return_io_def reliable_calls(2) [OF assms(1)])
  have und: "undone d0 ?d' e" if "e \<in> set pl" for e
    using rb(3) that apartD(5) [OF a that] by (auto simp: undone_def own_def)
  have same: "same_files (temps pl jt) d0 ?d'"
    using rb(2) assms(3) by (auto simp: in_flight_def same_files_def only_entries_def)
  have sub: "\<Union> (own ` set pl) \<subseteq> touched pl j jt" using apartD(9) [OF a] by blast
  have "entries ?d' p = entries d0 p" if p: "p \<notin> touched pl j jt" for p
  proof -
    have "p \<noteq> j" "p \<notin> \<Union> (own ` set pl)" using p sub by (auto simp: touched_def)
    then show ?thesis using p rb(2) assms(3) by (simp add: in_flight_def only_entries_def)
  qed
  then have "settled d0 pl j jt ?d'" using same und by (simp add: settled_def undone_def)
  moreover have "all_old d0 pl ?d'"
    unfolding all_old_def using same_content [OF same] und apartD(1) [OF a] by (simp add: undone_def)
  ultimately show ?thesis using rd some run by (simp add: recover_def bind_io_def return_io_def)
qed

lemma recoverable_outcome:
  assumes "build_plan files d0 = Some pl" and "files \<noteq> []" and "temp_path j = Some jt" and "apart pl j jt" and "sound (temps pl jt) d0"
    and "entries d0 j = None" and "\<forall>fw \<in> set files. path_ok (fw_target fw)" and "honest env" and "reliable repaired"
    and "publish env files j d0 = (r, d)"
  shows "\<exists>rep d'. recover repaired (map fw_target files) j d = (Inr rep, d')
    \<and> entries d' j = None \<and> (\<forall>e \<in> set pl. entries d' (pe_temp e) = None)
    \<and> (\<forall>p. p \<notin> touched pl j jt \<longrightarrow> content d' p = content d0 p)
    \<and> (if r = Inr () \<or> rr_action rep = ''rolled_forward''
       then \<forall>fw \<in> set files. content d' (fw_target fw) = Some (fw_content fw)
       else \<forall>fw \<in> set files. content d' (fw_target fw) = content d0 (fw_target fw))"
proof -
  let ?new = "new_content files"
  have targets: "map pe_target pl = map fw_target files" using build_plan_entries [OF assms(1)] by blast
  then have dist: "distinct (map fw_target files)" using apart_targets [OF assms(4)] by simp
  have pl: "planned d0 pl j jt" using build_plan_entries [OF assms(1)] build_plan_ok [OF assms(1,7)] assms(4) by (simp add: planned_def)
  have each: "(\<forall>e \<in> set pl. P (pe_target e)) \<longleftrightarrow> (\<forall>fw \<in> set files. P (fw_target fw))" for P
    using arg_cong [OF targets, of "list_all P"] by (simp add: list_all_iff)
  have new: "all_new pl ?new d' \<longleftrightarrow> (\<forall>fw \<in> set files. content d' (fw_target fw) = Some (fw_content fw))" for d'
    using each [of "\<lambda>p. content d' p = Some (?new p)"] new_content [OF dist] by (simp add: all_new_def)
  have old: "all_old d0 pl d' \<longleftrightarrow> (\<forall>fw \<in> set files. content d' (fw_target fw) = content d0 (fw_target fw))" for d'
    using each [of "\<lambda>p. content d' p = content d0 p"] by (simp add: all_old_def)
  have "\<exists>rep d'. recover repaired (map pe_target pl) j d = (Inr rep, d') \<and> settled d0 pl j jt d'
      \<and> (if r = Inr () \<or> rr_action rep = ''rolled_forward'' then all_new pl ?new d' else all_old d0 pl d')"
  proof (cases r)
    case (Inr u)
    then have "finished d0 pl j jt ?new d" using publish_outcome [OF assms(1-6,8,10)] by simp
    from recover_finished [OF assms(9) pl this] show ?thesis by (elim exE conjE) (intro exI conjI, assumption, assumption, simp add: Inr)
  next
    case (Inl x)
    note out = publish_outcome [OF assms(1-6,8,10), unfolded Inl sum.case]
    show ?thesis
    proof (cases "staging (temps pl jt) d0 d")
      case True
      from recover_unstarted [OF assms(9) pl True assms(6)] show ?thesis by (elim exE conjE) (intro exI conjI, assumption, assumption, simp add: Inl)
    next
      case False
      then have fl: "in_flight (temps pl jt) (touched pl j jt) j (journal_bytes pl) d0 d" using out by blast
      show ?thesis
      proof (cases "\<forall>e \<in> set pl. installed d e (?new (pe_target e))")
        case True
        from recover_installed [OF assms(9) pl fl True] show ?thesis by (elim exE conjE) (intro exI conjI, assumption, assumption, simp)
      next
        case some: False
        then have "mixed d0 pl ?new d" using out False by blast
        from recover_mixed [OF assms(9) pl fl this some] show ?thesis by (elim exE conjE) (intro exI conjI, assumption, assumption, simp add: Inl)
      qed
    qed
  qed
  then obtain rep d' where "recover repaired (map pe_target pl) j d = (Inr rep, d')" and s: "settled d0 pl j jt d'"
    and all: "if r = Inr () \<or> rr_action rep = ''rolled_forward'' then all_new pl ?new d' else all_old d0 pl d'" by blast
  then show ?thesis
    using settled_content [OF s] all [unfolded new old] by (intro exI [of _ rep] exI [of _ d']) (simp add: targets settled_def)
qed

section \<open>Properties\<close>

text \<open>
  C1. \<open>publish\<close> is recoverable. Whatever call of \<open>publish\<close> fails, with every later call or alone, a \<open>recover\<close> on a disk that
  works again returns, leaves neither the journal nor a staged file, leaves every file outside the transaction as it was, and
  makes every target new or every target old. After a \<open>publish\<close> that returned they are new; otherwise they are new exactly
  when \<open>recover\<close> reports that it rolled forward.
\<close>
theorem publish_recoverable:
  assumes "build_plan files d0 = Some pl" and "files \<noteq> []" and "temp_path j = Some jt" and "apart pl j jt" and "sound (temps pl jt) d0"
    and "entries d0 j = None" and "\<forall>fw \<in> set files. path_ok (fw_target fw)" and "honest env" and "reliable repaired"
    and "publish env files j d0 = (r, d)"
  shows "\<exists>rep d'. recover repaired (map fw_target files) j d = (Inr rep, d')
    \<and> entries d' j = None \<and> (\<forall>e \<in> set pl. entries d' (pe_temp e) = None)
    \<and> (\<forall>p. p \<notin> touched pl j jt \<longrightarrow> content d' p = content d0 p)
    \<and> (if r = Inr () \<or> rr_action rep = ''rolled_forward''
       then \<forall>fw \<in> set files. content d' (fw_target fw) = Some (fw_content fw)
       else \<forall>fw \<in> set files. content d' (fw_target fw) = content d0 (fw_target fw))"
  by (rule recoverable_outcome [OF assms])

text \<open>Two files, one of them there already; the environment fails when the second is to be renamed, and ever after.\<close>

definition demo_files :: "file_write list" where
  "demo_files = [\<lparr>fw_target = Path [] [''a''], fw_content = [1]\<rparr>, \<lparr>fw_target = Path [] [''b''], fw_content = [2]\<rparr>]"

definition demo_disk :: disk where
  "demo_disk = \<lparr>entries = [Path [] [''a''] \<mapsto> 0], inodes = (\<lambda>_. [0]), next_inode = 1, calls = 0\<rparr>"

definition demo_plan :: "plan_entry list" where
  "demo_plan = [\<lparr>pe_target = Path [] [''a''], pe_temp = Path [] [''a.tmp''], pe_backup = Path [] [''a.bak''], pe_had_target = True\<rparr>,
     \<lparr>pe_target = Path [] [''b''], pe_temp = Path [] [''b.tmp''], pe_backup = Path [] [''b.bak''], pe_had_target = False\<rparr>]"

definition demo_env :: os where "demo_env k = (if k < 13 then Proceeds else Fails 0)"

lemma demo_facts:
  shows "build_plan demo_files demo_disk = Some demo_plan" and "demo_files \<noteq> []" and "temp_path (Path [] [''j'']) = Some (Path [] [''j.tmp''])"
    and "apart demo_plan (Path [] [''j'']) (Path [] [''j.tmp''])" and "sound (temps demo_plan (Path [] [''j.tmp''])) demo_disk"
    and "entries demo_disk (Path [] [''j'']) = None" and "\<forall>fw \<in> set demo_files. path_ok (fw_target fw)" and "honest demo_env"
    and "reliable (\<lambda>_. Proceeds)"
  by (simp_all add: demo_files_def demo_disk_def demo_plan_def temp_path_def backup_path_def with_suffix_def exists_path_def apart_def
      own_def sound_def temps_def path_ok_def honest_def demo_env_def reliable_def)

theorem publish_recoverable_witness:
  "\<exists>rep d'. recover (\<lambda>_. Proceeds) [Path [] [''a''], Path [] [''b'']] (Path [] [''j''])
        (snd (publish demo_env demo_files (Path [] [''j'']) demo_disk)) = (Inr rep, d')
    \<and> entries d' (Path [] [''j'']) = None
    \<and> (rr_action rep \<noteq> ''rolled_forward'' \<longrightarrow> content d' (Path [] [''a'']) = Some [0] \<and> content d' (Path [] [''b'']) = None)
    \<and> (rr_action rep = ''rolled_forward'' \<longrightarrow> content d' (Path [] [''a'']) = Some [1] \<and> content d' (Path [] [''b'']) = Some [2])"
proof -
  let ?j = "Path [] [''j'']"
  have "fst (publish demo_env demo_files ?j demo_disk) = Inl (StorageIO ''publish_rename'' (Path [] [''b'']))"
    by code_simp
  note failed = this
  obtain rep d' where "recover (\<lambda>_. Proceeds) (map fw_target demo_files) ?j (snd (publish demo_env demo_files ?j demo_disk)) = (Inr rep, d')"
      "entries d' ?j = None"
    and all: "if fst (publish demo_env demo_files ?j demo_disk) = Inr () \<or> rr_action rep = ''rolled_forward''
       then \<forall>fw \<in> set demo_files. content d' (fw_target fw) = Some (fw_content fw)
       else \<forall>fw \<in> set demo_files. content d' (fw_target fw) = content demo_disk (fw_target fw)"
    using publish_recoverable [OF demo_facts surjective_pairing] by blast
  moreover have "(rr_action rep \<noteq> ''rolled_forward'' \<longrightarrow> content d' (Path [] [''a'']) = Some [0] \<and> content d' (Path [] [''b'']) = None)
    \<and> (rr_action rep = ''rolled_forward'' \<longrightarrow> content d' (Path [] [''a'']) = Some [1] \<and> content d' (Path [] [''b'']) = Some [2])"
    using all failed by (simp add: demo_files_def demo_disk_def content_def split: if_splits)
  ultimately show ?thesis by (intro exI [of _ rep] exI [of _ d']) (simp add: demo_files_def)
qed




text \<open>A disk between the renames of a transaction over two files that were there.\<close>

definition torn_plan :: "plan_entry list" where
  "torn_plan = [\<lparr>pe_target = Path [] [''a''], pe_temp = Path [] [''a.tmp''], pe_backup = Path [] [''a.bak''], pe_had_target = True\<rparr>,
     \<lparr>pe_target = Path [] [''b''], pe_temp = Path [] [''b.tmp''], pe_backup = Path [] [''b.bak''], pe_had_target = True\<rparr>]"

definition torn_disk :: disk where
  "torn_disk = \<lparr>entries = [Path [] [''a''] \<mapsto> 2, Path [] [''a.bak''] \<mapsto> 0, Path [] [''b''] \<mapsto> 1, Path [] [''b.bak''] \<mapsto> 1,
       Path [] [''b.tmp''] \<mapsto> 3, Path [] [''j''] \<mapsto> 4],
     inodes = (\<lambda>_. [0])(4 := journal_bytes torn_plan), next_inode = 5, calls = 0\<rparr>"


text \<open>
  The number of bytes that \<open>os.write\<close> returns is ignored. When the write of a new file stops short, \<open>publish\<close> returns
  as usual and the target holds the truncated bytes.
\<close>
theorem short_write_published:
  assumes "temp_path (fw_target fw) = Some t" and "backup_path (fw_target fw) = Some b" and "temp_path j = Some jt"
    and "distinct [fw_target fw, t, j, jt]" and "\<forall>p \<in> {fw_target fw, t, j, jt}. entries d p = None"
    and "env (Suc (calls d)) = Stops n" and "\<forall>k. k \<noteq> Suc (calls d) \<longrightarrow> env k = Proceeds"
  shows "\<exists>d'. publish env [fw] j d = (Inr (), d') \<and> content d' (fw_target fw) = Some (take n (fw_content fw)) \<and> entries d' j = None"
proof -
  have pos: "calls (tick d') = Suc (calls d')" for d' by (simp add: tick_def)
  have "fst (publish env [fw] j d) = Inr ()
    \<and> content (snd (publish env [fw] j d)) (fw_target fw) = Some (take n (fw_content fw)) \<and> entries (snd (publish env [fw] j d)) j = None"
    using assms
    by (auto simp: publish_def exists_path_def bind_io_def return_io_def stage_temp_def os_step_def sys_open_def sys_write_def sys_fsync_def
        write_journal_def backup_entry_def rename_path_def sys_rename_def finalize_def unlink_path_def sys_unlink_def content_def pos)
  then show ?thesis by (intro exI [of _ "snd (publish env [fw] j d)"]) (metis prod.collapse)
qed

theorem short_write_published_witness:
  "\<exists>d'. publish (\<lambda>k. if k = 1 then Stops 1 else Proceeds) [\<lparr>fw_target = Path [] [''a''], fw_content = [1, 2]\<rparr>] (Path [] [''j''])
      \<lparr>entries = (\<lambda>_. None), inodes = (\<lambda>_. []), next_inode = 0, calls = 0\<rparr> = (Inr (), d')
    \<and> content d' (Path [] [''a'']) = Some [1]"
proof -
  let ?d = "\<lparr>entries = (\<lambda>_. None), inodes = (\<lambda>_. []), next_inode = 0, calls = 0\<rparr> :: disk"
  let ?fw = "\<lparr>fw_target = Path [] [''a''], fw_content = [1, 2]\<rparr>"
  let ?env = "\<lambda>k :: nat. if k = 1 then Stops 1 else Proceeds"
  have p: "temp_path (fw_target ?fw) = Some (Path [] [''a.tmp''])" "backup_path (fw_target ?fw) = Some (Path [] [''a.bak''])"
    "temp_path (Path [] [''j'']) = Some (Path [] [''j.tmp''])"
    by (simp_all add: temp_path_def backup_path_def with_suffix_def)
  show ?thesis using short_write_published [OF p, of ?d ?env 1] by simp blast
qed

end
