(* ===== verification/Sha256.thy ===== *)
theory Sha256
  imports Python_Std "HOL-Library.Word"
begin

unbundle bit_operations_syntax

text \<open>\<open>hashlib.sha256\<close>, as FIPS 180-4 defines it: padding, message schedule, compression, and the hexadecimal digest.\<close>

section \<open>Words and blocks\<close>

definition big_sigma0 :: "32 word \<Rightarrow> 32 word" where
  "big_sigma0 x = word_rotr 2 x XOR word_rotr 13 x XOR word_rotr 22 x"

definition big_sigma1 :: "32 word \<Rightarrow> 32 word" where
  "big_sigma1 x = word_rotr 6 x XOR word_rotr 11 x XOR word_rotr 25 x"

definition small_sigma0 :: "32 word \<Rightarrow> 32 word" where
  "small_sigma0 x = word_rotr 7 x XOR word_rotr 18 x XOR drop_bit 3 x"

definition small_sigma1 :: "32 word \<Rightarrow> 32 word" where
  "small_sigma1 x = word_rotr 17 x XOR word_rotr 19 x XOR drop_bit 10 x"

definition sha_choose :: "32 word \<Rightarrow> 32 word \<Rightarrow> 32 word \<Rightarrow> 32 word" where
  "sha_choose x y z = (x AND y) XOR (NOT x AND z)"

definition sha_majority :: "32 word \<Rightarrow> 32 word \<Rightarrow> 32 word \<Rightarrow> 32 word" where
  "sha_majority x y z = (x AND y) XOR (x AND z) XOR (y AND z)"

text \<open>
  The constants are the first 32 bits of the fractional parts of cube and square roots of the first primes, computed bit by
  bit: the \<open>k\<close>-th root of \<open>p\<close> times \<open>2 ^ (32 * k)\<close> is below \<open>2 ^ 35\<close> here, and a word keeps its low 32 bits.
\<close>

fun root_bits :: "nat \<Rightarrow> int \<Rightarrow> nat \<Rightarrow> int \<Rightarrow> int" where
  "root_bits k n 0 acc = acc"
| "root_bits k n (Suc b) acc = root_bits k n b (if (acc + 2 ^ b) ^ k \<le> n then acc + 2 ^ b else acc)"

definition fraction_bits :: "nat \<Rightarrow> int \<Rightarrow> 32 word" where
  "fraction_bits k p = of_int (root_bits k (p * 2 ^ (32 * k)) 35 0)"

definition first_primes :: "int list" where
  "first_primes = filter (\<lambda>p. list_all (\<lambda>d. p mod d \<noteq> 0) [2..p - 1]) [2..311]"

definition round_constants :: "32 word list" where
  "round_constants = map (fraction_bits 3) first_primes"

definition initial_hash :: "32 word list" where
  "initial_hash = map (fraction_bits 2) [2, 3, 5, 7, 11, 13, 17, 19]"

definition join_bytes :: "8 word list \<Rightarrow> 32 word" where
  "join_bytes bs = foldl (\<lambda>w b. push_bit 8 w OR ucast b) 0 bs"

definition split_bytes :: "32 word \<Rightarrow> 8 word list" where
  "split_bytes w = map (\<lambda>n. ucast (drop_bit n w)) [24, 16, 8, 0]"

text \<open>The bytes in groups of \<open>n\<close>; no group for \<open>n = 0\<close>.\<close>

function chunks :: "nat \<Rightarrow> 'a list \<Rightarrow> 'a list list" where
  "chunks n xs = (if n = 0 \<or> xs = [] then [] else take n xs # chunks n (drop n xs))"
  by pat_completeness auto
termination by (relation "measure (\<lambda>(_, xs). length xs)") auto

declare chunks.simps [simp del]

text \<open>A one bit, zeros up to 56 bytes modulo 64, and the length in bits as a big-endian 64-bit number.\<close>

definition pad :: "8 word list \<Rightarrow> 8 word list" where
  "pad bs =
     (let bits = of_nat (8 * length bs) :: 64 word
      in bs @ [0x80] @ replicate ((119 - length bs mod 64) mod 64) 0 @ map (\<lambda>n. ucast (drop_bit n bits)) [56, 48, 40, 32, 24, 16, 8, 0])"

section \<open>Compression\<close>

text \<open>\<open>extend k ws\<close>: \<open>k\<close> more words of the schedule.\<close>

fun extend :: "nat \<Rightarrow> 32 word list \<Rightarrow> 32 word list" where
  "extend 0 ws = ws"
| "extend (Suc k) ws =
     (let t = length ws
      in extend k (ws @ [small_sigma1 (ws ! (t - 2)) + ws ! (t - 7) + small_sigma0 (ws ! (t - 15)) + ws ! (t - 16)]))"

definition schedule :: "8 word list \<Rightarrow> 32 word list" where
  "schedule block = extend 48 (map join_bytes (chunks 4 block))"

fun hash_round :: "32 word list \<Rightarrow> 32 word \<times> 32 word \<Rightarrow> 32 word list" where
  "hash_round [a, b, c, d, e, f, g, h] (k, w) =
     (let t1 = h + big_sigma1 e + sha_choose e f g + k + w; t2 = big_sigma0 a + sha_majority a b c
      in [t1 + t2, a, b, c, d + t1, e, f, g])"
| "hash_round xs _ = xs"

definition compress :: "32 word list \<Rightarrow> 8 word list \<Rightarrow> 32 word list" where
  "compress hs block = map2 (+) hs (foldl hash_round hs (zip round_constants (schedule block)))"

definition sha256_digest :: "8 word list \<Rightarrow> 8 word list" where
  "sha256_digest bs = concat (map split_bytes (foldl compress initial_hash (chunks 64 (pad bs))))"

definition sha256_hex :: "8 word list \<Rightarrow> string" where
  "sha256_hex bs = concat (map (\<lambda>b. hex_fixed 2 (unat b)) (sha256_digest bs))"

section \<open>The form of a digest\<close>

lemma hash_round_length [simp]: "length (hash_round hs kw) = length hs"
  by (cases "(hs, kw)" rule: hash_round.cases) (simp_all add: Let_def)

lemma rounds_length: "length (foldl hash_round hs kws) = length hs"
  by (induction kws arbitrary: hs) simp_all

lemma compress_length [simp]: "length (compress hs block) = length hs"
  by (simp add: compress_def rounds_length)

lemma blocks_length: "length (foldl compress hs blocks) = length hs"
  by (induction blocks arbitrary: hs) simp_all

lemma concat_length: "\<forall>x \<in> set xs. length (f x) = n \<Longrightarrow> length (concat (map f xs)) = n * length xs"
  by (induction xs) simp_all

lemma sha256_digest_length: "length (sha256_digest bs) = 32"
  unfolding sha256_digest_def by (subst concat_length [of _ _ 4]) (simp_all add: split_bytes_def blocks_length initial_hash_def)

lemma sha256_hex_form: "length (sha256_hex bs) = 64 \<and> set (sha256_hex bs) \<subseteq> hex_chars"
proof
  show "length (sha256_hex bs) = 64"
    unfolding sha256_hex_def by (subst concat_length [of _ _ 2]) (simp_all add: sha256_digest_length)
  show "set (sha256_hex bs) \<subseteq> hex_chars" using hex_fixed_chars [of 2] by (auto simp: sha256_hex_def)
qed

end
