(* ===== verification/Session_Guard.thy ===== *)
theory Session_Guard
  imports Rollback Sha256 Errors
begin

text \<open>
  \<open>storage/session_guard.py\<close>: an edit session remembers the digests of a source file and of its tree file and refuses a
  write when either file has changed since. The disk is the one of the file transactions; \<open>mtime_ns\<close>, a diagnostic like
  \<open>size\<close>, is left out because that disk keeps no times. A reason stands for the message of an exception.
\<close>

section \<open>Digests\<close>

definition source_sha256 :: "file_bytes \<Rightarrow> string" where "source_sha256 = sha256_hex"

definition tree_payload_sha256 :: "file_bytes \<Rightarrow> string" where "tree_payload_sha256 = sha256_hex"

definition checksums_section_keys :: "string list" where "checksums_section_keys = [''checksums'', ''CHECKSUMS'']"

definition strip_checksums_section :: "(string, json) pydict \<Rightarrow> (string, json) pydict" where
  "strip_checksums_section ms = filter (\<lambda>(k, _). k \<notin> set checksums_section_keys) ms"

definition canonical_payload_bytes :: "(string, json) pydict \<Rightarrow> file_bytes" where
  "canonical_payload_bytes ms = utf8_encode (json_dumps compact_dialect (JObj (strip_checksums_section ms)))"

type_synonym canonicalizer = "file_bytes \<Rightarrow> string + file_bytes"

definition default_tree_canonicalizer :: "(string \<Rightarrow> string) \<Rightarrow> canonicalizer" where
  "default_tree_canonicalizer shortest raw =
     (case Option.bind (utf8_decode raw) json_loads of
        None \<Rightarrow> Inl ''undecodable''
      | Some j \<Rightarrow> (case with_floats shortest j of JObj ms \<Rightarrow> Inr (canonical_payload_bytes ms) | _ \<Rightarrow> Inl ''not_a_mapping''))"

section \<open>Evidence\<close>

datatype conflict_policy = REFUSE | OVERWRITE_SOURCE | OVERWRITE_TREE | OVERWRITE_BOTH

definition allows_source_overwrite :: "conflict_policy \<Rightarrow> bool" where
  "allows_source_overwrite p \<longleftrightarrow> p \<in> {OVERWRITE_SOURCE, OVERWRITE_BOTH}"

definition allows_tree_overwrite :: "conflict_policy \<Rightarrow> bool" where
  "allows_tree_overwrite p \<longleftrightarrow> p \<in> {OVERWRITE_TREE, OVERWRITE_BOTH}"

record file_evidence =
  fe_path :: py_path
  fe_exists :: bool
  fe_sha256 :: "string option"
  fe_size :: "nat option"
  fe_reason :: "string option"

record conflict_report =
  cr_source :: file_evidence
  cr_tree :: file_evidence
  cr_base_source :: string
  cr_base_tree :: string
  cr_source_changed :: bool
  cr_tree_changed :: bool

definition has_conflict :: "conflict_report \<Rightarrow> bool" where
  "has_conflict r \<longleftrightarrow> cr_source_changed r \<or> cr_tree_changed r"

definition report_error_code :: "conflict_report \<Rightarrow> error_code option" where
  "report_error_code r =
     (if cr_source_changed r then Some CONCURRENT_SOURCE_MODIFICATION
      else if cr_tree_changed r then Some CONCURRENT_TREE_MODIFICATION else None)"

text \<open>What a session raises: the class, the file and, for a failure of the disk, the phase.\<close>

record guard_error =
  ge_class :: exception_class
  ge_path :: py_path
  ge_phase :: string

record edit_session =
  es_source :: py_path
  es_tree :: py_path
  es_canonicalize :: canonicalizer
  es_base_source :: string
  es_base_tree :: string

definition sys_stat :: "os \<Rightarrow> py_path \<Rightarrow> disk \<Rightarrow> nat option \<times> disk" where
  "sys_stat env p d = (case env (calls d) of Fails _ \<Rightarrow> None | _ \<Rightarrow> map_option (length \<circ> inodes d) (entries d p), tick d)"

definition read_guarded :: "os \<Rightarrow> py_path \<Rightarrow> disk \<Rightarrow> (guard_error + file_bytes option) \<times> disk" where
  "read_guarded env p d =
     (case sys_read env p d of
        (Inl FileNotFound, d') \<Rightarrow> (Inr None, d')
      | (Inl OtherOSError, d') \<Rightarrow> (Inl \<lparr>ge_class = StorageIOError, ge_path = p, ge_phase = ''verify_read''\<rparr>, d')
      | (Inr bs, d') \<Rightarrow> (Inr (Some bs), d'))"

definition evidence :: "os \<Rightarrow> py_path \<Rightarrow> (file_bytes \<Rightarrow> string + string) \<Rightarrow> disk \<Rightarrow> (guard_error + file_evidence) \<times> disk" where
  "evidence env p digest_of d =
     (case read_guarded env p d of
        (Inl e, d1) \<Rightarrow> (Inl e, d1)
      | (Inr data, d1) \<Rightarrow>
          (case sys_stat env p d1 of (len, d2) \<Rightarrow>
            (Inr (case data of
                None \<Rightarrow> \<lparr>fe_path = p, fe_exists = False, fe_sha256 = None, fe_size = len, fe_reason = Some ''missing''\<rparr>
              | Some bs \<Rightarrow>
                  (case digest_of bs of
                     Inr h \<Rightarrow> \<lparr>fe_path = p, fe_exists = True, fe_sha256 = Some h, fe_size = len, fe_reason = None\<rparr>
                   | Inl why \<Rightarrow> \<lparr>fe_path = p, fe_exists = True, fe_sha256 = None, fe_size = len, fe_reason = Some why\<rparr>)), d2)))"

definition source_evidence :: "os \<Rightarrow> py_path \<Rightarrow> disk \<Rightarrow> (guard_error + file_evidence) \<times> disk" where
  "source_evidence env p = evidence env p (\<lambda>bs. Inr (source_sha256 bs))"

definition tree_digest :: "canonicalizer \<Rightarrow> file_bytes \<Rightarrow> string + string" where
  "tree_digest canon raw = (case canon raw of Inl why \<Rightarrow> Inl why | Inr c \<Rightarrow> Inr (tree_payload_sha256 c))"

definition tree_evidence :: "os \<Rightarrow> py_path \<Rightarrow> canonicalizer \<Rightarrow> disk \<Rightarrow> (guard_error + file_evidence) \<times> disk" where
  "tree_evidence env p canon = evidence env p (tree_digest canon)"

definition require_digest :: "file_evidence \<Rightarrow> guard_error + string" where
  "require_digest ev =
     (case fe_sha256 ev of
        None \<Rightarrow> Inl \<lparr>ge_class = StorageIOError, ge_path = fe_path ev, ge_phase = ''open_baseline''\<rparr>
      | Some h \<Rightarrow> Inr h)"

section \<open>Sessions\<close>

text \<open>A base digest that the caller gives, or the one that the evidence yields.\<close>

definition baseline :: "string option \<Rightarrow> (disk \<Rightarrow> (guard_error + file_evidence) \<times> disk) \<Rightarrow> disk \<Rightarrow> (guard_error + string) \<times> disk" where
  "baseline given ev d =
     (case given of
        Some h \<Rightarrow> (Inr h, d)
      | None \<Rightarrow> (case ev d of (Inl e, d') \<Rightarrow> (Inl e, d') | (Inr x, d') \<Rightarrow> (require_digest x, d')))"

definition init_session :: "os \<Rightarrow> py_path \<Rightarrow> py_path \<Rightarrow> string option \<Rightarrow> string option \<Rightarrow> canonicalizer
    \<Rightarrow> disk \<Rightarrow> (guard_error + edit_session) \<times> disk" where
  "init_session env source tree base_source base_tree canon d =
     (case baseline base_source (source_evidence env source) d of
        (Inl e, d1) \<Rightarrow> (Inl e, d1)
      | (Inr h1, d1) \<Rightarrow>
          (case baseline base_tree (tree_evidence env tree canon) d1 of
             (Inl e, d2) \<Rightarrow> (Inl e, d2)
           | (Inr h2, d2) \<Rightarrow> (Inr \<lparr>es_source = source, es_tree = tree, es_canonicalize = canon,
                 es_base_source = h1, es_base_tree = h2\<rparr>, d2)))"

definition both_evidence :: "os \<Rightarrow> edit_session \<Rightarrow> disk \<Rightarrow> (guard_error + file_evidence \<times> file_evidence) \<times> disk" where
  "both_evidence env s d =
     (case source_evidence env (es_source s) d of
        (Inl e, d1) \<Rightarrow> (Inl e, d1)
      | (Inr x, d1) \<Rightarrow>
          (case tree_evidence env (es_tree s) (es_canonicalize s) d1 of
             (Inl e, d2) \<Rightarrow> (Inl e, d2)
           | (Inr y, d2) \<Rightarrow> (Inr (x, y), d2)))"

definition inspect :: "os \<Rightarrow> edit_session \<Rightarrow> disk \<Rightarrow> (guard_error + conflict_report) \<times> disk" where
  "inspect env s d =
     (case both_evidence env s d of
        (Inl e, d') \<Rightarrow> (Inl e, d')
      | (Inr (x, y), d') \<Rightarrow> (Inr \<lparr>cr_source = x, cr_tree = y, cr_base_source = es_base_source s, cr_base_tree = es_base_tree s,
            cr_source_changed = (fe_sha256 x \<noteq> Some (es_base_source s)), cr_tree_changed = (fe_sha256 y \<noteq> Some (es_base_tree s))\<rparr>, d'))"

definition check_before_write :: "os \<Rightarrow> edit_session \<Rightarrow> conflict_policy \<Rightarrow> disk \<Rightarrow> (guard_error + conflict_report) \<times> disk" where
  "check_before_write env s policy d =
     (case inspect env s d of
        (Inl e, d') \<Rightarrow> (Inl e, d')
      | (Inr r, d') \<Rightarrow>
          if cr_source_changed r \<and> \<not> allows_source_overwrite policy
          then (Inl \<lparr>ge_class = ConcurrentSourceModification, ge_path = es_source s, ge_phase = []\<rparr>, d')
          else if cr_tree_changed r \<and> \<not> allows_tree_overwrite policy
          then (Inl \<lparr>ge_class = ConcurrentTreeModification, ge_path = es_tree s, ge_phase = []\<rparr>, d')
          else (Inr r, d'))"

definition accept_publication :: "os \<Rightarrow> edit_session \<Rightarrow> string \<Rightarrow> string \<Rightarrow> disk \<Rightarrow> (guard_error + conflict_report) \<times> edit_session \<times> disk" where
  "accept_publication env s expected_source expected_tree d =
     (case both_evidence env s d of
        (Inl e, d') \<Rightarrow> (Inl e, s, d')
      | (Inr (x, y), d') \<Rightarrow>
          if fe_sha256 x \<noteq> Some expected_source then (Inl \<lparr>ge_class = ChecksumMismatch, ge_path = es_source s, ge_phase = []\<rparr>, s, d')
          else if fe_sha256 y \<noteq> Some expected_tree then (Inl \<lparr>ge_class = ChecksumMismatch, ge_path = es_tree s, ge_phase = []\<rparr>, s, d')
          else (Inr \<lparr>cr_source = x, cr_tree = y, cr_base_source = expected_source, cr_base_tree = expected_tree,
                  cr_source_changed = False, cr_tree_changed = False\<rparr>,
                s\<lparr>es_base_source := expected_source, es_base_tree := expected_tree\<rparr>, d'))"

section \<open>What the evidence says\<close>

text \<open>The digest of a file as the disk has it; \<open>None\<close> when it is missing or does not canonicalize.\<close>

definition digest_on :: "disk \<Rightarrow> (file_bytes \<Rightarrow> string + string) \<Rightarrow> py_path \<Rightarrow> string option" where
  "digest_on d digest_of p = Option.bind (content d p) (\<lambda>bs. case digest_of bs of Inl _ \<Rightarrow> None | Inr h \<Rightarrow> Some h)"

abbreviation source_on :: "edit_session \<Rightarrow> disk \<Rightarrow> string option" where
  "source_on s d \<equiv> digest_on d (\<lambda>bs. Inr (source_sha256 bs)) (es_source s)"

abbreviation tree_on :: "edit_session \<Rightarrow> disk \<Rightarrow> string option" where
  "tree_on s d \<equiv> digest_on d (tree_digest (es_canonicalize s)) (es_tree s)"

text \<open>Reading leaves every file alone.\<close>

definition same_disk :: "disk \<Rightarrow> disk \<Rightarrow> bool" where
  "same_disk d d' \<longleftrightarrow> entries d' = entries d \<and> inodes d' = inodes d \<and> next_inode d' = next_inode d"

lemma same_disk_simps [simp]: "same_disk d d" "same_disk d (tick d') = same_disk d d'"
  by (simp_all add: same_disk_def)

lemma same_disk_trans: "same_disk d d1 \<Longrightarrow> same_disk d1 d2 \<Longrightarrow> same_disk d d2"
  by (simp add: same_disk_def)

lemma same_disk_digest: "same_disk d d' \<Longrightarrow> digest_on d' f p = digest_on d f p"
  by (simp add: same_disk_def digest_on_def content_def)

lemma read_guarded_result:
  assumes "read_guarded env p d = (r, d')"
  shows "same_disk d d' \<and> (case r of
      Inl e \<Rightarrow> e = \<lparr>ge_class = StorageIOError, ge_path = p, ge_phase = ''verify_read''\<rparr> \<and> \<not> reliable env
    | Inr data \<Rightarrow> data = content d p)"
  using assms
  by (cases "env (calls d)"; cases "entries d p")
     (auto simp: read_guarded_def sys_read_def content_def dest: not_reliable)

lemma evidence_result:
  assumes "evidence env p f d = (r, d')"
  shows "same_disk d d' \<and> (case r of
      Inl e \<Rightarrow> e = \<lparr>ge_class = StorageIOError, ge_path = p, ge_phase = ''verify_read''\<rparr> \<and> \<not> reliable env
    | Inr ev \<Rightarrow> fe_path ev = p \<and> fe_exists ev = exists_path d p \<and> fe_sha256 ev = digest_on d f p)"
proof -
  obtain r1 d1 where one: "read_guarded env p d = (r1, d1)" by (cases "read_guarded env p d")
  note r1 = read_guarded_result [OF one]
  show ?thesis
  proof (cases r1)
    case (Inl e)
    then show ?thesis using assms one r1 by (auto simp: evidence_def)
  next
    case (Inr data)
    have "d' = tick d1" using assms one Inr by (simp add: evidence_def sys_stat_def)
    moreover have "data = content d p" using r1 Inr by simp
    ultimately show ?thesis
      using assms one Inr r1
      by (cases "entries d p") (auto simp: evidence_def sys_stat_def digest_on_def content_def exists_path_def split: sum.splits)
  qed
qed

lemma both_evidence_result:
  assumes "both_evidence env s d = (r, d')"
  shows "same_disk d d' \<and> (case r of
      Inl e \<Rightarrow> ge_class e = StorageIOError \<and> \<not> reliable env
    | Inr (x, y) \<Rightarrow> fe_sha256 x = source_on s d \<and> fe_sha256 y = tree_on s d)"
proof -
  obtain r1 d1 where one: "source_evidence env (es_source s) d = (r1, d1)" by (cases "source_evidence env (es_source s) d")
  note r1 = evidence_result [OF one [unfolded source_evidence_def]]
  show ?thesis
  proof (cases r1)
    case (Inl e)
    then show ?thesis using assms one r1 by (auto simp: both_evidence_def)
  next
    case (Inr x)
    obtain r2 d2 where two: "tree_evidence env (es_tree s) (es_canonicalize s) d1 = (r2, d2)"
      by (cases "tree_evidence env (es_tree s) (es_canonicalize s) d1")
    note r2 = evidence_result [OF two [unfolded tree_evidence_def]]
    have "same_disk d d1" using r1 by blast
    then show ?thesis
      using assms one two r1 r2 Inr same_disk_trans [of d d1 d2] same_disk_digest [of d d1]
      by (cases r2) (auto simp: both_evidence_def)
  qed
qed

lemma check_outcome:
  assumes "check_before_write env s policy d = (r, d')"
  shows "same_disk d d' \<and> (case r of
      Inl e \<Rightarrow> ge_class e = StorageIOError \<and> \<not> reliable env
        \<or> e = \<lparr>ge_class = ConcurrentSourceModification, ge_path = es_source s, ge_phase = []\<rparr>
            \<and> source_on s d \<noteq> Some (es_base_source s) \<and> \<not> allows_source_overwrite policy
        \<or> e = \<lparr>ge_class = ConcurrentTreeModification, ge_path = es_tree s, ge_phase = []\<rparr>
            \<and> (source_on s d = Some (es_base_source s) \<or> allows_source_overwrite policy)
            \<and> tree_on s d \<noteq> Some (es_base_tree s) \<and> \<not> allows_tree_overwrite policy
    | Inr rep \<Rightarrow> (source_on s d = Some (es_base_source s) \<or> allows_source_overwrite policy)
        \<and> (tree_on s d = Some (es_base_tree s) \<or> allows_tree_overwrite policy)
        \<and> cr_source_changed rep = (source_on s d \<noteq> Some (es_base_source s)) \<and> cr_tree_changed rep = (tree_on s d \<noteq> Some (es_base_tree s)))"
proof -
  obtain r1 d1 where one: "both_evidence env s d = (r1, d1)" by (cases "both_evidence env s d")
  note r1 = both_evidence_result [OF one]
  show ?thesis using assms one r1 by (cases r1) (auto simp: check_before_write_def inspect_def split: if_splits)
qed

lemma accept_outcome:
  assumes "accept_publication env s h1 h2 d = (r, s', d')"
  shows "same_disk d d' \<and> (case r of
      Inl e \<Rightarrow> s' = s \<and> (ge_class e = StorageIOError \<and> \<not> reliable env
        \<or> ge_class e = ChecksumMismatch \<and> (source_on s d \<noteq> Some h1 \<or> tree_on s d \<noteq> Some h2))
    | Inr rep \<Rightarrow> source_on s d = Some h1 \<and> tree_on s d = Some h2 \<and> \<not> has_conflict rep
        \<and> s' = s\<lparr>es_base_source := h1, es_base_tree := h2\<rparr>)"
proof -
  obtain r1 d1 where one: "both_evidence env s d = (r1, d1)" by (cases "both_evidence env s d")
  note r1 = both_evidence_result [OF one]
  show ?thesis using assms one r1 by (cases r1) (auto simp: accept_publication_def has_conflict_def split: if_splits)
qed

lemma open_outcome:
  assumes "init_session env src tree None None canon d = (r, d')"
  shows "same_disk d d' \<and> (case r of
      Inl e \<Rightarrow> ge_class e = StorageIOError
        \<and> (reliable env \<longrightarrow> digest_on d (\<lambda>bs. Inr (source_sha256 bs)) src = None \<or> digest_on d (tree_digest canon) tree = None)
    | Inr s \<Rightarrow> es_source s = src \<and> es_tree s = tree \<and> es_canonicalize s = canon
        \<and> source_on s d = Some (es_base_source s) \<and> tree_on s d = Some (es_base_tree s))"
proof -
  obtain r1 d1 where one: "source_evidence env src d = (r1, d1)" by (cases "source_evidence env src d")
  note r1 = evidence_result [OF one [unfolded source_evidence_def]]
  obtain r2 d2 where two: "tree_evidence env tree canon d1 = (r2, d2)" by (cases "tree_evidence env tree canon d1")
  note r2 = evidence_result [OF two [unfolded tree_evidence_def]]
  have "same_disk d d1" using r1 by blast
  then show ?thesis
    using assms one two r1 r2 same_disk_trans [of d d1 d2] same_disk_digest [of d d1]
    by (cases r1; cases r2) (auto simp: init_session_def baseline_def require_digest_def split: option.splits sum.splits)
qed

section \<open>Properties\<close>


text \<open>
  C10. Publication and guard fit together. Publish a new source and a new tree file over the pair that a session was opened
  on, with any failure on the way, and recover on a working disk. If the publication returned or was rolled forward, the
  session accepts it and its next check passes, while a session with the old digests is refused unless both digests are
  unchanged. Otherwise the session's check passes as if nothing had happened.
\<close>
theorem publication_fits_guard:
  assumes "build_plan [fs, ft] d0 = Some pl" and "temp_path j = Some jt" and "apart pl j jt" and "sound (temps pl jt) d0"
    and "entries d0 j = None" and "path_ok (fw_target fs)" and "path_ok (fw_target ft)" and "honest env" and "reliable repaired"
    and "publish env [fs, ft] j d0 = (r, d)" and "recover repaired [fw_target fs, fw_target ft] j d = (Inr rep, d1)"
    and "es_source s = fw_target fs" and "es_tree s = fw_target ft"
    and "source_on s d0 = Some (es_base_source s)" and "tree_on s d0 = Some (es_base_tree s)"
    and "es_canonicalize s (fw_content ft) = Inr c"
  shows "let h1 = source_sha256 (fw_content fs); h2 = tree_payload_sha256 c; s' = s\<lparr>es_base_source := h1, es_base_tree := h2\<rparr> in
    if r = Inr () \<or> rr_action rep = ''rolled_forward'' then
      (\<exists>rep1 d2. accept_publication repaired s h1 h2 d1 = (Inr rep1, s', d2)
        \<and> (\<exists>rep2 d3. check_before_write repaired s' REFUSE d2 = (Inr rep2, d3) \<and> \<not> has_conflict rep2)
        \<and> ((h1, h2) \<noteq> (es_base_source s, es_base_tree s) \<longrightarrow>
            (\<exists>e d3. check_before_write repaired s REFUSE d2 = (Inl e, d3)
              \<and> ge_class e \<in> {ConcurrentSourceModification, ConcurrentTreeModification})))
    else (\<exists>rep2 d3. check_before_write repaired s REFUSE d1 = (Inr rep2, d3) \<and> \<not> has_conflict rep2)"
proof -
  have ok: "\<forall>fw \<in> set [fs, ft]. path_ok (fw_target fw)" using assms(6,7) by simp
  have pair: "if r = Inr () \<or> rr_action rep = ''rolled_forward''
       then content d1 (es_source s) = Some (fw_content fs) \<and> content d1 (es_tree s) = Some (fw_content ft)
       else content d1 (es_source s) = content d0 (es_source s) \<and> content d1 (es_tree s) = content d0 (es_tree s)"
    using recoverable_outcome [OF assms(1) _ assms(2-5) ok assms(8-10)] assms(11-13) by (simp split: if_splits)
  have passes: "\<exists>rep2 d3. check_before_write repaired t REFUSE d = (Inr rep2, d3) \<and> \<not> has_conflict rep2"
    if "source_on t d = Some (es_base_source t)" "tree_on t d = Some (es_base_tree t)" for t d
  proof -
    obtain r2 d3 where run: "check_before_write repaired t REFUSE d = (r2, d3)" by (cases "check_before_write repaired t REFUSE d")
    then show ?thesis using check_outcome [OF run] that assms(9) by (cases r2) (auto simp: has_conflict_def)
  qed
  show ?thesis
  proof (cases "r = Inr () \<or> rr_action rep = ''rolled_forward''")
    case False
    then have "source_on s d1 = source_on s d0" "tree_on s d1 = tree_on s d0" using pair by (simp_all add: digest_on_def)
    then show ?thesis using False passes [of d1 s] assms(14,15) by (simp add: Let_def)
  next
    case True
    let ?h1 = "source_sha256 (fw_content fs)" let ?h2 = "tree_payload_sha256 c"
    let ?s' = "s\<lparr>es_base_source := ?h1, es_base_tree := ?h2\<rparr>"
    have new: "source_on s d1 = Some ?h1" "tree_on s d1 = Some ?h2"
      using pair True assms(16) by (simp_all add: digest_on_def tree_digest_def)
    obtain r1 s1 d2 where acc: "accept_publication repaired s ?h1 ?h2 d1 = (r1, s1, d2)" by (cases "accept_publication repaired s ?h1 ?h2 d1")
    note a = accept_outcome [OF acc]
    obtain rep1 where r1: "r1 = Inr rep1" "s1 = ?s'" using a new assms(9) by (cases r1) auto
    have same: "source_on t d2 = source_on t d1" "tree_on t d2 = tree_on t d1" for t
      using a same_disk_digest by blast+
    have "\<exists>rep2 d3. check_before_write repaired ?s' REFUSE d2 = (Inr rep2, d3) \<and> \<not> has_conflict rep2"
      by (rule passes) (use new same [of ?s'] in simp_all)
    moreover have "\<exists>e d3. check_before_write repaired s REFUSE d2 = (Inl e, d3) \<and> ge_class e \<in> {ConcurrentSourceModification, ConcurrentTreeModification}"
      if "(?h1, ?h2) \<noteq> (es_base_source s, es_base_tree s)"
    proof -
      obtain r2 d3 where run: "check_before_write repaired s REFUSE d2 = (r2, d3)" by (cases "check_before_write repaired s REFUSE d2")
      then show ?thesis using check_outcome [OF run] that new same [of s] assms(9) by (cases r2) (auto simp: allows_source_overwrite_def allows_tree_overwrite_def)
    qed
    ultimately show ?thesis using True acc r1 by (simp add: Let_def)
  qed
qed


section \<open>Instances\<close>

definition pair_disk :: disk where
  "pair_disk = \<lparr>entries = [Path [] [''a''] \<mapsto> 0, Path [] [''b''] \<mapsto> 1], inodes = (\<lambda>_. [0]), next_inode = 2, calls = 0\<rparr>"

definition pair_session :: edit_session where
  "pair_session = \<lparr>es_source = Path [] [''a''], es_tree = Path [] [''b''], es_canonicalize = Inr,
     es_base_source = sha256_hex [0], es_base_tree = sha256_hex [0]\<rparr>"

lemma pair_entries [simp]:
  "entries pair_disk (Path [] [''a'']) = Some 0" "entries pair_disk (Path [] [''b'']) = Some 1" "inodes pair_disk i = [0]"
  by (simp_all add: pair_disk_def)

lemma pair_facts:
  "source_on pair_session pair_disk = Some (sha256_hex [0])" "tree_on pair_session pair_disk = Some (sha256_hex [0])"
  by (simp_all add: pair_session_def pair_disk_def digest_on_def content_def source_sha256_def tree_digest_def tree_payload_sha256_def)


theorem publication_fits_guard_witness:
  "\<exists>d d1 d2 d3 rep rep1 rep2. let s = pair_session\<lparr>es_base_source := sha256_hex [1], es_base_tree := sha256_hex [2]\<rparr> in
    publish (\<lambda>_. Proceeds) [\<lparr>fw_target = Path [] [''a''], fw_content = [1]\<rparr>, \<lparr>fw_target = Path [] [''b''], fw_content = [2]\<rparr>]
      (Path [] [''j'']) pair_disk = (Inr (), d)
    \<and> recover (\<lambda>_. Proceeds) [Path [] [''a''], Path [] [''b'']] (Path [] [''j'']) d = (Inr rep, d1)
    \<and> accept_publication (\<lambda>_. Proceeds) pair_session (sha256_hex [1]) (sha256_hex [2]) d1 = (Inr rep1, s, d2)
    \<and> check_before_write (\<lambda>_. Proceeds) s REFUSE d2 = (Inr rep2, d3)"
proof -
  let ?fs = "\<lparr>fw_target = Path [] [''a''], fw_content = [1]\<rparr> :: file_write" let ?ft = "\<lparr>fw_target = Path [] [''b''], fw_content = [2]\<rparr> :: file_write"
  let ?j = "Path [] [''j'']" let ?jt = "Path [] [''j.tmp'']" let ?env = "\<lambda>_ :: nat. Proceeds"
  have p: "build_plan [?fs, ?ft] pair_disk = Some torn_plan" "temp_path ?j = Some ?jt" "apart torn_plan ?j ?jt" "sound (temps torn_plan ?jt) pair_disk"
    "entries pair_disk ?j = None" "path_ok (fw_target ?fs)" "path_ok (fw_target ?ft)" "honest ?env" "reliable ?env"
    by (simp_all add: torn_plan_def pair_disk_def temp_path_def backup_path_def with_suffix_def exists_path_def apart_def
      own_def sound_def temps_def path_ok_def honest_def reliable_def)
  obtain d where pub: "publish ?env [?fs, ?ft] ?j pair_disk = (Inr (), d)"
    using publish_outcome [OF p(1) _ p(2-5,8) surjective_pairing] p(9)
    by (cases "publish ?env [?fs, ?ft] ?j pair_disk") (auto split: sum.splits)
  have ok: "\<forall>fw \<in> set [?fs, ?ft]. path_ok (fw_target fw)" using p(6,7) by simp
  obtain rep d1 where rec: "recover ?env [fw_target ?fs, fw_target ?ft] ?j d = (Inr rep, d1)"
    using recoverable_outcome [OF p(1) _ p(2-5) ok p(8,9) pub] by auto
  have s: "es_source pair_session = fw_target ?fs" "es_tree pair_session = fw_target ?ft" "es_canonicalize pair_session (fw_content ?ft) = Inr [2]"
    "source_on pair_session pair_disk = Some (es_base_source pair_session)" "tree_on pair_session pair_disk = Some (es_base_tree pair_session)"
    by (simp_all add: pair_facts) (simp_all add: pair_session_def)
  show ?thesis
    using publication_fits_guard [OF p pub rec s(1,2,4,5,3)] pub rec
    by (simp add: Let_def source_sha256_def tree_payload_sha256_def) blast
qed


end
