(* ===== verification/Spec2Isabelle.thy ===== *)
theory Spec2Isabelle
  imports Positions Locking Identifier_Map Bodies Session_Guard
begin

text \<open>
  A verification library for the tree engine of the editor, \<open>src/tree_engine\<close>.

  The engine keeps a source file as a tree of nodes. A node has a UUID, a short id (a small
  integer for people), typed fields, ordered children, a byte range in the source and references
  to other nodes. Clients call the functions of \<open>facade.py\<close>; these drive the operations
  of \<open>core/\<close> on a mutable copy of the tree.

  \<^bold>\<open>Theories and code.\<close> One theory per component, in the order of their dependencies:

  \<^item> \<open>Prelude\<close>, \<open>Python_Std\<close>: dictionaries with insertion order, list slices, UUIDs, and the
    string, \<open>int()\<close> and \<open>UUID()\<close> functions of Python that the textual forms use.
  \<^item> \<open>Errors\<close> (\<open>errors.py\<close>, \<open>exceptions.py\<close>): the codes, the class hierarchy, the catalogue.
  \<^item> \<open>Short_Id\<close> (\<open>core/short_id.py\<close>): the record \<open>short_id_map\<close> with every method of \<open>ShortIdMap\<close>.
  \<^item> \<open>Buffer\<close>, \<open>Positions\<close> (\<open>core/buffer.py\<close>, \<open>core/positions.py\<close>): the piece table, the lazy
    position index over its edit log, the byte totals per path and their coupling.
  \<^item> \<open>Locking\<close> (\<open>core/locking.py\<close>): the coordinator's state and the atomic steps of threads that
    open and close sessions; \<open>thread_step\<close> is the step relation.
  \<^item> \<open>Address\<close> (\<open>core/identity.py\<close>, \<open>core/address.py\<close>, \<open>core/references.py\<close>): addresses, their
    two parsers, normalization, the replacement of a UUID.
  \<^item> \<open>Json_Pointer\<close>, \<open>Identifier_Map\<close> (\<open>plugins/json_pointer.py\<close>, \<open>core/identifier_map.py\<close>): native
    references and the three-way identifier map with its version-keyed cache.
  \<^item> \<open>Nodes\<close>, \<open>Live_Tree\<close> (\<open>core/nodes.py\<close>, \<open>core/live_tree.py\<close>): the frozen schema, and the mutable
    mirror as objects of a heap: the record \<open>live_node\<close> under an object number, the record
    \<open>tree_document\<close> for \<open>TreeDocument\<close> with its four indexes.
  \<^item> \<open>Trees\<close>: the abstract view, a rose tree of object numbers, and replacement of a run of
    siblings in it (\<open>splice_tree\<close>).
  \<^item> \<open>Validation\<close> (\<open>core/validation.py\<close>): the preflight before every mutation.
  \<^item> \<open>Operations\<close>, \<open>Range_Operations\<close> (\<open>core/operations.py\<close>): insert, delete, replace_range. The
    second theory holds the proofs on ranges.
  \<^item> \<open>Move\<close> (\<open>core/move.py\<close>): moves with their changelog of undo actions.
  \<^item> \<open>Updates\<close> (\<open>core/updates.py\<close>): attributes, bodies, and the renaming of a node everywhere.
  \<^item> \<open>Facade\<close>, \<open>Fragments\<close>, \<open>Edits\<close>, \<open>Inserts\<close>, \<open>Bodies\<close> (\<open>facade.py\<close>): the commands, from the caller's addresses and expected
    version to the committed document.
  \<^item> \<open>Json\<close>, \<open>File_Txn\<close>, \<open>Recovery\<close>, \<open>Rollback\<close> (\<open>storage/file_txn.py\<close>): JSON values, their printing and
    parsing, UTF-8; a disk with hard links and system calls that may fail; publishing several files with a journal, and recovery.
    \<open>Recovery\<close> holds what \<open>publish\<close> leaves behind, \<open>Rollback\<close> what \<open>recover\<close> makes of it.
  \<^item> \<open>Sha256\<close>, \<open>Session_Guard\<close> (\<open>storage/session_guard.py\<close>): the digest function, canonical payloads, and the
    session that refuses a write after an external change. It runs on the disk of the file transactions.

  \<^bold>\<open>State.\<close> An object is a number, the heap maps it to its record and counts the objects made
  and the UUIDs minted; what \<open>uuid4()\<close> returns is a parameter \<open>gen\<close>, indexed by that count. A mutating
  function returns the document and the heap it leaves on every path, raising ones included.
  An error is the left side of a sum, and a loop that need not end is a \<open>partial_function\<close>, so that
  \<open>None\<close> is a call that does not return. Fuel occurs in the JSON parser alone, where the length of the text is enough. The theorems on operations state
  that they return. Python integers are \<open>int\<close>, UUIDs are 128-bit words, bytes 8-bit words.

  \<^bold>\<open>Interfaces.\<close> Where a component relies on another the contract is a locale, interpreted on the
  model's functions in the theory that provides them: \<open>id_registry\<close> (what \<open>reindex\<close> needs of the short
  id map), \<open>id_source\<close> (what the preflight's plan needs of the allocator), the byte string
  contract of the buffer and the eager position table, the rendering with a parser that reads it
  back, and \<open>reference_notation\<close> (what the identifier map needs of a plugin).

  \<^bold>\<open>What the lemmas show.\<close>

  \<^item> The tables stay exact. \<open>tracks doc h t\<close> says that the objects linked below the document's root form the tree
    \<open>t\<close> and that node table and short id index describe exactly it; \<open>loaded doc h t\<close> adds
    the exact form \<open>reindex\<close> gives all indexes. Insert, delete, replace_range and move take a document that tracks a tree to one that
    tracks the changed tree, or report an error and leave everything as it was.
  \<^item> The commands of the facade take a loaded document to a loaded one, one version later.
  \<^item> Identity: a short id is issued once, renaming keeps short ids and follows references, every
    textual form of an address leads back to its node.
  \<^item> The preflight reports exactly the violated conditions, and always returns.
  \<^item> A move that fails leaves no trace; all other errors are typed.
  \<^item> The buffer refines a byte string, a lazily replayed position an eagerly updated one.
  \<^item> Publishing files is atomic across a crash: whichever system call fails, \<open>recover\<close> on a working disk makes all targets new or
    all old, and the guard of an edit session tells which. An interrupted rollback cannot be resumed, and a short write is not noticed.
  \<^item> Lock sessions exclude each other, release everything, and do not deadlock unless nested.

  \<^bold>\<open>Hypotheses.\<close> \<open>uuid4()\<close> is assumed to mint, in the range of one call, distinct ids
  that the document does not know (\<open>mints_new\<close>, \<open>fresh_stream\<close>). A fragment parser is assumed to give distinct UUIDs to
  the nodes of one fragment. Callables that the caller injects are unrestricted unless a theorem says so. The
  disk of the file transactions keeps what a system call has done; a crash is an environment that fails from some call on;
  different paths name different files unless they are hard links; \<open>exists\<close> and \<open>close\<close> do not fail. The theorems on it
  say when they assume that no write stops short (\<open>honest\<close>).

  \<^bold>\<open>Not modelled.\<close> Text bodies of \<open>updates.py\<close> and the reparse stage, which end in format parsers that are third-party code;
  the plugins with their parsers and renderers; subtree copies, batch transactions, the reconciliation of references; integrity reports, queries and outlines, which only read; the rest of storage (tree file codec, the lifecycle of a document on disk);
  the facade's loading and rendering entry points. Messages of exceptions are left out. Outside the tree engine: the server's
  commands, clients, pipelines and scripts, which are I/O around it.
\<close>

end
